(* ===== verification/Prelude.thy ===== *)
theory Prelude
  imports Main "HOL-Library.Word"
begin

text \<open>
  Shared base of the development: the machine integer types of
  \<^verbatim>\<open>os/include/types.h\<close>, the byte memory every component works on, the
  results of code that may stop (a panic, a failed assertion, a bad pointer), and the
  generic lemmas on words, bytes and results the component theories use.
\<close>

unbundle bit_operations_syntax

section \<open>Machine types\<close>

type_synonym u8 = "8 word"
type_synonym u16 = "16 word"
type_synonym u32 = "32 word"
type_synonym u64 = "64 word"
type_synonym memory = "u64 \<Rightarrow> u8"

named_theorems addr_simps \<open>normal forms of address and page-number arithmetic\<close>
named_theorems mem_simps \<open>reading memory after a store\<close>
named_theorems res_simps \<open>results of code that may stop\<close>

section \<open>Output\<close>

text \<open>
  What the kernel hands to its console and to the firmware, in order: a call of
  \<^verbatim>\<open>printf\<close> with its format and its variadic slots, and the SBI calls.
\<close>

datatype kevent =
    KPrintf string "u64 list"
  | SbiPutchar u8
  | SbiSetTimer u64

abbreviation NL :: string where "NL \<equiv> [CHR 0x0A]"

section \<open>Results of code that may stop\<close>

text \<open>
  \<^verbatim>\<open>panic\<close> and \<^verbatim>\<open>assertion_failure\<close> print and then spin forever; a
  load or store through a pointer that is \<^verbatim>\<open>NULL\<close> traps in the kernel. Each is a
  value here, so every such exit of the code is a branch of the model.
\<close>

datatype kerror =
    Panic string
  | AssertionFailure string
  | NullDeref
  | OutputOverflow
  | OutOfRange
  | OutOfFuel

type_synonym 'a res = "kerror + 'a"

fun bindE :: "'e + 'a \<Rightarrow> ('a \<Rightarrow> 'e + 'b) \<Rightarrow> 'e + 'b" where
  "bindE (Inl e) f = Inl e"
| "bindE (Inr x) f = f x"

lemma bindE_cong [fundef_cong]:
  assumes "m = m'" and "\<And>x. m' = Inr x \<Longrightarrow> f x = g x"
  shows "bindE m f = bindE m' g"
  using assms by (cases m') auto

lemma bindE_eq_Inr [res_simps]: "bindE m f = Inr y \<longleftrightarrow> (\<exists>x. m = Inr x \<and> f x = Inr y)"
  by (cases m) auto

lemma bindE_eq_Inl [res_simps]:
  "bindE m f = Inl e \<longleftrightarrow> m = Inl e \<or> (\<exists>x. m = Inr x \<and> f x = Inl e)"
  by (cases m) auto

lemma bindE_assoc: "bindE (bindE m f) g = bindE m (\<lambda>x. bindE (f x) g)"
  by (cases m) auto

lemma bindE_InrE:
  assumes "bindE m f = Inr y"
  obtains x where "m = Inr x" and "f x = Inr y"
  using assms by (auto simp: res_simps)

text \<open>A \<^verbatim>\<open>for\<close> loop over a list of index values that stops at the first error.\<close>

fun foldE :: "('x \<Rightarrow> 's \<Rightarrow> 'e + 's) \<Rightarrow> 'x list \<Rightarrow> 's \<Rightarrow> 'e + 's" where
  "foldE f [] s = Inr s"
| "foldE f (x # xs) s = bindE (f x s) (foldE f xs)"

lemma foldE_append: "foldE f (xs @ ys) s = bindE (foldE f xs s) (foldE f ys)"
proof (induction xs arbitrary: s)
  case (Cons x xs)
  then show ?case by (cases "f x s") auto
qed simp

text \<open>
  Loop rule: a property of the state that every round keeps, for rounds that do not stop.
\<close>

lemma foldE_invariant:
  assumes "foldE f xs s = Inr t" and "P s"
    and "\<And>x s t. x \<in> set xs \<Longrightarrow> P s \<Longrightarrow> f x s = Inr t \<Longrightarrow> P t"
  shows "P t"
  using assms
proof (induction xs arbitrary: s)
  case Nil
  then show ?case by simp
next
  case (Cons x xs)
  then obtain u where u: "f x s = Inr u" "foldE f xs u = Inr t" by (auto simp: res_simps)
  have "P u" using Cons.prems(2,3) u(1) by auto
  with u(2) show ?case using Cons.prems(3) by (intro Cons.IH) auto
qed

section \<open>Words\<close>

lemma unat_word_of_nat64: "k < 18446744073709551616 \<Longrightarrow> unat (word_of_nat k :: u64) = k"
  by (simp add: unat_of_nat)

lemma unat_less64: "unat (x :: u64) < 18446744073709551616"
  using unsigned_less [of x] by simp

lemma unat_minus_one_u64 [simp]: "unat (- 1 :: u64) = 18446744073709551615"
  by (simp add: unsigned_minus_1_eq_mask mask_eq_exp_minus_1)

lemma unat_add64:
  fixes a b :: u64
  assumes "unat a + unat b < 18446744073709551616"
  shows "unat (a + b) = unat a + unat b"
  using assms by (simp add: unat_plus_if')

lemma unat_diff_Suc:
  fixes x a :: "'a::len word"
  assumes "x \<noteq> a"
  shows "unat (x - a) = Suc (unat (x - (a + 1)))"
proof -
  have "x - a \<noteq> 0" using assms by simp
  then have "unat (x - a - 1) = unat (x - a) - 1" and "0 < unat (x - a)"
    by (simp_all add: unat_minus_one unat_gt_0)
  then show ?thesis by (simp add: diff_diff_eq)
qed

lemma unat_take_bit_less: "unat (take_bit n (x :: u64)) < 2 ^ n"
  by (simp add: unsigned_take_bit_eq take_bit_nat_less_exp)

lemma take_bit_id64: "x < 2 ^ n \<Longrightarrow> n < 64 \<Longrightarrow> take_bit n (x :: u64) = x"
  by (simp add: less_mask_eq take_bit_eq_mask)

lemma unat_plus_one64: "(c :: u64) < e \<Longrightarrow> unat (c + 1) = Suc (unat c)"
  using unat_less64 [of e] by (simp add: word_less_nat_alt unat_plus_if')

lemma less_plus_one_iff: "(c :: u64) < e \<Longrightarrow> p < c + 1 \<longleftrightarrow> p \<le> c"
  by (simp add: word_less_nat_alt word_le_nat_alt unat_plus_one64 less_Suc_eq_le)

end
