(* ===== verification/Memory.thy ===== *)
theory Memory
  imports Prelude
begin

text \<open>
  Physical memory as the kernel sees it through its identity mapping: a byte at every
  64-bit address. Little-endian loads and stores of the C integer types, and the byte loops
  \<^verbatim>\<open>memset\<close> and \<^verbatim>\<open>memcpy\<close> of \<^verbatim>\<open>os/src/address.c\<close>, each
  with its closed form.
\<close>

section \<open>Loads and stores\<close>

fun read_le :: "memory \<Rightarrow> u64 \<Rightarrow> nat \<Rightarrow> u64" where
  "read_le m a 0 = 0"
| "read_le m a (Suc n) = ucast (m a) OR push_bit 8 (read_le m (a + 1) n)"

fun write_le :: "memory \<Rightarrow> u64 \<Rightarrow> nat \<Rightarrow> u64 \<Rightarrow> memory" where
  "write_le m a 0 v = m"
| "write_le m a (Suc n) v = write_le (m(a := ucast v)) (a + 1) n (drop_bit 8 v)"

definition read64 :: "memory \<Rightarrow> u64 \<Rightarrow> u64" where
  "read64 m a = read_le m a 8"

definition write64 :: "memory \<Rightarrow> u64 \<Rightarrow> u64 \<Rightarrow> memory" where
  "write64 m a v = write_le m a 8 v"

definition read32 :: "memory \<Rightarrow> u64 \<Rightarrow> u32" where
  "read32 m a = ucast (read_le m a 4)"

definition read16 :: "memory \<Rightarrow> u64 \<Rightarrow> u16" where
  "read16 m a = ucast (read_le m a 2)"

section \<open>memset and memcpy\<close>

text \<open>
  \<^verbatim>\<open>while (count--) *bptr++ = ch;\<close> runs once per unit of \<^verbatim>\<open>count\<close>; the
  stored byte is the low byte of the \<^verbatim>\<open>int\<close> argument.
\<close>

fun memset_loop :: "memory \<Rightarrow> u64 \<Rightarrow> u8 \<Rightarrow> nat \<Rightarrow> memory" where
  "memset_loop m bptr ch 0 = m"
| "memset_loop m bptr ch (Suc count) = memset_loop (m(bptr := ch)) (bptr + 1) ch count"

definition memset :: "memory \<Rightarrow> u64 \<Rightarrow> u32 \<Rightarrow> u64 \<Rightarrow> memory" where
  "memset m ptr ch count = memset_loop m ptr (ucast ch) (unat count)"

fun memcpy_loop :: "memory \<Rightarrow> u64 \<Rightarrow> u64 \<Rightarrow> nat \<Rightarrow> memory" where
  "memcpy_loop m ptr src 0 = m"
| "memcpy_loop m ptr src (Suc count) = memcpy_loop (m(ptr := m src)) (ptr + 1) (src + 1) count"

definition memcpy :: "memory \<Rightarrow> u64 \<Rightarrow> u64 \<Rightarrow> u64 \<Rightarrow> memory" where
  "memcpy m dest src count = memcpy_loop m dest src (unat count)"

section \<open>Closed forms\<close>

lemma write_le_apply [mem_simps]:
  assumes "n < 2 ^ 64"
  shows "write_le m a n v x =
    (if unat (x - a) < n then ucast (drop_bit (8 * unat (x - a)) v) else m x)"
  using assms
proof (induction n arbitrary: m a v)
  case 0
  then show ?case by simp
next
  case (Suc n)
  show ?case
  proof (cases "x = a")
    case True
    with True Suc show ?thesis by simp
  next
    case False
    with Suc show ?thesis
      by (simp add: unat_diff_Suc [OF False] drop_bit_drop_bit add.commute)
  qed
qed

lemma memset_loop_apply [mem_simps]:
  assumes "n < 2 ^ 64"
  shows "memset_loop m a ch n x = (if unat (x - a) < n then ch else m x)"
  using assms
proof (induction n arbitrary: m a)
  case 0
  then show ?case by simp
next
  case (Suc n)
  show ?case
  proof (cases "x = a")
    case True
    with True Suc show ?thesis by simp
  next
    case False
    with Suc show ?thesis by (simp add: unat_diff_Suc [OF False])
  qed
qed

lemma memset_apply [mem_simps]:
  "memset m a ch n x = (if x - a < n then ucast ch else m x)"
proof -
  have "unat n < 2 ^ 64" using unsigned_less [of n] by simp
  then show ?thesis by (simp add: memset_def memset_loop_apply word_less_nat_alt)
qed

lemma memcpy_loop_apply [mem_simps]:
  assumes "n < 2 ^ 64" and "n \<le> unat (src - dst)" and "n \<le> unat (dst - src)"
  shows "memcpy_loop m dst src n x =
    (if unat (x - dst) < n then m (src + (x - dst)) else m x)"
  using assms
proof (induction n arbitrary: m dst src)
  case 0
  then show ?case by simp
next
  case (Suc n)
  let ?m = "m(dst := m src)"
  have IH: "memcpy_loop ?m (dst + 1) (src + 1) n x =
    (if unat (x - (dst + 1)) < n then ?m ((src + 1) + (x - (dst + 1))) else ?m x)"
    using Suc.prems by (intro Suc.IH) (simp_all add: algebra_simps)
  have shift: "(src + 1) + (x - (dst + 1)) = src + (x - dst)"
    by (simp add: algebra_simps)
  have nodst: "src + (x - dst) \<noteq> dst" if "unat (x - dst) < Suc n"
  proof
    assume "src + (x - dst) = dst"
    then have "dst - src = x - dst" by (simp add: algebra_simps)
    with that Suc.prems(3) show False by simp
  qed
  show ?case
  proof (cases "x = dst")
    case True
    then show ?thesis using IH Suc.prems by (simp add: shift)
  next
    case False
    then have "unat (x - dst) = Suc (unat (x - (dst + 1)))" by (rule unat_diff_Suc)
    with IH nodst False show ?thesis by (simp only: memcpy_loop.simps shift) simp
  qed
qed

text \<open>
  Copying between ranges that do not overlap copies every byte and touches nothing else.
\<close>

lemma memcpy_apply:
  assumes "n \<le> src - dst" and "n \<le> dst - src"
  shows "memcpy m dst src n x = (if x - dst < n then m (src + (x - dst)) else m x)"
proof -
  have "unat n < 2 ^ 64" using unsigned_less [of n] by simp
  with assms show ?thesis
    by (simp add: memcpy_def memcpy_loop_apply word_less_nat_alt word_le_nat_alt)
qed

lemma bit_read_le:
  "n \<le> 8 \<Longrightarrow>
   bit (read_le m a n) i \<longleftrightarrow> i < 8 * n \<and> bit (m (a + word_of_nat (i div 8))) (i mod 8)"
proof (induction n arbitrary: a i)
  case 0
  then show ?case by simp
next
  case (Suc n)
  show ?case
  proof (cases "i < 8")
    case True
    then show ?thesis by (simp add: bit_or_iff bit_push_bit_iff bit_unsigned_iff)
  next
    case False
    then obtain j where j: "i = 8 + j" by (metis add.commute le_add_diff_inverse2 not_less)
    have hi: "\<not> bit (m a) i" using False bit_imp_le_length [of "m a" i] by auto
    have addr: "a + 1 + word_of_nat (j div 8) = a + word_of_nat (i div 8)"
      by (simp add: j add.assoc div_add_self1)
    have "bit (read_le m (a + 1) n) j \<longleftrightarrow>
        j < 8 * n \<and> bit (m (a + 1 + word_of_nat (j div 8))) (j mod 8)"
      using Suc by simp
    moreover have "i < 64" if "j < 8 * n" using that Suc.prems j by simp
    ultimately show ?thesis using hi Suc.prems
      by (auto simp: bit_or_iff bit_push_bit_iff bit_unsigned_iff j addr [unfolded j])
  qed
qed

text \<open>A load depends on the bytes it covers only.\<close>

lemma read_le_cong:
  "(\<And>k. k < n \<Longrightarrow> m (a + word_of_nat k) = m' (a + word_of_nat k)) \<Longrightarrow> read_le m a n = read_le m' a n"
proof (induction n arbitrary: a)
  case 0
  then show ?case by simp
next
  case (Suc n)
  have "m a = m' a" using Suc.prems [of 0] by simp
  moreover have "read_le m (a + 1) n = read_le m' (a + 1) n"
    using Suc.prems [of "Suc k" for k] by (intro Suc.IH) (simp add: add.assoc)
  ultimately show ?case by simp
qed

lemma read64_write64_same [mem_simps, simp]: "read64 (write64 m a v) a = v"
proof (rule bit_eqI)
  fix i
  assume "possible_bit TYPE(u64) i"
  then have i: "i < 64" by (simp add: possible_bit_def)
  then have k: "i div 8 < 8" by simp
  then have "unat (word_of_nat (i div 8) :: u64) = i div 8"
    by (simp add: unat_word_of_nat64)
  moreover have "8 * (i div 8) + i mod 8 = i" by simp
  ultimately show "bit (read64 (write64 m a v) a) i = bit v i"
    using i k
    by (simp add: read64_def write64_def bit_read_le write_le_apply bit_unsigned_iff bit_drop_bit_eq)
qed

lemma unat_add_ge8:
  fixes a b :: u64
  assumes "8 \<le> unat (b - a)" and "8 \<le> unat (a - b)" and "k < 8"
  shows "8 \<le> unat (b + word_of_nat k - a)"
proof -
  have k: "unat (word_of_nat k :: u64) = k" using assms(3) by (simp add: unat_word_of_nat64)
  have "unat (b - a) + k < 18446744073709551616"
    using assms unat_less64 [of a] unat_less64 [of b]
    by (simp add: unat_sub_if' split: if_splits)
  then have "unat ((b - a) + word_of_nat k) = unat (b - a) + k"
    by (simp add: unat_add64 k)
  with assms(1) show ?thesis by (simp add: algebra_simps)
qed

lemma read64_write64_disjoint [mem_simps]:
  assumes "8 \<le> unat (b - a)" and "8 \<le> unat (a - b)"
  shows "read64 (write64 m a v) b = read64 m b"
  unfolding read64_def write64_def
proof (rule read_le_cong)
  fix k :: nat
  assume "k < 8"
  with assms have "8 \<le> unat (b + word_of_nat k - a)" by (rule unat_add_ge8)
  then show "write_le m a 8 v (b + word_of_nat k) = m (b + word_of_nat k)"
    by (simp add: write_le_apply)
qed

end
