(* ===== verification/Address.thy ===== *)
theory Address
  imports Memory
begin

text \<open>
  Addresses, page numbers and page-table entries of the Sv39 scheme: the constants of
  \<^verbatim>\<open>os/include/address.h\<close> and the conversions of \<^verbatim>\<open>os/src/address.c\<close>,
  with the facts about them the page-table walk rests on (each conversion as a bit field,
  the round trips, and the decomposition of a virtual page number into three indices).
\<close>

section \<open>Constants of address.h\<close>

type_synonym PhysAddr = u64
type_synonym VirtAddr = u64
type_synonym PhysPageNum = u64
type_synonym VirtPageNum = u64
type_synonym PageTableEntry = u64

abbreviation PAGE_SIZE :: u64 where "PAGE_SIZE \<equiv> 0x1000"
abbreviation PAGE_SIZE_BITS :: nat where "PAGE_SIZE_BITS \<equiv> 12"
abbreviation PA_WIDTH_SV39 :: nat where "PA_WIDTH_SV39 \<equiv> 56"
abbreviation VA_WIDTH_SV39 :: nat where "VA_WIDTH_SV39 \<equiv> 39"
abbreviation PPN_WIDTH_SV39 :: nat where "PPN_WIDTH_SV39 \<equiv> 44"
abbreviation VPN_WIDTH_SV39 :: nat where "VPN_WIDTH_SV39 \<equiv> 27"

abbreviation PTE_V :: u8 where "PTE_V \<equiv> 0x01"
abbreviation PTE_R :: u8 where "PTE_R \<equiv> 0x02"
abbreviation PTE_W :: u8 where "PTE_W \<equiv> 0x04"
abbreviation PTE_X :: u8 where "PTE_X \<equiv> 0x08"
abbreviation PTE_U :: u8 where "PTE_U \<equiv> 0x10"

definition KERNBASE :: u64 where "KERNBASE = 0x80200000"
definition PHYSTOP :: u64 where "PHYSTOP = KERNBASE + 128 * 1024 * 1024"
definition MAXVA :: u64 where "MAXVA = push_bit (9 + 9 + 9 + 12) 1"
definition TRAMPOLINE :: u64 where
  "TRAMPOLINE = (MAXVA - PAGE_SIZE) OR NOT (push_bit 39 1 - 1)"
definition TRAPFRAME :: u64 where "TRAPFRAME = TRAMPOLINE - PAGE_SIZE"
definition KSTACK :: "nat \<Rightarrow> u64" where
  "KSTACK p = TRAMPOLINE - word_of_nat ((p + 1) * 2) * PAGE_SIZE"
definition SATP_SV39 :: u64 where "SATP_SV39 = push_bit 60 8"
definition MAKE_SATP :: "u64 \<Rightarrow> u64" where "MAKE_SATP pagetable = SATP_SV39 OR pagetable"
definition PGROUNDUP :: "u64 \<Rightarrow> u64" where
  "PGROUNDUP sz = (sz + PAGE_SIZE - 1) AND NOT (PAGE_SIZE - 1)"
definition PTE_PA :: "u64 \<Rightarrow> u64" where
  "PTE_PA pte = push_bit 12 (drop_bit 10 pte AND (push_bit 44 1 - 1))"
definition PTE_FLAGS :: "u64 \<Rightarrow> u64" where "PTE_FLAGS pte = pte AND (push_bit 10 1 - 1)"

section \<open>Conversions of address.c\<close>

definition phys_addr_from_size_t :: "u64 \<Rightarrow> PhysAddr" where
  "phys_addr_from_size_t v = v AND (push_bit PA_WIDTH_SV39 1 - 1)"

definition phys_page_num_from_size_t :: "u64 \<Rightarrow> PhysPageNum" where
  "phys_page_num_from_size_t v = v AND (push_bit PPN_WIDTH_SV39 1 - 1)"

definition phys_addr_from_phys_page_num :: "PhysPageNum \<Rightarrow> PhysAddr" where
  "phys_addr_from_phys_page_num ppn = push_bit PAGE_SIZE_BITS ppn"

definition virt_addr_from_size_t :: "u64 \<Rightarrow> VirtAddr" where
  "virt_addr_from_size_t v = v AND (push_bit VA_WIDTH_SV39 1 - 1)"

definition virt_page_num_from_size_t :: "u64 \<Rightarrow> VirtPageNum" where
  "virt_page_num_from_size_t v = v AND (push_bit VPN_WIDTH_SV39 1 - 1)"

definition size_t_from_virt_addr :: "VirtAddr \<Rightarrow> u64" where
  "size_t_from_virt_addr v = v OR NOT (push_bit VA_WIDTH_SV39 1 - 1)"

definition floor_phys :: "PhysAddr \<Rightarrow> PhysPageNum" where
  "floor_phys phys_addr = phys_addr div PAGE_SIZE"

definition ceil_phys :: "PhysAddr \<Rightarrow> PhysPageNum" where
  "ceil_phys phys_addr = (phys_addr + PAGE_SIZE - 1) div PAGE_SIZE"

definition floor_virts :: "VirtAddr \<Rightarrow> VirtPageNum" where
  "floor_virts virt_addr = virt_addr div PAGE_SIZE"

definition virt_page_num_from_virt_addr :: "VirtAddr \<Rightarrow> VirtPageNum" where
  "virt_page_num_from_virt_addr virt_addr = virt_addr div PAGE_SIZE"

section \<open>Page-table entries\<close>

definition PageTableEntry_new :: "PhysPageNum \<Rightarrow> u8 \<Rightarrow> PageTableEntry" where
  "PageTableEntry_new ppn PTEFlags = push_bit 10 ppn OR ucast PTEFlags"

definition PageTableEntry_empty :: PageTableEntry where
  "PageTableEntry_empty = 0"

definition PageTableEntry_ppn :: "PageTableEntry \<Rightarrow> PhysPageNum" where
  "PageTableEntry_ppn entry = drop_bit 10 entry AND (push_bit 44 1 - 1)"

definition PageTableEntry_flags :: "PageTableEntry \<Rightarrow> u8" where
  "PageTableEntry_flags entry = ucast (entry AND 0xFF)"

definition PageTableEntry_is_valid :: "PageTableEntry \<Rightarrow> bool" where
  "PageTableEntry_is_valid entry \<longleftrightarrow>
     (let entryFlags = PageTableEntry_flags entry in entryFlags AND PTE_V \<noteq> 0)"

text \<open>The three nine-bit indices of a virtual page number, most significant first.\<close>

fun get_page_offset_loop :: "nat \<Rightarrow> VirtPageNum \<Rightarrow> u64 list \<Rightarrow> u64 list" where
  "get_page_offset_loop 0 vpn page_offsets = page_offsets"
| "get_page_offset_loop (Suc i) vpn page_offsets =
     get_page_offset_loop i (drop_bit 9 vpn) (page_offsets[i := vpn AND (push_bit 9 1 - 1)])"

definition get_page_offset :: "VirtPageNum \<Rightarrow> u64 list \<Rightarrow> u64 list" where
  "get_page_offset vpn page_offsets = get_page_offset_loop 3 vpn page_offsets"

section \<open>Bit-field forms\<close>

lemma and_low_mask: "(x :: u64) AND (push_bit n 1 - 1) = take_bit n x"
  by (simp add: take_bit_eq_mask mask_eq_exp_minus_1 push_bit_eq_mult)

lemma phys_addr_take [addr_simps]: "phys_addr_from_size_t v = take_bit 56 v"
  unfolding phys_addr_from_size_t_def by (rule and_low_mask)

lemma phys_page_num_take [addr_simps]: "phys_page_num_from_size_t v = take_bit 44 v"
  unfolding phys_page_num_from_size_t_def by (rule and_low_mask)

lemma virt_addr_take [addr_simps]: "virt_addr_from_size_t v = take_bit 39 v"
  unfolding virt_addr_from_size_t_def by (rule and_low_mask)

lemma virt_page_num_take [addr_simps]: "virt_page_num_from_size_t v = take_bit 27 v"
  unfolding virt_page_num_from_size_t_def by (rule and_low_mask)

lemma div_page_drop: "(x :: u64) div PAGE_SIZE = drop_bit 12 x"
  by (simp add: drop_bit_eq_div)

lemma floor_drop [addr_simps]:
  "floor_phys a = drop_bit 12 a" "floor_virts a = drop_bit 12 a"
  "virt_page_num_from_virt_addr a = drop_bit 12 a"
  by (simp_all add: floor_phys_def floor_virts_def virt_page_num_from_virt_addr_def div_page_drop)

lemma PageTableEntry_ppn_take [addr_simps]: "PageTableEntry_ppn e = take_bit 44 (drop_bit 10 e)"
  unfolding PageTableEntry_ppn_def by (rule and_low_mask)

lemma PTE_PA_take [addr_simps]: "PTE_PA e = push_bit 12 (take_bit 44 (drop_bit 10 e))"
  unfolding PTE_PA_def by (simp only: and_low_mask)

lemma PTE_FLAGS_take [addr_simps]: "PTE_FLAGS e = take_bit 10 e"
  unfolding PTE_FLAGS_def by (rule and_low_mask)

lemma PageTableEntry_flags_ucast [addr_simps]: "PageTableEntry_flags e = ucast e"
proof -
  have "e AND 0xFF = take_bit 8 e" by (simp add: take_bit_eq_mask mask_eq_exp_minus_1)
  then show ?thesis
    by (simp add: PageTableEntry_flags_def) (rule bit_word_eqI, simp add: bit_simps)
qed

lemma PageTableEntry_is_valid_bit [addr_simps]: "PageTableEntry_is_valid e \<longleftrightarrow> bit e 0"
proof -
  have "(ucast e :: u8) AND 1 = 0 \<longleftrightarrow> \<not> bit e 0"
    using bit_unsigned_iff [of e 0, where 'a = "8 word"]
    by (simp add: and_one_eq mod_2_eq_odd bit_0)
  then show ?thesis by (simp add: PageTableEntry_is_valid_def PageTableEntry_flags_ucast)
qed

lemma PageTableEntry_new_ppn [addr_simps]:
  "PageTableEntry_ppn (PageTableEntry_new p f) = take_bit 44 p"
  unfolding PageTableEntry_ppn_take PageTableEntry_new_def
  by (rule bit_word_eqI) (auto simp: bit_simps dest: bit_imp_le_length)

lemma PageTableEntry_new_flags [addr_simps]:
  "PageTableEntry_flags (PageTableEntry_new p f) = f"
  unfolding PageTableEntry_flags_ucast PageTableEntry_new_def
  by (rule bit_word_eqI) (auto simp: bit_simps)

lemma PageTableEntry_new_valid [addr_simps]:
  "PageTableEntry_is_valid (PageTableEntry_new p f) \<longleftrightarrow> bit f 0"
  unfolding PageTableEntry_is_valid_bit PageTableEntry_new_def by (simp add: bit_simps)

lemma PageTableEntry_empty_invalid [simp]: "\<not> PageTableEntry_is_valid PageTableEntry_empty"
  "\<not> PageTableEntry_is_valid 0"
  by (simp_all add: PageTableEntry_is_valid_bit PageTableEntry_empty_def)

lemma PageTableEntry_ppn_less: "PageTableEntry_ppn e < 0x100000000000"
proof -
  have "unat (take_bit 44 (drop_bit 10 e)) < 2 ^ 44" by (rule unat_take_bit_less)
  then show ?thesis by (simp add: PageTableEntry_ppn_take word_less_nat_alt)
qed

lemma TRAMPOLINE_val [addr_simps]: "TRAMPOLINE = 0xFFFFFFFFFFFFF000"
  by (simp add: TRAMPOLINE_def MAXVA_def)

lemma TRAPFRAME_val [addr_simps]: "TRAPFRAME = 0xFFFFFFFFFFFFE000"
  by (simp add: TRAPFRAME_def TRAMPOLINE_val)

section \<open>The indices of a virtual page number\<close>

abbreviation vidx0 :: "u64 \<Rightarrow> u64" where "vidx0 vpn \<equiv> take_bit 9 (drop_bit 18 vpn)"
abbreviation vidx1 :: "u64 \<Rightarrow> u64" where "vidx1 vpn \<equiv> take_bit 9 (drop_bit 9 vpn)"
abbreviation vidx2 :: "u64 \<Rightarrow> u64" where "vidx2 vpn \<equiv> take_bit 9 vpn"

lemma get_page_offset_idx [addr_simps]:
  "get_page_offset vpn [a, b, c] = [vidx0 vpn, vidx1 vpn, vidx2 vpn]"
proof -
  have three: "(3::nat) = Suc (Suc (Suc 0))" by simp
  show ?thesis
    unfolding get_page_offset_def three
    by (simp only: get_page_offset_loop.simps list_update.simps nat.case and_low_mask
        drop_bit_drop_bit) simp
qed

text \<open>Two page numbers of 27 bits with the same indices are the same.\<close>

lemma vidx_inject:
  assumes "u < 2 ^ 27" and "v < (2 ^ 27 :: u64)"
    and "vidx0 u = vidx0 v" and "vidx1 u = vidx1 v" and "vidx2 u = vidx2 v"
  shows "u = v"
proof (rule bit_word_eqI)
  fix n
  assume "n < LENGTH(64)"
  have hi: "\<not> bit w n" if "27 \<le> n" "w < 2 ^ 27" for w :: u64
    using that by (metis bit_take_bit_iff less_mask_eq not_le take_bit_eq_mask)
  have f0: "bit (vidx0 w) k \<longleftrightarrow> k < 9 \<and> bit w (18 + k)" for w :: u64 and k by (simp add: bit_simps)
  have f1: "bit (vidx1 w) k \<longleftrightarrow> k < 9 \<and> bit w (9 + k)" for w :: u64 and k by (simp add: bit_simps)
  have f2: "bit (vidx2 w) k \<longleftrightarrow> k < 9 \<and> bit w k" for w :: u64 and k by (simp add: bit_simps)
  have "n < 9 \<or> n = 9 + (n - 9) \<and> n - 9 < 9 \<or> n = 18 + (n - 18) \<and> n - 18 < 9 \<or> 27 \<le> n"
    by linarith
  then consider "27 \<le> n" | k where "n = 18 + k" "k < 9" | k where "n = 9 + k" "k < 9" | "n < 9"
    by blast
  then show "bit u n = bit v n"
  proof cases
    case 1 then show ?thesis using hi assms(1,2) by blast
  next
    case 2 then show ?thesis using assms(3) f0 [of u] f0 [of v] by auto
  next
    case 3 then show ?thesis using assms(4) f1 [of u] f1 [of v] by auto
  next
    case 4 then show ?thesis using assms(5) f2 [of u] f2 [of v] by auto
  qed
qed

section \<open>Frames and the entries in them\<close>

text \<open>
  \<^verbatim>\<open>&get_pte_array(ppn)[i]\<close>: the address of entry \<open>i\<close> of the table in frame
  \<open>ppn\<close>, and the frame an address lies in.
\<close>

definition get_bytes_array :: "PhysPageNum \<Rightarrow> u64" where
  "get_bytes_array ppn = phys_addr_from_phys_page_num ppn"

definition get_pte_array :: "PhysPageNum \<Rightarrow> u64" where
  "get_pte_array ppn = phys_addr_from_phys_page_num ppn"

definition pte_slot :: "PhysPageNum \<Rightarrow> u64 \<Rightarrow> u64" where
  "pte_slot ppn i = get_pte_array ppn + 8 * i"

abbreviation frame_of :: "u64 \<Rightarrow> u64" where "frame_of a \<equiv> drop_bit 12 a"

lemma unat_frame_base:
  assumes "p < 0x10000000000000"
  shows "unat (phys_addr_from_phys_page_num p) = 4096 * unat p"
  using assms
  by (simp add: phys_addr_from_phys_page_num_def push_bit_eq_mult unat_word_ariths word_less_nat_alt)

lemma unat_pte_slot:
  assumes "p < 0x100000000000" and "i < 512"
  shows "unat (pte_slot p i) = 4096 * unat p + 8 * unat i"
proof -
  have "unat (phys_addr_from_phys_page_num p) = 4096 * unat p"
    using assms(1) by (intro unat_frame_base) (rule order.strict_trans, assumption, simp)
  then show ?thesis using assms
    by (simp add: pte_slot_def get_pte_array_def unat_word_ariths word_less_nat_alt)
qed

lemma in_frame_iff:
  assumes "p < 0x10000000000000"
  shows "x - phys_addr_from_phys_page_num p < PAGE_SIZE \<longleftrightarrow> frame_of x = p"
proof -
  have d: "unat (frame_of x) = unat x div 4096"
    by (simp add: drop_bit_eq_div unat_div_distrib)
  have p: "unat p < 4503599627370496" using assms by (simp add: word_less_nat_alt)
  have "frame_of x = p \<longleftrightarrow> unat x div 4096 = unat p" by (metis d word_unat_eq_iff)
  also have "\<dots> \<longleftrightarrow> 4096 * unat p \<le> unat x \<and> unat x < 4096 * unat p + 4096" by auto
  also have "\<dots> \<longleftrightarrow> unat (x - phys_addr_from_phys_page_num p) < 4096"
    using unat_less64 [of x] p by (auto simp: unat_sub_if' unat_frame_base [OF assms])
  finally show ?thesis by (simp add: word_less_nat_alt)
qed

lemma pte_slot_apart:
  assumes "p < 0x100000000000" "i < 512" "q < 0x100000000000" "j < 512"
    and "p \<noteq> q \<or> i \<noteq> j"
  shows "8 \<le> unat (pte_slot p i - pte_slot q j)"
proof -
  have "unat p \<noteq> unat q \<or> unat i \<noteq> unat j" using assms(5) by (simp add: word_unat_eq_iff)
  moreover have b: "unat i < 512" "unat j < 512" "unat p < 17592186044416" "unat q < 17592186044416"
    using assms by (simp_all add: word_less_nat_alt)
  moreover have "(512 * unat p + unat i) div 512 = unat p" "(512 * unat p + unat i) mod 512 = unat i"
    "(512 * unat q + unat j) div 512 = unat q" "(512 * unat q + unat j) mod 512 = unat j"
    using b by simp_all
  ultimately have ne: "512 * unat p + unat i \<noteq> 512 * unat q + unat j" by metis
  define s t where "s = 512 * unat p + unat i" and "t = 512 * unat q + unat j"
  have "unat (pte_slot p i) = 8 * s" "unat (pte_slot q j) = 8 * t" and "t < 9007199254740992"
    using assms b by (simp_all add: unat_pte_slot s_def t_def)
  with ne show ?thesis
    by (simp add: unat_sub_if' s_def [symmetric] t_def [symmetric]) arith
qed

lemma frame_of_pte_slot:
  assumes "p < 0x100000000000" "i < 512" "k < 8"
  shows "frame_of (pte_slot p i + word_of_nat k) = p"
proof -
  have k: "unat (word_of_nat k :: u64) = k" using assms(3) by (simp add: unat_word_of_nat64)
  have b: "unat p < 17592186044416" "unat i < 512" using assms by (simp_all add: word_less_nat_alt)
  have "unat (pte_slot p i + word_of_nat k) = 4096 * unat p + 8 * unat i + k"
    using b assms by (simp add: unat_add64 unat_pte_slot k)
  then have "unat (frame_of (pte_slot p i + word_of_nat k)) = unat p"
    using b assms(3) by (simp add: drop_bit_eq_div unat_div_distrib)
  then show ?thesis by (simp add: word_unat_eq_iff)
qed

end
