(* ===== verification/Kstack.thy ===== *)
theory Kstack
  imports Prelude
begin

text \<open>
  The bounded stack of \<^verbatim>\<open>os/src/stack.c\<close> (it holds the recycled frame numbers of
  the frame allocator) and the last-in-first-out interface its client relies on.
\<close>

section \<open>The stack of stack.c\<close>

definition MAX_SIZE :: int where "MAX_SIZE = 10000"

record Stack =
  stack_data :: "nat \<Rightarrow> u64"
  stack_top :: int

definition initStack :: "Stack \<Rightarrow> Stack" where
  "initStack stack = stack\<lparr>stack_top := -1\<rparr>"

definition isEmpty :: "Stack \<Rightarrow> bool" where
  "isEmpty stack \<longleftrightarrow> stack_top stack = -1"

definition isFull :: "Stack \<Rightarrow> bool" where
  "isFull stack \<longleftrightarrow> stack_top stack = MAX_SIZE - 1"

definition push :: "Stack \<Rightarrow> u64 \<Rightarrow> kevent list \<times> Stack" where
  "push stack v =
     (if isFull stack then ([KPrintf (''Stack overflow'' @ NL) []], stack)
      else let t = stack_top stack + 1
        in ([], stack\<lparr>stack_data := (stack_data stack)(nat t := v), stack_top := t\<rparr>))"

definition pop :: "Stack \<Rightarrow> kevent list \<times> u64 \<times> Stack" where
  "pop stack =
     (if isEmpty stack then ([KPrintf (''Stack underflow'' @ NL) []], -1, stack)
      else ([], stack_data stack (nat (stack_top stack)), stack\<lparr>stack_top := stack_top stack - 1\<rparr>))"

definition top_item :: "Stack \<Rightarrow> kevent list \<times> u64" where
  "top_item stack =
     (if isEmpty stack then ([KPrintf (''Stack is empty'' @ NL) []], -1)
      else ([], stack_data stack (nat (stack_top stack))))"

section \<open>Contents and well-formedness\<close>

definition stack_wf :: "Stack \<Rightarrow> bool" where
  "stack_wf s \<longleftrightarrow> -1 \<le> stack_top s \<and> stack_top s < MAX_SIZE"

definition stack_items :: "Stack \<Rightarrow> u64 list" where
  "stack_items s = map (stack_data s) [0..<nat (stack_top s + 1)]"

lemma length_stack_items [simp]: "length (stack_items s) = nat (stack_top s + 1)"
  by (simp add: stack_items_def)

lemma stack_items_update:
  assumes "-1 \<le> stack_top s"
  shows "stack_items (s\<lparr>stack_data := (stack_data s)(nat (stack_top s + 1) := v),
           stack_top := stack_top s + 1\<rparr>) = stack_items s @ [v]"
proof -
  have "nat (stack_top s + 1 + 1) = Suc (nat (stack_top s + 1))" using assms by simp
  then show ?thesis by (simp add: stack_items_def)
qed

lemma stack_items_snoc:
  assumes "0 \<le> stack_top s"
  shows "stack_items s =
    stack_items (s\<lparr>stack_top := stack_top s - 1\<rparr>) @ [stack_data s (nat (stack_top s))]"
proof -
  have "nat (stack_top s + 1) = Suc (nat (stack_top s))" using assms by simp
  then show ?thesis by (simp add: stack_items_def)
qed

section \<open>The interface\<close>

text \<open>
  What the frame allocator uses of its recycling stack: items in order, a capacity, a push
  that appends below the capacity and drops the value at it, a pop of the last item.
\<close>

locale lifo =
  fixes wf :: "'s \<Rightarrow> bool" and items :: "'s \<Rightarrow> u64 list" and cap :: nat
    and put :: "'s \<Rightarrow> u64 \<Rightarrow> kevent list \<times> 's" and get :: "'s \<Rightarrow> kevent list \<times> u64 \<times> 's"
  assumes items_put: "wf s \<Longrightarrow> length (items s) < cap \<Longrightarrow> items (snd (put s v)) = items s @ [v]"
    and put_full: "wf s \<Longrightarrow> \<not> length (items s) < cap \<Longrightarrow> snd (put s v) = s"
    and wf_put: "wf s \<Longrightarrow> wf (snd (put s v))"
    and items_get: "wf s \<Longrightarrow> items s \<noteq> [] \<Longrightarrow> items (snd (snd (get s))) = butlast (items s)"
    and get_value: "wf s \<Longrightarrow> items s \<noteq> [] \<Longrightarrow> fst (snd (get s)) = last (items s)"
    and wf_get: "wf s \<Longrightarrow> wf (snd (snd (get s)))"
    and cap_items: "wf s \<Longrightarrow> length (items s) \<le> cap"
begin

lemma get_put:
  assumes "wf s" and "length (items s) < cap"
  shows "fst (snd (get (snd (put s v)))) = v \<and>
    items (snd (snd (get (snd (put s v))))) = items s"
  using assms by (simp add: get_value items_get wf_put items_put)

lemma get_set:
  assumes "wf s" and "items s \<noteq> []" and "distinct (items s)"
  shows "fst (snd (get s)) \<in> set (items s) \<and>
    set (items (snd (snd (get s)))) = set (items s) - {fst (snd (get s))} \<and>
    distinct (items (snd (snd (get s))))"
proof -
  obtain xs x where "items s = xs @ [x]" using assms(2) by (cases "items s" rule: rev_cases) auto
  with assms show ?thesis by (auto simp: get_value items_get)
qed

lemma put_set:
  assumes "wf s" and "distinct (items s)" and "v \<notin> set (items s)"
  shows "set (items (snd (put s v))) =
      (if length (items s) < cap then insert v (set (items s)) else set (items s)) \<and>
    distinct (items (snd (put s v)))"
  using assms by (auto simp: items_put put_full)

end

lemma stack_nonempty_iff: "stack_wf s \<Longrightarrow> stack_items s \<noteq> [] \<longleftrightarrow> 0 \<le> stack_top s"
  by (auto simp: stack_items_def stack_wf_def)

interpretation recycle: lifo stack_wf stack_items "nat MAX_SIZE" push pop
proof unfold_locales
  fix s v
  assume wf: "stack_wf s"
  show "stack_items (snd (push s v)) = stack_items s @ [v]" if "length (stack_items s) < nat MAX_SIZE"
    using wf that
    by (auto simp: push_def isFull_def stack_wf_def Let_def MAX_SIZE_def stack_items_update)
  show "snd (push s v) = s" if "\<not> length (stack_items s) < nat MAX_SIZE"
    using wf that by (auto simp: push_def isFull_def stack_wf_def MAX_SIZE_def)
  show "stack_wf (snd (push s v))"
    using wf by (auto simp: push_def isFull_def stack_wf_def Let_def)
  show "length (stack_items s) \<le> nat MAX_SIZE"
    using wf by (auto simp: stack_wf_def MAX_SIZE_def)
  show "stack_wf (snd (snd (pop s)))"
    using wf by (auto simp: pop_def isEmpty_def stack_wf_def)
  show "stack_items (snd (snd (pop s))) = butlast (stack_items s)" if "stack_items s \<noteq> []"
    using wf that stack_items_snoc [of s]
    by (auto simp: stack_nonempty_iff pop_def isEmpty_def)
  show "fst (snd (pop s)) = last (stack_items s)" if "stack_items s \<noteq> []"
    using wf that stack_items_snoc [of s]
    by (auto simp: stack_nonempty_iff pop_def isEmpty_def)
qed

end
