(* ===== verification/FrameAlloc.thy ===== *)
theory FrameAlloc
  imports Address Kstack
begin

text \<open>
  The physical frame allocator of \<^verbatim>\<open>os/src/address.c\<close> (\<^verbatim>\<open>StackFrameAllocator\<close>):
  a bump pointer over the free page numbers and a stack of recycled ones. The theory ends
  with the contract its clients rely on, a locale, and its interpretation on the code.
\<close>

section \<open>State and operations\<close>

record StackFrameAllocator =
  current_ppn :: u64
  end_ppn :: u64
  recycled :: Stack

text \<open>
  The part of the kernel state the memory code works on: physical memory, the one allocator
  \<^verbatim>\<open>memory_allocator\<close>, and the output so far. Later theories extend the record.
\<close>

record pmem =
  mem :: memory
  memory_allocator :: StackFrameAllocator
  console :: "kevent list"

definition kprintf :: "string \<Rightarrow> u64 list \<Rightarrow> 'a pmem_scheme \<Rightarrow> 'a pmem_scheme" where
  "kprintf fmt args s = s\<lparr>console := console s @ [KPrintf fmt args]\<rparr>"

definition StackFrameAllocator_new :: "StackFrameAllocator \<Rightarrow> PhysPageNum \<Rightarrow> PhysPageNum \<Rightarrow> StackFrameAllocator" where
  "StackFrameAllocator_new allocator start_ppn stop_ppn =
     allocator\<lparr>current_ppn := start_ppn, end_ppn := stop_ppn,
       recycled := initStack (recycled allocator)\<rparr>"

definition StackFrameAllocator_alloc :: "'a pmem_scheme \<Rightarrow> (PhysPageNum \<times> 'a pmem_scheme) res" where
  "StackFrameAllocator_alloc s =
     (let allocator = memory_allocator s in
      bindE
        (if stack_top (recycled allocator) \<ge> 0
         then (case pop (recycled allocator) of (out, ppn, r) \<Rightarrow>
           Inr (ppn, s\<lparr>memory_allocator := allocator\<lparr>recycled := r\<rparr>, console := console s @ out\<rparr>))
         else if current_ppn allocator = end_ppn allocator then Inl (Panic ''memory is full'')
         else Inr (current_ppn allocator,
           s\<lparr>memory_allocator := allocator\<lparr>current_ppn := current_ppn allocator + 1\<rparr>\<rparr>))
        (\<lambda>(ppn, s).
          let addr = phys_addr_from_phys_page_num ppn
          in Inr (ppn, s\<lparr>mem := memset (mem s) addr 0 PAGE_SIZE\<rparr>)))"

definition StackFrameAllocator_dealloc :: "'a pmem_scheme \<Rightarrow> PhysPageNum \<Rightarrow> 'a pmem_scheme res" where
  "StackFrameAllocator_dealloc s ppn =
     (let allocator = memory_allocator s; r = recycled allocator in
      if ppn \<ge> current_ppn allocator
      then Inr (kprintf (''Frame ppn=%lx has not been allocated!'' @ NL) [ppn] s)
      else if stack_top r \<ge> 0 \<and> list_ex (\<lambda>i. ppn = stack_data r i) [0..<nat (stack_top r + 1)]
      then Inl (Panic ''this page has not been alloced'')
      else (case push r ppn of (out, r) \<Rightarrow>
        Inr (s\<lparr>memory_allocator := allocator\<lparr>recycled := r\<rparr>, console := console s @ out\<rparr>)))"

definition kalloc :: "'a pmem_scheme \<Rightarrow> (PhysPageNum \<times> 'a pmem_scheme) res" where
  "kalloc s = StackFrameAllocator_alloc s"

definition kfree :: "'a pmem_scheme \<Rightarrow> PhysPageNum \<Rightarrow> 'a pmem_scheme res" where
  "kfree s ppn = StackFrameAllocator_dealloc s ppn"

text \<open>
  \<^verbatim>\<open>frame_alloctor_init\<close>: the pool runs from the first whole frame after the kernel
  image (the linker symbol \<^verbatim>\<open>kernelend\<close>, a parameter) up to \<^verbatim>\<open>PHYSTOP\<close>.
\<close>

definition frame_alloctor_init :: "u64 \<Rightarrow> 'a pmem_scheme \<Rightarrow> 'a pmem_scheme" where
  "frame_alloctor_init kernelend s =
     (let s = s\<lparr>memory_allocator := StackFrameAllocator_new (memory_allocator s)
           (ceil_phys (phys_addr_from_size_t kernelend)) (ceil_phys (phys_addr_from_size_t PHYSTOP))\<rparr>;
          s = kprintf (''memony start:%p'' @ NL) [kernelend] s
      in kprintf (''memony end:%p'' @ NL) [PHYSTOP] s)"

text \<open>The self-test \<^verbatim>\<open>frame_allocator_test\<close>: five frames out, all back, five out again.\<close>

definition MEMORY_START :: u64 where "MEMORY_START = 0x80400000"
definition MEMORY_END :: u64 where "MEMORY_END = 0x80800000"

fun test_alloc_loop :: "nat \<Rightarrow> 'a pmem_scheme \<Rightarrow> (PhysPageNum list \<times> 'a pmem_scheme) res" where
  "test_alloc_loop 0 s = Inr ([], s)"
| "test_alloc_loop (Suc n) s =
     bindE (StackFrameAllocator_alloc s) (\<lambda>(f, s).
     bindE (test_alloc_loop n (kprintf (''%d'' @ NL) [f] s)) (\<lambda>(fs, s).
     Inr (f # fs, s)))"

fun test_dealloc_loop :: "PhysPageNum list \<Rightarrow> 'a pmem_scheme \<Rightarrow> 'a pmem_scheme res" where
  "test_dealloc_loop [] s = Inr s"
| "test_dealloc_loop (f # fs) s =
     bindE (StackFrameAllocator_dealloc s f) (\<lambda>s.
     test_dealloc_loop fs (kprintf (''%d'' @ NL) [f] s))"

definition frame_allocator_test :: "'a pmem_scheme \<Rightarrow> (PhysPageNum list \<times> 'a pmem_scheme) res" where
  "frame_allocator_test s =
     (let first_ppn = floor_phys (phys_addr_from_size_t MEMORY_START);
          last_ppn = ceil_phys (phys_addr_from_size_t MEMORY_END);
          s = s\<lparr>memory_allocator := StackFrameAllocator_new (memory_allocator s) first_ppn last_ppn\<rparr>;
          s = kprintf (''memory page start:%d'' @ NL) [first_ppn] s;
          s = kprintf (''memory page end:%d'' @ NL) [last_ppn] s
      in bindE (test_alloc_loop 5 s) (\<lambda>(frame, s).
         bindE (test_dealloc_loop frame (kprintf NL [] s)) (\<lambda>s.
         test_alloc_loop 5 (kprintf NL [] s))))"

text \<open>
  A client's sequence of requests: it keeps the list of frames it holds and gives back only
  frames of that list.
\<close>

datatype frame_op = AllocOp | FreeOp u64

fun frame_run :: "('s \<Rightarrow> (u64 \<times> 's) res) \<Rightarrow> ('s \<Rightarrow> u64 \<Rightarrow> 's res) \<Rightarrow>
    frame_op list \<Rightarrow> 's \<Rightarrow> u64 list \<Rightarrow> ('s \<times> u64 list) res" where
  "frame_run al rl [] s live = Inr (s, live)"
| "frame_run al rl (AllocOp # ops) s live =
     bindE (al s) (\<lambda>(f, s). frame_run al rl ops s (f # live))"
| "frame_run al rl (FreeOp p # ops) s live =
     (if p \<in> set live then bindE (rl s p) (\<lambda>s. frame_run al rl ops s (removeAll p live))
      else Inl OutOfRange)"

section \<open>Invariant and the frames handed out\<close>

definition allocator_inv :: "u64 \<Rightarrow> StackFrameAllocator \<Rightarrow> bool" where
  "allocator_inv lo a \<longleftrightarrow>
     lo \<le> current_ppn a \<and> current_ppn a \<le> end_ppn a \<and> end_ppn a < 0x100000000000 \<and>
     stack_wf (recycled a) \<and> distinct (stack_items (recycled a)) \<and>
     (\<forall>p \<in> set (stack_items (recycled a)). lo \<le> p \<and> p < current_ppn a)"

definition allocated :: "u64 \<Rightarrow> StackFrameAllocator \<Rightarrow> u64 set" where
  "allocated lo a = {p. lo \<le> p \<and> p < current_ppn a} - set (stack_items (recycled a))"

abbreviation pool_inv :: "u64 \<Rightarrow> 'a pmem_scheme \<Rightarrow> bool" where
  "pool_inv lo s \<equiv> allocator_inv lo (memory_allocator s)"

abbreviation owned :: "u64 \<Rightarrow> 'a pmem_scheme \<Rightarrow> u64 set" where
  "owned lo s \<equiv> allocated lo (memory_allocator s)"

lemma kprintf_simps [simp]:
  "mem (kprintf f xs s) = mem s" "memory_allocator (kprintf f xs s) = memory_allocator s"
  by (simp_all add: kprintf_def)

lemma list_ex_stack_items:
  "list_ex (\<lambda>i. p = stack_data r i) [0..<nat (stack_top r + 1)] \<longleftrightarrow> p \<in> set (stack_items r)"
  by (auto simp: list_ex_iff stack_items_def)

lemma scan_iff:
  "stack_wf r \<Longrightarrow>
   (0 \<le> stack_top r \<and> list_ex (\<lambda>i. p = stack_data r i) [0..<nat (stack_top r + 1)]) \<longleftrightarrow>
   p \<in> set (stack_items r)"
  using stack_nonempty_iff [of r] by (auto simp: list_ex_stack_items)

section \<open>The contract of a frame source\<close>

text \<open>
  What the page-table code and the process code rely on: an allocated frame was not handed
  out already, is zeroed, and no other byte changes; a release gives up at most the frame
  it names and changes no byte.
\<close>

locale frame_source =
  fixes inv :: "'s \<Rightarrow> bool" and own :: "'s \<Rightarrow> u64 set" and bytes :: "'s \<Rightarrow> memory"
    and alloc :: "'s \<Rightarrow> (u64 \<times> 's) res" and release :: "'s \<Rightarrow> u64 \<Rightarrow> 's res"
  assumes alloc_inv: "inv s \<Longrightarrow> alloc s = Inr (f, s') \<Longrightarrow> inv s'"
    and alloc_fresh: "inv s \<Longrightarrow> alloc s = Inr (f, s') \<Longrightarrow> f \<notin> own s"
    and alloc_own: "inv s \<Longrightarrow> alloc s = Inr (f, s') \<Longrightarrow> own s' = insert f (own s)"
    and alloc_bytes: "inv s \<Longrightarrow> alloc s = Inr (f, s') \<Longrightarrow>
      bytes s' x = (if frame_of x = f then 0 else bytes s x)"
    and own_small: "inv s \<Longrightarrow> p \<in> own s \<Longrightarrow> p < 0x100000000000"
    and release_total: "inv s \<Longrightarrow> p \<in> own s \<Longrightarrow> \<exists>s'. release s p = Inr s'"
    and release_inv: "inv s \<Longrightarrow> p \<in> own s \<Longrightarrow> release s p = Inr s' \<Longrightarrow> inv s'"
    and release_own: "inv s \<Longrightarrow> p \<in> own s \<Longrightarrow> release s p = Inr s' \<Longrightarrow>
      own s - {p} \<subseteq> own s' \<and> own s' \<subseteq> own s"
    and release_bytes: "inv s \<Longrightarrow> release s p = Inr s' \<Longrightarrow> bytes s' = bytes s"
begin

lemma alloc_small: "inv s \<Longrightarrow> alloc s = Inr (f, s') \<Longrightarrow> f < 0x100000000000"
  by (metis alloc_inv alloc_own insertI1 own_small)

lemma alloc_read_own:
  assumes "inv s" "alloc s = Inr (f, s')" "p \<in> own s" "i < 512"
  shows "read64 (bytes s') (pte_slot p i) = read64 (bytes s) (pte_slot p i)"
  unfolding read64_def
proof (rule read_le_cong)
  fix k :: nat
  assume "k < 8"
  then have "frame_of (pte_slot p i + word_of_nat k) = p"
    using assms own_small by (intro frame_of_pte_slot) auto
  moreover have "p \<noteq> f" using alloc_fresh [OF assms(1,2)] assms(3) by auto
  ultimately show "bytes s' (pte_slot p i + word_of_nat k) = bytes s (pte_slot p i + word_of_nat k)"
    using alloc_bytes [OF assms(1,2)] by simp
qed

lemma alloc_read_zero:
  assumes "inv s" "alloc s = Inr (f, s')" "i < 512"
  shows "read64 (bytes s') (pte_slot f i) = 0"
proof -
  have "bytes s' (pte_slot f i + word_of_nat k) = 0" if "k < 8" for k
    using that assms alloc_small [OF assms(1,2)]
    by (simp add: alloc_bytes [OF assms(1,2)] frame_of_pte_slot)
  then have "read64 (bytes s') (pte_slot f i) = read64 (\<lambda>_. 0) (pte_slot f i)"
    unfolding read64_def by (intro read_le_cong) simp
  also have "\<dots> = 0" by (simp add: read64_def numeral_eq_Suc)
  finally show ?thesis .
qed

lemma run_safe:
  assumes "inv s" "set live \<subseteq> own s" "distinct live"
    and "frame_run alloc release ops s live = Inr (s', live')"
  shows "inv s' \<and> set live' \<subseteq> own s' \<and> distinct live'"
  using assms
proof (induction ops arbitrary: s live)
  case Nil
  then show ?case by simp
next
  case (Cons op ops)
  show ?case
  proof (cases op)
    case AllocOp
    with Cons.prems obtain f t where a: "alloc s = Inr (f, t)"
      and run: "frame_run alloc release ops t (f # live) = Inr (s', live')"
      by (auto simp: res_simps)
    have "set (f # live) \<subseteq> own t" "distinct (f # live)"
      using Cons.prems alloc_own [OF _ a] alloc_fresh [OF _ a] by auto
    with alloc_inv [OF Cons.prems(1) a] run show ?thesis by (intro Cons.IH)
  next
    case (FreeOp p)
    with Cons.prems obtain t where p: "p \<in> set live" and r: "release s p = Inr t"
      and run: "frame_run alloc release ops t (removeAll p live) = Inr (s', live')"
      by (auto simp: res_simps split: if_splits)
    have own: "p \<in> own s" using p Cons.prems by auto
    have "set (removeAll p live) \<subseteq> own t" "distinct (removeAll p live)"
      using Cons.prems release_own [OF Cons.prems(1) own r] by (auto simp: distinct_removeAll)
    with release_inv [OF Cons.prems(1) own r] run show ?thesis by (intro Cons.IH)
  qed
qed

end

lemma pop_recycled:
  assumes "allocator_inv lo a" and "0 \<le> stack_top (recycled a)" and "pop (recycled a) = (out, p, r)"
  shows "allocator_inv lo (a\<lparr>recycled := r\<rparr>)" "lo \<le> p" "p < current_ppn a" "p \<notin> allocated lo a"
    "allocated lo (a\<lparr>recycled := r\<rparr>) = insert p (allocated lo a)"
proof -
  have wf: "stack_wf (recycled a)" and d: "distinct (stack_items (recycled a))"
    and ne: "stack_items (recycled a) \<noteq> []"
    using assms(1,2) stack_nonempty_iff by (auto simp: allocator_inv_def)
  have *: "p \<in> set (stack_items (recycled a)) \<and>
      set (stack_items r) = set (stack_items (recycled a)) - {p} \<and> distinct (stack_items r)"
    using recycle.get_set [OF wf ne d] assms(3) by simp
  have "stack_wf r" using recycle.wf_get [OF wf] assms(3) by simp
  with * assms(1)
  show "allocator_inv lo (a\<lparr>recycled := r\<rparr>)" "lo \<le> p" "p < current_ppn a" "p \<notin> allocated lo a"
    "allocated lo (a\<lparr>recycled := r\<rparr>) = insert p (allocated lo a)"
    by (auto simp: allocator_inv_def allocated_def)
qed

lemma bump_current:
  assumes "allocator_inv lo a" and "current_ppn a \<noteq> end_ppn a"
  shows "allocator_inv lo (a\<lparr>current_ppn := current_ppn a + 1\<rparr>)" "current_ppn a \<notin> allocated lo a"
    "allocated lo (a\<lparr>current_ppn := current_ppn a + 1\<rparr>) = insert (current_ppn a) (allocated lo a)"
proof -
  have less: "current_ppn a < end_ppn a" using assms by (auto simp: allocator_inv_def)
  then have lt: "p < current_ppn a + 1 \<longleftrightarrow> p \<le> current_ppn a" for p by (rule less_plus_one_iff)
  have up: "current_ppn a + 1 \<le> end_ppn a" using less by (rule inc_le)
  have lo: "lo \<le> current_ppn a + 1"
    using assms(1) lt [of lo] by (auto simp: allocator_inv_def)
  show "allocator_inv lo (a\<lparr>current_ppn := current_ppn a + 1\<rparr>)"
    using assms(1) lt up lo by (auto simp: allocator_inv_def)
  show "current_ppn a \<notin> allocated lo a" by (simp add: allocated_def)
  show "allocated lo (a\<lparr>current_ppn := current_ppn a + 1\<rparr>) = insert (current_ppn a) (allocated lo a)"
    using assms(1) lt by (auto simp: allocator_inv_def allocated_def)
qed

text \<open>A successful allocation, in terms of the allocator before and after.\<close>

lemma alloc_result:
  assumes "pool_inv lo s" and "StackFrameAllocator_alloc s = Inr (f, s')"
  shows "pool_inv lo s'" "f \<notin> owned lo s" "owned lo s' = insert f (owned lo s)"
    "mem s' = memset (mem s) (phys_addr_from_phys_page_num f) 0 PAGE_SIZE"
proof -
  let ?a = "memory_allocator s"
  have "pool_inv lo s' \<and> f \<notin> owned lo s \<and> owned lo s' = insert f (owned lo s) \<and>
    mem s' = memset (mem s) (phys_addr_from_phys_page_num f) 0 PAGE_SIZE"
  proof (cases "0 \<le> stack_top (recycled ?a)")
    case True
    obtain out p r where pop: "pop (recycled ?a) = (out, p, r)" by (cases "pop (recycled ?a)")
    then have "f = p" "memory_allocator s' = ?a\<lparr>recycled := r\<rparr>"
      "mem s' = memset (mem s) (phys_addr_from_phys_page_num p) 0 PAGE_SIZE"
      using assms(2) True by (auto simp: StackFrameAllocator_alloc_def Let_def)
    then show ?thesis using pop_recycled [OF assms(1) True pop] by simp
  next
    case False
    then have "current_ppn ?a \<noteq> end_ppn ?a" and "f = current_ppn ?a"
      "memory_allocator s' = ?a\<lparr>current_ppn := current_ppn ?a + 1\<rparr>"
      "mem s' = memset (mem s) (phys_addr_from_phys_page_num (current_ppn ?a)) 0 PAGE_SIZE"
      using assms(2) by (auto simp: StackFrameAllocator_alloc_def Let_def split: if_splits)
    then show ?thesis using bump_current [OF assms(1)] by simp
  qed
  then show "pool_inv lo s'" "f \<notin> owned lo s" "owned lo s' = insert f (owned lo s)"
    "mem s' = memset (mem s) (phys_addr_from_phys_page_num f) 0 PAGE_SIZE" by blast+
qed

text \<open>The frames an allocator can still hand out, and that it hands one out while there is one.\<close>

definition free_frames :: "StackFrameAllocator \<Rightarrow> nat" where
  "free_frames a = unat (end_ppn a - current_ppn a) + length (stack_items (recycled a))"

lemma alloc_available:
  assumes "pool_inv lo s" and "0 < free_frames (memory_allocator s)"
  obtains f s' where "StackFrameAllocator_alloc s = Inr (f, s')"
    "free_frames (memory_allocator s) = Suc (free_frames (memory_allocator s'))"
proof -
  let ?a = "memory_allocator s"
  have wf: "stack_wf (recycled ?a)" using assms(1) by (simp add: allocator_inv_def)
  show thesis
  proof (cases "0 \<le> stack_top (recycled ?a)")
    case True
    then have "free_frames ?a = Suc (free_frames (?a\<lparr>recycled := snd (snd (pop (recycled ?a)))\<rparr>))"
      using wf by (simp add: free_frames_def stack_items_def pop_def isEmpty_def stack_wf_def nat_add_distrib)
    with True show ?thesis
      by (cases "pop (recycled ?a)") (auto intro!: that simp: StackFrameAllocator_alloc_def Let_def)
  next
    case False
    then have "stack_items (recycled ?a) = []" by (simp add: stack_items_def)
    with assms(2) have "end_ppn ?a \<noteq> current_ppn ?a" by (auto simp: free_frames_def)
    from unat_diff_Suc [OF this]
    have "free_frames ?a = Suc (free_frames (?a\<lparr>current_ppn := current_ppn ?a + 1\<rparr>))"
      by (simp add: free_frames_def)
    with False \<open>end_ppn ?a \<noteq> current_ppn ?a\<close> show ?thesis
      by (intro that) (auto simp: StackFrameAllocator_alloc_def Let_def)
  qed
qed

lemma alloc_error: "StackFrameAllocator_alloc s = Inl e \<Longrightarrow> e = Panic ''memory is full''"
  by (auto simp: StackFrameAllocator_alloc_def Let_def split: prod.splits if_splits)

text \<open>
  Releasing a frame that is handed out: the code never reports an error, and the frame goes
  to the recycling stack unless that is full, in which case it stays out of circulation.
\<close>

lemma dealloc_result:
  assumes "pool_inv lo s" and "p \<in> owned lo s"
  obtains s' where "StackFrameAllocator_dealloc s p = Inr s'" "pool_inv lo s'" "mem s' = mem s"
    "owned lo s' = (if isFull (recycled (memory_allocator s)) then owned lo s else owned lo s - {p})"
    "recycled (memory_allocator s') = snd (push (recycled (memory_allocator s)) p)"
proof -
  let ?a = "memory_allocator s" and ?r = "recycled (memory_allocator s)"
  have wf: "stack_wf ?r" and d: "distinct (stack_items ?r)" and p: "p \<notin> set (stack_items ?r)"
    and less: "lo \<le> p" "p < current_ppn ?a"
    using assms by (auto simp: allocator_inv_def allocated_def)
  obtain out r where push: "push ?r p = (out, r)" by fastforce
  have full: "length (stack_items ?r) < nat MAX_SIZE \<longleftrightarrow> \<not> isFull ?r"
    using wf by (auto simp: stack_wf_def isFull_def MAX_SIZE_def)
  have set_r: "set (stack_items r) =
      (if isFull ?r then set (stack_items ?r) else insert p (set (stack_items ?r)))"
    and d_r: "distinct (stack_items r)" and wf_r: "stack_wf r"
    using recycle.put_set [OF wf d p] recycle.wf_put [OF wf, of p] full push by auto
  let ?s' = "s\<lparr>memory_allocator := ?a\<lparr>recycled := r\<rparr>, console := console s @ out\<rparr>"
  have "StackFrameAllocator_dealloc s p = Inr ?s'"
    using less scan_iff [OF wf, of p] p push
    by (auto simp: StackFrameAllocator_dealloc_def Let_def)
  moreover have "pool_inv lo ?s'"
    using assms(1) set_r d_r wf_r less by (auto simp: allocator_inv_def)
  moreover have "owned lo ?s' = (if isFull ?r then owned lo s else owned lo s - {p})"
    using set_r by (auto simp: allocated_def)
  ultimately show thesis using that push by simp
qed

interpretation pool: frame_source "pool_inv lo" "owned lo" mem StackFrameAllocator_alloc StackFrameAllocator_dealloc
  for lo
proof unfold_locales
  fix s s' :: "'a pmem_scheme" and f p x
  assume inv: "pool_inv lo s"
  show "p < 0x100000000000" if "p \<in> owned lo s"
    using inv that by (auto simp: allocator_inv_def allocated_def)
  show "mem s' = mem s" if "StackFrameAllocator_dealloc s p = Inr s'"
    using that by (auto simp: StackFrameAllocator_dealloc_def Let_def split: if_splits prod.splits)
  { assume alloc: "StackFrameAllocator_alloc s = Inr (f, s')"
    note r = alloc_result [OF inv alloc]
    show "pool_inv lo s'" "f \<notin> owned lo s" "owned lo s' = insert f (owned lo s)"
      using r by simp_all
    have "f \<in> owned lo s'" using r by simp
    then have "f < end_ppn (memory_allocator s')" and "end_ppn (memory_allocator s') < 0x100000000000"
      using r(1) by (auto simp: allocator_inv_def allocated_def)
    then have "f < 0x10000000000000" by (rule order.strict_trans [OF order.strict_trans]) simp
    then show "mem s' x = (if frame_of x = f then 0 else mem s x)"
      by (simp add: r(4) memset_apply in_frame_iff) }
  { assume p: "p \<in> owned lo s"
    obtain t where t: "StackFrameAllocator_dealloc s p = Inr t" "pool_inv lo t" "mem t = mem s"
      "owned lo t = (if isFull (recycled (memory_allocator s)) then owned lo s else owned lo s - {p})"
      by (rule dealloc_result [OF inv p])
    then show "\<exists>s'. StackFrameAllocator_dealloc s p = Inr s'" by simp
    assume "StackFrameAllocator_dealloc s p = Inr s'"
    with t show "pool_inv lo s'" "owned lo s - {p} \<subseteq> owned lo s' \<and> owned lo s' \<subseteq> owned lo s"
      by auto }
qed

section \<open>Properties\<close>

text \<open>
  C6: Whatever sequence of allocations and releases a client makes, releasing only frames it
  holds, the frames it holds at the end are pairwise distinct, lie in the pool (from its first
  frame \<open>lo\<close> up to its end) and the allocator's invariant still holds: no frame is ever
  handed out twice.
\<close>

theorem frame_run_safe:
  assumes "pool_inv lo s" and "set live \<subseteq> owned lo s" and "distinct live"
    and "frame_run StackFrameAllocator_alloc StackFrameAllocator_dealloc ops s live = Inr (s', live')"
  shows "distinct live' \<and> pool_inv lo s' \<and>
    (\<forall>p \<in> set live'. lo \<le> p \<and> p < end_ppn (memory_allocator s'))"
proof -
  have "pool_inv lo s' \<and> set live' \<subseteq> owned lo s' \<and> distinct live'"
    using assms by (rule pool.run_safe)
  then show ?thesis by (auto simp: allocator_inv_def allocated_def)
qed

definition empty_stack :: Stack where "empty_stack = \<lparr>stack_data = (\<lambda>_. 0), stack_top = -1\<rparr>"

definition sample_pmem :: pmem where
  "sample_pmem = \<lparr>mem = (\<lambda>_. 0), memory_allocator =
     \<lparr>current_ppn = 0x80400, end_ppn = 0x80800, recycled = empty_stack\<rparr>, console = []\<rparr>"

lemma sample_pmem_inv: "pool_inv 0x80400 sample_pmem"
  by (simp add: sample_pmem_def allocator_inv_def stack_wf_def stack_items_def empty_stack_def MAX_SIZE_def)

lemmas alloc_eval = StackFrameAllocator_alloc_def StackFrameAllocator_dealloc_def Let_def pop_def push_def
  isEmpty_def isFull_def MAX_SIZE_def

theorem frame_run_safe_witness:
  "\<exists>s'. frame_run StackFrameAllocator_alloc StackFrameAllocator_dealloc
      [AllocOp, AllocOp, FreeOp 0x80400, AllocOp] sample_pmem [] = Inr (s', [0x80400, 0x80401]) \<and>
    distinct [0x80400 :: u64, 0x80401] \<and> pool_inv 0x80400 s'"
proof -
  have run: "\<exists>s'. frame_run StackFrameAllocator_alloc StackFrameAllocator_dealloc
      [AllocOp, AllocOp, FreeOp 0x80400, AllocOp] sample_pmem [] = Inr (s', [0x80400, 0x80401])"
    by (simp add: sample_pmem_def empty_stack_def alloc_eval)
  then obtain s' where s': "frame_run StackFrameAllocator_alloc StackFrameAllocator_dealloc
      [AllocOp, AllocOp, FreeOp 0x80400, AllocOp] sample_pmem [] = Inr (s', [0x80400, 0x80401])" ..
  from frame_run_safe [OF sample_pmem_inv _ _ s'] s' show ?thesis by auto
qed

text \<open>
  An allocation stops with the panic \<open>memory is full\<close> exactly when no recycled frame
  is left and the bump pointer has reached the end of the pool; otherwise it returns a frame.
\<close>

lemma alloc_fails_iff:
  "(StackFrameAllocator_alloc s = Inl e \<longleftrightarrow>
      e = Panic ''memory is full'' \<and> stack_top (recycled (memory_allocator s)) < 0 \<and>
      current_ppn (memory_allocator s) = end_ppn (memory_allocator s))"
  by (auto simp: StackFrameAllocator_alloc_def Let_def split: prod.splits)

text \<open>
  C20: A released frame is the next one handed out, zeroed, and the allocator is back in the
  state it had before the release, as long as the recycling stack is not full; when it is
  full the frame is dropped and can never be handed out again.
\<close>

theorem dealloc_alloc_roundtrip:
  assumes "pool_inv lo s" and "p \<in> owned lo s"
  shows "\<exists>s'. StackFrameAllocator_dealloc s p = Inr s' \<and>
    (if isFull (recycled (memory_allocator s)) then owned lo s' = owned lo s
     else \<exists>s''. StackFrameAllocator_alloc s' = Inr (p, s'') \<and> owned lo s'' = owned lo s \<and>
       mem s'' = memset (mem s) (phys_addr_from_phys_page_num p) 0 PAGE_SIZE)"
proof -
  let ?r = "recycled (memory_allocator s)"
  obtain s' where s': "StackFrameAllocator_dealloc s p = Inr s'" "pool_inv lo s'" "mem s' = mem s"
    "owned lo s' = (if isFull ?r then owned lo s else owned lo s - {p})"
    "recycled (memory_allocator s') = snd (push ?r p)"
    by (rule dealloc_result [OF assms])
  have "\<exists>s''. StackFrameAllocator_alloc s' = Inr (p, s'')" if "\<not> isFull ?r"
  proof -
    have "-1 \<le> stack_top ?r" using assms by (auto simp: allocator_inv_def stack_wf_def)
    with that have "pop (snd (push ?r p)) = ([], p, (snd (push ?r p))\<lparr>stack_top := stack_top ?r\<rparr>)"
      and "0 \<le> stack_top (snd (push ?r p))"
      by (simp_all add: push_def pop_def isEmpty_def Let_def)
    then show ?thesis by (simp add: StackFrameAllocator_alloc_def s'(5) Let_def)
  qed
  moreover have "owned lo s'' = owned lo s \<and>
      mem s'' = memset (mem s) (phys_addr_from_phys_page_num p) 0 PAGE_SIZE"
    if "StackFrameAllocator_alloc s' = Inr (p, s'')" "\<not> isFull ?r" for s''
    using alloc_result [OF s'(2) that(1)] s'(3,4) that(2) assms(2) by auto
  ultimately show ?thesis using s'(1,4) by auto
qed

theorem dealloc_alloc_roundtrip_witness:
  "\<exists>s t u. StackFrameAllocator_alloc sample_pmem = Inr (0x80400, s) \<and>
     StackFrameAllocator_dealloc s 0x80400 = Inr t \<and> StackFrameAllocator_alloc t = Inr (0x80400, u)"
proof -
  have "\<exists>s. StackFrameAllocator_alloc sample_pmem = Inr (0x80400, s) \<and>
      stack_top (recycled (memory_allocator s)) = -1"
    by (simp add: sample_pmem_def empty_stack_def alloc_eval)
  then obtain s where s: "StackFrameAllocator_alloc sample_pmem = Inr (0x80400, s)"
    "stack_top (recycled (memory_allocator s)) = -1" by blast
  have inv: "pool_inv 0x80400 s" and own: "0x80400 \<in> owned 0x80400 s"
    using alloc_result [OF sample_pmem_inv s(1)] by auto
  show ?thesis using dealloc_alloc_roundtrip [OF inv own] s by (auto simp: isFull_def MAX_SIZE_def)
qed

text \<open>
  The allocator's self-test returns, from any state: the second round hands the five
  frames out in the reverse of the order they went back, newest first.
\<close>

lemma frame_allocator_test_result:
  "\<exists>s'. frame_allocator_test s = Inr ([0x80404, 0x80403, 0x80402, 0x80401, 0x80400], s')"
proof -
  have five: "(5 :: nat) = Suc (Suc (Suc (Suc (Suc 0))))" by simp
  show ?thesis
    unfolding frame_allocator_test_def five
    by (simp add: StackFrameAllocator_new_def initStack_def alloc_eval
        MEMORY_START_def MEMORY_END_def addr_simps ceil_phys_def kprintf_def upt_rec)
qed

end
