(* ===== verification/PageMap.thy ===== *)
theory PageMap
  imports PageTable
begin

text \<open>
  The abstract view of a table tree and the proof that the walks and the mapping code of
  \<^verbatim>\<open>os/src/address.c\<close> implement it. A tree is a partial function from index paths to
  table frames (\<open>tbl\<close>); it is well formed when no frame serves two paths. The view a
  client has is \<open>pt_lookup\<close>, the leaf entry of a virtual page number.
\<close>

section \<open>Table trees in memory\<close>

definition next_table :: "memory \<Rightarrow> u64 \<Rightarrow> u64 \<Rightarrow> u64 option" where
  "next_table m p i =
     (let e = read64 m (pte_slot p i)
      in if PageTableEntry_is_valid e then Some (PageTableEntry_ppn e) else None)"

fun tbl :: "memory \<Rightarrow> u64 \<Rightarrow> u64 list \<Rightarrow> u64 option" where
  "tbl m p [] = Some p"
| "tbl m p (i # is) = (case next_table m p i of None \<Rightarrow> None | Some q \<Rightarrow> tbl m q is)"

definition tpaths :: "u64 list set" where
  "tpaths = {is. length is \<le> 2 \<and> (\<forall>i \<in> set is. i < 512)}"

definition tables :: "memory \<Rightarrow> u64 \<Rightarrow> u64 set" where
  "tables m root = {p. \<exists>is \<in> tpaths. tbl m root is = Some p}"

definition pt_wf :: "memory \<Rightarrow> u64 \<Rightarrow> bool" where
  "pt_wf m root \<longleftrightarrow> root < 0x100000000000 \<and>
     (\<forall>is \<in> tpaths. \<forall>js \<in> tpaths. \<forall>p.
        tbl m root is = Some p \<longrightarrow> tbl m root js = Some p \<longrightarrow> is = js)"

definition vpath :: "VirtPageNum \<Rightarrow> u64 list" where
  "vpath vpn = [vidx0 vpn, vidx1 vpn]"

definition pt_lookup :: "memory \<Rightarrow> u64 \<Rightarrow> VirtPageNum \<Rightarrow> PageTableEntry option" where
  "pt_lookup m root vpn =
     (case tbl m root (vpath vpn) of
        None \<Rightarrow> None
      | Some p \<Rightarrow> let e = read64 m (pte_slot p (vidx2 vpn))
          in if PageTableEntry_is_valid e then Some e else None)"

text \<open>Entries above the leaves carry no access permission, which is what makes them branches.\<close>

definition is_branch :: "PageTableEntry \<Rightarrow> bool" where
  "is_branch e \<longleftrightarrow> e AND ucast (PTE_R OR PTE_W OR PTE_X) = 0"

definition pt_inner :: "memory \<Rightarrow> u64 \<Rightarrow> bool" where
  "pt_inner m root \<longleftrightarrow>
     (\<forall>is \<in> tpaths. \<forall>p. \<forall>i < 512. length is \<le> 1 \<longrightarrow> tbl m root is = Some p \<longrightarrow>
        PageTableEntry_is_valid (read64 m (pte_slot p i)) \<longrightarrow> is_branch (read64 m (pte_slot p i)))"

definition pt_ok :: "u64 \<Rightarrow> 'a pmem_scheme \<Rightarrow> u64 \<Rightarrow> bool" where
  "pt_ok lo s root \<longleftrightarrow> pool_inv lo s \<and> pt_wf (mem s) root \<and> pt_inner (mem s) root \<and>
     tables (mem s) root \<subseteq> owned lo s"

lemma pt_innerD:
  "pt_inner m root \<Longrightarrow> is \<in> tpaths \<Longrightarrow> length is \<le> 1 \<Longrightarrow> tbl m root is = Some p \<Longrightarrow> i < 512 \<Longrightarrow>
     PageTableEntry_is_valid (read64 m (pte_slot p i)) \<Longrightarrow> is_branch (read64 m (pte_slot p i))"
  by (simp add: pt_inner_def)

lemma new_is_branch: "is_branch (PageTableEntry_new f PTE_V)"
proof (unfold is_branch_def, rule bit_word_eqI)
  fix n :: nat
  have "(14 :: u64) = push_bit 1 (mask 3)" by (simp add: mask_eq_exp_minus_1)
  then have "bit (14 :: u64) n \<Longrightarrow> 1 \<le> n \<and> n < 10"
    by (simp only: bit_push_bit_iff bit_mask_iff) auto
  then show "bit (PageTableEntry_new f PTE_V AND ucast (PTE_R OR PTE_W OR PTE_X)) n = bit (0 :: u64) n"
    by (auto simp: PageTableEntry_new_def bit_simps bit_1_iff)
qed

section \<open>Paths\<close>

lemma vidx_less: "vidx0 v < 512" "vidx1 v < 512" "vidx2 v < (512 :: u64)"
  using unat_take_bit_less [of 9] by (simp_all add: word_less_nat_alt)

lemma tpaths_Nil [simp]: "[] \<in> tpaths"
  by (simp add: tpaths_def)

lemma tpaths_vpath [simp]: "vpath v \<in> tpaths" "length (vpath v) = 2"
  by (simp_all add: tpaths_def vidx_less vpath_def)

lemma tpaths_snocD: "is @ [i] \<in> tpaths \<Longrightarrow> is \<in> tpaths \<and> i < 512 \<and> length is \<le> 1"
  by (auto simp: tpaths_def)

lemma tpaths_snocI: "is \<in> tpaths \<Longrightarrow> i < 512 \<Longrightarrow> length is \<le> 1 \<Longrightarrow> is @ [i] \<in> tpaths"
  by (auto simp: tpaths_def)

lemma tbl_snoc:
  "tbl m r (is @ [i]) = (case tbl m r is of None \<Rightarrow> None | Some p \<Rightarrow> next_table m p i)"
  by (induction "is" arbitrary: r) (auto split: option.splits)

lemma tbl_small: "tbl m r is = Some p \<Longrightarrow> r < 0x100000000000 \<Longrightarrow> p < 0x100000000000"
proof (induction "is" arbitrary: r)
  case (Cons i js)
  then show ?case using PageTableEntry_ppn_less
    by (auto simp: next_table_def Let_def split: option.splits if_splits)
qed simp

lemma tablesI: "is \<in> tpaths \<Longrightarrow> tbl m r is = Some p \<Longrightarrow> p \<in> tables m r"
  by (auto simp: tables_def)

lemma root_in_tables [simp]: "r \<in> tables m r"
  by (rule tablesI [of "[]"]) simp_all

lemma pt_wf_inj:
  "pt_wf m r \<Longrightarrow> is \<in> tpaths \<Longrightarrow> js \<in> tpaths \<Longrightarrow> tbl m r is = Some p \<Longrightarrow> tbl m r js = Some p \<Longrightarrow> is = js"
  by (auto simp: pt_wf_def)

lemma tables_small: "pt_wf m r \<Longrightarrow> p \<in> tables m r \<Longrightarrow> p < 0x100000000000"
  using tbl_small by (fastforce simp: tables_def pt_wf_def)

section \<open>Stores into a table\<close>

lemma read_write_slot:
  assumes "p < 0x100000000000" "i < 512" "q < 0x100000000000" "j < 512"
  shows "read64 (write64 m (pte_slot p i) v) (pte_slot q j) =
    (if p = q \<and> i = j then v else read64 m (pte_slot q j))"
  using assms pte_slot_apart [of p i q j] pte_slot_apart [of q j p i]
  by (auto simp: read64_write64_disjoint)

lemma write_slot_other_frame:
  assumes "p < 0x100000000000" "i < 512" "frame_of x \<noteq> p"
  shows "write64 m (pte_slot p i) v x = m x"
proof -
  have "\<not> unat (x - pte_slot p i) < 8"
  proof
    assume less: "unat (x - pte_slot p i) < 8"
    have "x = pte_slot p i + word_of_nat (unat (x - pte_slot p i))" by simp
    with frame_of_pte_slot [OF assms(1,2) less] assms(3) show False by simp
  qed
  then show ?thesis by (simp add: write64_def write_le_apply)
qed

text \<open>Two memories with the same entries in the tables above the leaves have the same tree.\<close>

lemma tbl_cong:
  assumes "js \<in> tpaths"
    and "\<And>ks q k. ks \<in> tpaths \<Longrightarrow> length ks \<le> 1 \<Longrightarrow> tbl m r ks = Some q \<Longrightarrow> k < 512 \<Longrightarrow>
      read64 m' (pte_slot q k) = read64 m (pte_slot q k)"
  shows "tbl m' r js = tbl m r js"
  using assms(1)
proof (induction js rule: rev_induct)
  case Nil
  then show ?case by simp
next
  case (snoc k ks)
  note ks = tpaths_snocD [OF snoc.prems]
  with snoc.IH have eq: "tbl m' r ks = tbl m r ks" by simp
  show ?case
  proof (cases "tbl m r ks")
    case None
    with eq show ?thesis by (simp add: tbl_snoc)
  next
    case (Some q)
    with eq ks assms(2) [of ks q k] show ?thesis by (simp add: tbl_snoc next_table_def)
  qed
qed

section \<open>Growing a tree\<close>

text \<open>
  What adding intermediate tables leaves in place: the tree is still good, the client's view
  is the same, every table stays where it was, bytes change in tables of this tree only, and
  every frame taken from the pool became a table of this tree.
\<close>

definition pt_ext :: "u64 \<Rightarrow> u64 \<Rightarrow> 'a pmem_scheme \<Rightarrow> 'a pmem_scheme \<Rightarrow> bool" where
  "pt_ext lo root s s' \<longleftrightarrow>
     pt_ok lo s' root \<and>
     (\<forall>u. pt_lookup (mem s') root u = pt_lookup (mem s) root u) \<and>
     (\<forall>is \<in> tpaths. \<forall>p. tbl (mem s) root is = Some p \<longrightarrow> tbl (mem s') root is = Some p) \<and>
     (\<forall>x. frame_of x \<notin> tables (mem s') root \<longrightarrow> mem s' x = mem s x) \<and>
     owned lo s \<subseteq> owned lo s' \<and>
     tables (mem s') root = tables (mem s) root \<union> (owned lo s' - owned lo s)"

lemma pt_ext_refl: "pt_ok lo s root \<Longrightarrow> pt_ext lo root s s"
  by (simp add: pt_ext_def)

lemma pt_ext_tables: "pt_ext lo root s s' \<Longrightarrow> tables (mem s) root \<subseteq> tables (mem s') root"
  by (simp add: pt_ext_def)

lemma pt_ext_trans:
  assumes "pt_ext lo root s t" and "pt_ext lo root t u"
  shows "pt_ext lo root s u"
  using assms unfolding pt_ext_def
  by (elim conjE, intro conjI) (assumption, simp, simp, simp, blast, blast)

text \<open>Entries after a fresh frame is linked into slot \<open>(p, i)\<close>.\<close>

lemma alloc_entry_reads:
  assumes "pt_ok lo s root" "p \<in> tables (mem s) root" "i < 512"
    and al: "StackFrameAllocator_alloc s = Inr (f, s1)"
    and m': "m' = write64 (mem s1) (pte_slot p i) (PageTableEntry_new f PTE_V)"
  shows "q \<in> tables (mem s) root \<Longrightarrow> k < 512 \<Longrightarrow> (q, k) \<noteq> (p, i) \<Longrightarrow>
      read64 m' (pte_slot q k) = read64 (mem s) (pte_slot q k)"
    and "k < 512 \<Longrightarrow> read64 m' (pte_slot f k) = 0"
    and "next_table m' p i = Some f"
    and "k < 512 \<Longrightarrow> next_table m' f k = None"
    and "f \<notin> tables (mem s) root" and "f < 0x100000000000"
proof -
  have inv: "pool_inv lo s" and wf: "pt_wf (mem s) root" and sub: "tables (mem s) root \<subseteq> owned lo s"
    using assms(1) by (auto simp: pt_ok_def)
  show f: "f < 0x100000000000" "f \<notin> tables (mem s) root"
    using pool.alloc_small [OF inv al] pool.alloc_fresh [OF inv al] sub by auto
  have p: "p < 0x100000000000" and pf: "p \<noteq> f"
    using tables_small [OF wf assms(2)] f assms(2) by auto
  show "read64 m' (pte_slot q k) = read64 (mem s) (pte_slot q k)"
    if "q \<in> tables (mem s) root" "k < 512" "(q, k) \<noteq> (p, i)"
    using that p sub tables_small [OF wf that(1)] assms(3) pool.alloc_read_own [OF inv al, of q k]
    by (auto simp: m' read_write_slot)
  show zero: "read64 m' (pte_slot f k) = 0" if "k < 512" for k
    using that f p pf assms(3) pool.alloc_read_zero [OF inv al that] by (simp add: m' read_write_slot)
  show "next_table m' f k = None" if "k < 512" using zero [OF that] by (simp add: next_table_def)
  show "next_table m' p i = Some f"
    using f by (simp add: next_table_def m' Let_def PageTableEntry_new_valid PageTableEntry_new_ppn
        take_bit_id64)
qed

lemma tbl_alloc_entry:
  assumes "pt_ok lo s root" "is \<in> tpaths" "length is \<le> 1" "tbl (mem s) root is = Some p" "i < 512"
    and inval: "\<not> PageTableEntry_is_valid (read64 (mem s) (pte_slot p i))"
    and al: "StackFrameAllocator_alloc s = Inr (f, s1)"
    and m': "m' = write64 (mem s1) (pte_slot p i) (PageTableEntry_new f PTE_V)"
    and js: "js \<in> tpaths"
  shows "tbl m' root js = (if js = is @ [i] then Some f else tbl (mem s) root js)"
proof -
  have p: "p \<in> tables (mem s) root" using assms(2,4) by (rule tablesI)
  note reads = alloc_entry_reads [OF assms(1) p assms(5) al m']
  have wf: "pt_wf (mem s) root" using assms(1) by (simp add: pt_ok_def)
  have next_old: "next_table (mem s) p i = None" using inval by (simp add: next_table_def)
  show ?thesis
    using js
  proof (induction js rule: rev_induct)
    case Nil
    then show ?case by simp
  next
    case (snoc k ks)
    note ks = tpaths_snocD [OF snoc.prems]
    then have IH: "tbl m' root ks = (if ks = is @ [i] then Some f else tbl (mem s) root ks)"
      using snoc.IH by simp
    consider "ks = is @ [i]" | "ks \<noteq> is @ [i]" "tbl (mem s) root ks = None"
      | q where "ks \<noteq> is @ [i]" "tbl (mem s) root ks = Some q" by fastforce
    then show ?case
    proof cases
      case 1
      then show ?thesis using IH ks assms(4) by (simp add: tbl_snoc next_old reads(4))
    next
      case 2
      then show ?thesis using IH assms(4) by (auto simp: tbl_snoc)
    next
      case 3
      have q: "q \<in> tables (mem s) root" using ks 3 by (auto intro: tablesI)
      have "ks = is" if "q = p" using pt_wf_inj [OF wf, of ks "is" p] that 3 ks assms(2,4) by simp
      then show ?thesis
        using IH 3 ks assms(4) reads(1) [OF q, of k] reads(3)
        by (cases "(q, k) = (p, i)") (auto simp: tbl_snoc next_table_def)
    qed
  qed
qed

text \<open>Linking a fresh frame into an empty slot above the leaves extends the tree.\<close>

lemma alloc_entry_tables:
  assumes ok: "pt_ok lo s root" and "is": "is \<in> tpaths" "length is \<le> 1"
    and p: "tbl (mem s) root is = Some p" and i: "i < 512"
    and inval: "\<not> PageTableEntry_is_valid (read64 (mem s) (pte_slot p i))"
    and al: "StackFrameAllocator_alloc s = Inr (f, s1)"
    and m': "m' = write64 (mem s1) (pte_slot p i) (PageTableEntry_new f PTE_V)"
  shows "tbl m' root (is @ [i]) = Some f" and "tbl (mem s) root (is @ [i]) = None"
    and "tables m' root = insert f (tables (mem s) root)" and "pt_wf m' root"
proof -
  have pin: "p \<in> tables (mem s) root" using "is"(1) p by (rule tablesI)
  note reads = alloc_entry_reads [OF ok pin i al m']
  note tbl' = tbl_alloc_entry [OF ok "is" p i inval al m']
  have isi: "is @ [i] \<in> tpaths" using "is" i by (intro tpaths_snocI)
  show none: "tbl (mem s) root (is @ [i]) = None"
    using p inval by (simp add: tbl_snoc next_table_def)
  show some: "tbl m' root (is @ [i]) = Some f" using tbl' isi by simp
  have "tables (mem s) root \<subseteq> tables m' root"
  proof
    fix q
    assume "q \<in> tables (mem s) root"
    then obtain js where js: "js \<in> tpaths" "tbl (mem s) root js = Some q" by (auto simp: tables_def)
    then have "tbl m' root js = Some q" using tbl' [of js] none by auto
    with js(1) show "q \<in> tables m' root" by (rule tablesI)
  qed
  moreover have "tables m' root \<subseteq> insert f (tables (mem s) root)"
    using tbl' by (auto simp: tables_def split: if_splits)
  ultimately show "tables m' root = insert f (tables (mem s) root)"
    using tablesI [OF isi some] by blast
  show "pt_wf m' root"
    using ok tbl' reads(5) tablesI [of _ "mem s" root f] by (auto simp: pt_wf_def pt_ok_def)
qed

lemma alloc_entry_lookup:
  assumes ok: "pt_ok lo s root" and "is": "is \<in> tpaths" "length is \<le> 1"
    and p: "tbl (mem s) root is = Some p" and i: "i < 512"
    and inval: "\<not> PageTableEntry_is_valid (read64 (mem s) (pte_slot p i))"
    and al: "StackFrameAllocator_alloc s = Inr (f, s1)"
    and m': "m' = write64 (mem s1) (pte_slot p i) (PageTableEntry_new f PTE_V)"
  shows "pt_lookup m' root u = pt_lookup (mem s) root u"
proof -
  have pin: "p \<in> tables (mem s) root" using "is"(1) p by (rule tablesI)
  note reads = alloc_entry_reads [OF ok pin i al m']
  note tbl' = tbl_alloc_entry [OF ok "is" p i inval al m' tpaths_vpath(1), of u]
  note tabs = alloc_entry_tables [OF ok "is" p i inval al m']
  consider "vpath u = is @ [i]" | "vpath u \<noteq> is @ [i]" "tbl (mem s) root (vpath u) = None"
    | q where "vpath u \<noteq> is @ [i]" "tbl (mem s) root (vpath u) = Some q" by fastforce
  then show ?thesis
  proof cases
    case 1
    then show ?thesis using tabs(1,2) reads(2) [OF vidx_less(3), of u] by (simp add: pt_lookup_def)
  next
    case 2
    then show ?thesis using tbl' by (simp add: pt_lookup_def)
  next
    case 3
    have "vpath u \<noteq> is" using "is"(2) tpaths_vpath(2) [of u] by auto
    then have "q \<noteq> p"
      using pt_wf_inj [of "mem s" root "vpath u" "is" p] 3 "is" p ok by (auto simp: pt_ok_def)
    then have "read64 m' (pte_slot q (vidx2 u)) = read64 (mem s) (pte_slot q (vidx2 u))"
      using reads(1) [of q "vidx2 u"] tablesI [OF _ 3(2)] vidx_less(3) by auto
    with 3 tbl' show ?thesis by (simp add: pt_lookup_def)
  qed
qed

lemma alloc_entry_inner:
  assumes ok: "pt_ok lo s root" and "is": "is \<in> tpaths" "length is \<le> 1"
    and p: "tbl (mem s) root is = Some p" and i: "i < 512"
    and inval: "\<not> PageTableEntry_is_valid (read64 (mem s) (pte_slot p i))"
    and al: "StackFrameAllocator_alloc s = Inr (f, s1)"
    and m': "m' = write64 (mem s1) (pte_slot p i) (PageTableEntry_new f PTE_V)"
  shows "pt_inner m' root"
  unfolding pt_inner_def
proof (intro ballI allI impI)
  fix js q k
  assume js: "js \<in> tpaths" and k: "k < (512 :: u64)" "length js \<le> 1" "tbl m' root js = Some q"
    and valid: "PageTableEntry_is_valid (read64 m' (pte_slot q k))"
  have pin: "p \<in> tables (mem s) root" using "is"(1) p by (rule tablesI)
  note reads = alloc_entry_reads [OF ok pin i al m']
  note tbl' = tbl_alloc_entry [OF ok "is" p i inval al m' js]
  have inner: "pt_inner (mem s) root" using ok by (simp add: pt_ok_def)
  consider "js = is @ [i]" "q = f" | "(q, k) = (p, i)"
    | "tbl (mem s) root js = Some q" "(q, k) \<noteq> (p, i)" using tbl' k(3) by (auto split: if_splits)
  then show "is_branch (read64 m' (pte_slot q k))"
  proof cases
    case 1
    then show ?thesis using reads(2) [OF k(1)] valid by simp
  next
    case 2
    then show ?thesis by (simp add: m' new_is_branch)
  next
    case 3
    then show ?thesis
      using reads(1) [OF tablesI [OF js 3(1)] k(1) 3(2)] valid pt_innerD [OF inner js k(2) 3(1) k(1)] by simp
  qed
qed

lemma alloc_entry_ext:
  assumes ok: "pt_ok lo s root" and "is": "is \<in> tpaths" "length is \<le> 1"
    and p: "tbl (mem s) root is = Some p" and i: "i < 512"
    and inval: "\<not> PageTableEntry_is_valid (read64 (mem s) (pte_slot p i))"
    and al: "StackFrameAllocator_alloc s = Inr (f, s1)"
    and s': "s' = s1\<lparr>mem := write64 (mem s1) (pte_slot p i) (PageTableEntry_new f PTE_V)\<rparr>"
  shows "pt_ext lo root s s'"
proof -
  let ?m' = "write64 (mem s1) (pte_slot p i) (PageTableEntry_new f PTE_V)"
  have inv: "pool_inv lo s" and wf: "pt_wf (mem s) root" and sub: "tables (mem s) root \<subseteq> owned lo s"
    using ok by (auto simp: pt_ok_def)
  have pin: "p \<in> tables (mem s) root" using "is"(1) p by (rule tablesI)
  note tabs = alloc_entry_tables [OF ok "is" p i inval al refl]
  have "\<forall>js \<in> tpaths. \<forall>q. tbl (mem s) root js = Some q \<longrightarrow> tbl ?m' root js = Some q"
    using tbl_alloc_entry [OF ok "is" p i inval al refl] tabs(2) by auto
  moreover have "?m' x = mem s x" if "frame_of x \<notin> tables ?m' root" for x
  proof -
    have "frame_of x \<noteq> p" and "frame_of x \<noteq> f" using that pin by (auto simp: tabs(3))
    then show ?thesis
      using tables_small [OF wf pin] i pool.alloc_bytes [OF inv al, of x]
      by (simp add: write_slot_other_frame)
  qed
  moreover have "\<forall>u. pt_lookup ?m' root u = pt_lookup (mem s) root u"
    using alloc_entry_lookup [OF ok "is" p i inval al refl] by simp
  moreover have "pool_inv lo s1" and "owned lo s1 = insert f (owned lo s)" and "f \<notin> owned lo s"
    using alloc_result [OF inv al] by simp_all
  moreover from this have "insert f (tables (mem s) root) =
      tables (mem s) root \<union> (insert f (owned lo s) - owned lo s)" by auto
  ultimately show ?thesis
    using tabs(4) sub alloc_entry_inner [OF ok "is" p i inval al refl]
    by (auto simp: pt_ext_def pt_ok_def s' tabs(3))
qed


section \<open>The walks\<close>

lemma find_pte_tbl:
  "find_pte m pt vpn =
     (case tbl m (root_ppn pt) (vpath vpn) of
        None \<Rightarrow> None
      | Some p \<Rightarrow> if PageTableEntry_is_valid (read64 m (pte_slot p (vidx2 vpn)))
          then Some (pte_slot p (vidx2 vpn)) else None)"
  by (simp add: find_pte_def get_page_offset_idx find_pte_loop.simps vpath_def next_table_def Let_def)

text \<open>What \<^verbatim>\<open>find_pte\<close> finds is the client's view.\<close>

lemma find_pte_lookup: "map_option (read64 m) (find_pte m pt vpn) = pt_lookup m (root_ppn pt) vpn"
  by (simp add: find_pte_tbl pt_lookup_def Let_def split: option.splits)

text \<open>One level of \<^verbatim>\<open>find_pte_create\<close>.\<close>

definition ensure_entry :: "'a pmem_scheme \<Rightarrow> u64 \<Rightarrow> 'a pmem_scheme res" where
  "ensure_entry s pte_ptr =
     (if \<not> PageTableEntry_is_valid (read64 (mem s) pte_ptr)
      then bindE (StackFrameAllocator_alloc s) (\<lambda>(frame, s).
        Inr (s\<lparr>mem := write64 (mem s) pte_ptr (PageTableEntry_new frame PTE_V)\<rparr>))
      else Inr s)"

lemma find_pte_create_levels:
  "find_pte_create s pt vpn =
     bindE (ensure_entry s (pte_slot (root_ppn pt) (vidx0 vpn))) (\<lambda>s.
     let p = PageTableEntry_ppn (read64 (mem s) (pte_slot (root_ppn pt) (vidx0 vpn))) in
     bindE (ensure_entry s (pte_slot p (vidx1 vpn))) (\<lambda>s.
     let q = PageTableEntry_ppn (read64 (mem s) (pte_slot p (vidx1 vpn))) in
     Inr (pte_slot q (vidx2 vpn), s)))"
proof -
  have step: "find_pte_create_loop s idx i ppn =
      bindE (ensure_entry s (pte_slot ppn (idx ! i))) (\<lambda>s.
        find_pte_create_loop s idx (i + 1) (PageTableEntry_ppn (read64 (mem s) (pte_slot ppn (idx ! i)))))"
    if "i < 2" for s :: "'a pmem_scheme" and idx i ppn
    using that unfolding ensure_entry_def find_pte_create_loop.simps [of s idx i ppn] Let_def by simp
  have last: "find_pte_create_loop s idx 2 ppn = Inr (pte_slot ppn (idx ! 2), s)"
    for s :: "'a pmem_scheme" and idx ppn
    unfolding find_pte_create_loop.simps [of s idx 2 ppn] by simp
  show ?thesis
    unfolding find_pte_create_def get_page_offset_idx Let_def
    by (simp add: step last [unfolded numeral_2_eq_2] numeral_2_eq_2)
qed

lemma ensure_entry_ext:
  assumes "pt_ok lo s root" "is \<in> tpaths" "length is \<le> 1" "tbl (mem s) root is = Some p" "i < 512"
    and "ensure_entry s (pte_slot p i) = Inr s'"
  shows "pt_ext lo root s s'" and "tbl (mem s') root is = Some p"
    and "tbl (mem s') root (is @ [i]) = Some (PageTableEntry_ppn (read64 (mem s') (pte_slot p i)))"
proof -
  have "pt_ext lo root s s' \<and> PageTableEntry_is_valid (read64 (mem s') (pte_slot p i))"
  proof (cases "PageTableEntry_is_valid (read64 (mem s) (pte_slot p i))")
    case True
    with assms show ?thesis by (simp add: ensure_entry_def pt_ext_refl)
  next
    case False
    with assms(6) obtain f s1 where al: "StackFrameAllocator_alloc s = Inr (f, s1)"
      and s': "s' = s1\<lparr>mem := write64 (mem s1) (pte_slot p i) (PageTableEntry_new f PTE_V)\<rparr>"
      by (auto simp: ensure_entry_def res_simps)
    have "PageTableEntry_is_valid (read64 (mem s') (pte_slot p i))"
      by (simp add: s' PageTableEntry_new_valid)
    with alloc_entry_ext [OF assms(1-5) False al s'] show ?thesis by simp
  qed
  then show "pt_ext lo root s s'" "tbl (mem s') root is = Some p"
    "tbl (mem s') root (is @ [i]) = Some (PageTableEntry_ppn (read64 (mem s') (pte_slot p i)))"
    using assms(2,4) by (auto simp: pt_ext_def tbl_snoc next_table_def)
qed

lemma find_pte_create_ext:
  assumes "pt_ok lo s (root_ppn pt)" and "find_pte_create s pt vpn = Inr (ptr, s')"
  obtains p where "pt_ext lo (root_ppn pt) s s'" "tbl (mem s') (root_ppn pt) (vpath vpn) = Some p"
    "ptr = pte_slot p (vidx2 vpn)"
proof -
  let ?r = "root_ppn pt"
  define p where "p t = PageTableEntry_ppn (read64 (mem t) (pte_slot ?r (vidx0 vpn)))" for t :: "'a pmem_scheme"
  obtain t where t: "ensure_entry s (pte_slot ?r (vidx0 vpn)) = Inr t"
    and u: "ensure_entry t (pte_slot (p t) (vidx1 vpn)) = Inr s'"
    and ptr: "ptr = pte_slot (PageTableEntry_ppn (read64 (mem s') (pte_slot (p t) (vidx1 vpn)))) (vidx2 vpn)"
    using assms(2) by (auto simp: find_pte_create_levels Let_def res_simps p_def)
  have 1: "pt_ext lo ?r s t" "tbl (mem t) ?r [vidx0 vpn] = Some (p t)"
    using ensure_entry_ext [OF assms(1), of "[]" ?r "vidx0 vpn" t] t vidx_less by (simp_all add: p_def)
  then have ok: "pt_ok lo t ?r" by (simp add: pt_ext_def)
  have path: "[vidx0 vpn] \<in> tpaths" by (simp add: tpaths_def vidx_less)
  note 2 = ensure_entry_ext [OF ok path _ 1(2) vidx_less(2) u, simplified]
  show thesis
    using that [of "PageTableEntry_ppn (read64 (mem s') (pte_slot (p t) (vidx1 vpn)))"]
      pt_ext_trans [OF 1(1) 2(1)] 2(3) ptr by (simp add: vpath_def)
qed

section \<open>Leaf entries\<close>

text \<open>A store into a leaf slot changes no table and, in the client's view, one page only.\<close>

lemma leaf_write:
  assumes wf: "pt_wf m root" and p: "tbl m root (vpath v) = Some p" and v: "v < 0x8000000"
    and m': "m' = write64 m (pte_slot p (vidx2 v)) e"
  shows "js \<in> tpaths \<Longrightarrow> tbl m' root js = tbl m root js"
    and "tables m' root = tables m root" and "pt_wf m' root"
    and "u < 0x8000000 \<Longrightarrow> pt_lookup m' root u =
      (if u = v then if PageTableEntry_is_valid e then Some e else None else pt_lookup m root u)"
    and "frame_of x \<noteq> p \<Longrightarrow> m' x = m x"
    and "pt_inner m root \<Longrightarrow> pt_inner m' root"
proof -
  have pin: "p \<in> tables m root" using tablesI [OF _ p] by simp
  have small: "q < 0x100000000000" if "q \<in> tables m root" for q using tables_small [OF wf that] .
  have rd: "read64 m' (pte_slot q k) = (if p = q \<and> vidx2 v = k then e else read64 m (pte_slot q k))"
    if "q \<in> tables m root" "k < 512" for q k
    using that pin small vidx_less(3) by (simp add: m' read_write_slot)
  have above: "read64 m' (pte_slot q k) = read64 m (pte_slot q k)"
    if ks: "ks \<in> tpaths" "length ks \<le> 1" "tbl m root ks = Some q" and k: "k < (512 :: u64)" for ks q k
  proof -
    have "ks \<noteq> vpath v" using ks(2) tpaths_vpath(2) [of v] by auto
    then have "q \<noteq> p" using pt_wf_inj [OF wf ks(1) _ ks(3), of "vpath v"] p by auto
    then show ?thesis using rd [OF tablesI [OF ks(1,3)] k] by simp
  qed
  have tbl': "tbl m' root js = tbl m root js" if "js \<in> tpaths" for js
    using that above by (rule tbl_cong)
  show "pt_inner m root \<Longrightarrow> pt_inner m' root" using tbl' above by (simp add: pt_inner_def)
  from tbl' show "js \<in> tpaths \<Longrightarrow> tbl m' root js = tbl m root js" .
  show "tables m' root = tables m root" using tbl' by (auto simp: tables_def)
  show "pt_wf m' root" using wf tbl' by (simp add: pt_wf_def)
  show "m' x = m x" if "frame_of x \<noteq> p"
    using that small [OF pin] vidx_less(3) by (simp add: m' write_slot_other_frame)
  assume u: "u < 0x8000000"
  show "pt_lookup m' root u =
      (if u = v then if PageTableEntry_is_valid e then Some e else None else pt_lookup m root u)"
  proof (cases "tbl m root (vpath u)")
    case None
    then have "u \<noteq> v" using p by auto
    with None show ?thesis by (simp add: pt_lookup_def tbl')
  next
    case (Some q)
    have same: "u = v" if "p = q" "vidx2 v = vidx2 u"
      using pt_wf_inj [OF wf _ _ p, of "vpath u"] Some that u v vidx_inject [of u v]
      by (auto simp: vpath_def tpaths_def vidx_less)
    have "read64 m' (pte_slot q (vidx2 u)) =
        (if u = v then e else read64 m (pte_slot q (vidx2 u)))"
      using rd [OF tablesI [OF _ Some] vidx_less(3)] same p Some by auto
    with Some show ?thesis by (simp add: pt_lookup_def tbl' Let_def)
  qed
qed

section \<open>Mapping one page\<close>

text \<open>
  What every change of a table tree by the kernel's mapping code keeps: the tree stays good,
  tables stay, bytes change in its own tables only, frames taken become its tables.
\<close>

definition pt_step :: "u64 \<Rightarrow> u64 \<Rightarrow> 'a pmem_scheme \<Rightarrow> 'a pmem_scheme \<Rightarrow> bool" where
  "pt_step lo root s s' \<longleftrightarrow>
     pt_ok lo s' root \<and>
     (\<forall>x. frame_of x \<notin> tables (mem s') root \<longrightarrow> mem s' x = mem s x) \<and>
     owned lo s \<subseteq> owned lo s' \<and>
     tables (mem s') root = tables (mem s) root \<union> (owned lo s' - owned lo s)"

lemma pt_step_refl: "pt_ok lo s root \<Longrightarrow> pt_step lo root s s"
  by (simp add: pt_step_def)

lemma pt_step_trans: "pt_step lo root s t \<Longrightarrow> pt_step lo root t u \<Longrightarrow> pt_step lo root s u"
  unfolding pt_step_def by (elim conjE, intro conjI) (assumption, simp, blast, blast)

lemma pt_ext_step: "pt_ext lo root s s' \<Longrightarrow> pt_step lo root s s'"
  by (simp add: pt_ext_def pt_step_def)

lemma map_per_page_result:
  assumes ok: "pt_ok lo s (root_ppn pt)" and v: "vpn < 0x8000000"
    and map: "PageTable_map_per_page s pt vpn ppn flags = Inr s'"
  shows "pt_step lo (root_ppn pt) s s'" and "pt_lookup (mem s) (root_ppn pt) vpn = None"
    and "u < 0x8000000 \<Longrightarrow> pt_lookup (mem s') (root_ppn pt) u =
      (if u = vpn then Some (PageTableEntry_new ppn (PTE_V OR flags))
       else pt_lookup (mem s) (root_ppn pt) u)"
proof -
  let ?r = "root_ppn pt" and ?e = "PageTableEntry_new ppn (PTE_V OR flags)"
  obtain ptr t where c: "find_pte_create s pt vpn = Inr (ptr, t)"
    and inval: "\<not> PageTableEntry_is_valid (read64 (mem t) ptr)"
    and s': "s' = t\<lparr>mem := write64 (mem t) ptr ?e\<rparr>"
    using map by (auto simp: PageTable_map_per_page_def res_simps split: if_splits)
  obtain p where ext: "pt_ext lo ?r s t" and p: "tbl (mem t) ?r (vpath vpn) = Some p"
    and ptr: "ptr = pte_slot p (vidx2 vpn)"
    by (rule find_pte_create_ext [OF ok c])
  have okt: "pt_ok lo t ?r" using ext by (simp add: pt_ext_def)
  then have wf: "pt_wf (mem t) ?r" by (simp add: pt_ok_def)
  have pin: "p \<in> tables (mem t) ?r" using tablesI [OF _ p] by simp
  note leaf = leaf_write [OF wf p v refl, where e = ?e]
  have valid: "PageTableEntry_is_valid ?e" by (simp add: PageTableEntry_new_valid bit_or_iff)
  have "pt_step lo ?r t s'"
    using okt leaf(2,3,6) pin
    by (auto simp: pt_step_def pt_ok_def s' ptr intro!: leaf(5))
  with pt_ext_step [OF ext] show "pt_step lo ?r s s'" by (rule pt_step_trans)
  have "pt_lookup (mem t) ?r vpn = None" using inval p ptr by (simp add: pt_lookup_def)
  then show "pt_lookup (mem s) ?r vpn = None" using ext by (simp add: pt_ext_def)
  show "pt_lookup (mem s') ?r u = (if u = vpn then Some ?e else pt_lookup (mem s) ?r u)"
    if "u < 0x8000000"
    using leaf(4) [OF that] valid ext by (simp add: s' ptr pt_ext_def)
qed

text \<open>A tree with no table in common with the changed one does not notice.\<close>

lemma tree_frame:
  assumes wf: "pt_wf m r" and same: "\<And>x. frame_of x \<in> tables m r \<Longrightarrow> m' x = m x"
  shows "js \<in> tpaths \<Longrightarrow> tbl m' r js = tbl m r js" and "tables m' r = tables m r" and "pt_wf m' r"
    and "pt_lookup m' r v = pt_lookup m r v" and "pt_inner m r \<Longrightarrow> pt_inner m' r"
proof -
  have rd: "read64 m' (pte_slot q k) = read64 m (pte_slot q k)"
    if "q \<in> tables m r" "k < 512" for q k
    unfolding read64_def
  proof (rule read_le_cong)
    fix i :: nat assume i: "i < 8"
    have "frame_of (pte_slot q k + word_of_nat i) = q"
      using frame_of_pte_slot [OF tables_small [OF wf that(1)] that(2) i] .
    then show "m' (pte_slot q k + word_of_nat i) = m (pte_slot q k + word_of_nat i)"
      using same that(1) by simp
  qed
  have tbl': "tbl m' r js = tbl m r js" if "js \<in> tpaths" for js
    using that by (rule tbl_cong) (rule rd, rule tablesI)
  then show "js \<in> tpaths \<Longrightarrow> tbl m' r js = tbl m r js" .
  show "tables m' r = tables m r" using tbl' by (auto simp: tables_def)
  show "pt_wf m' r" using wf tbl' by (simp add: pt_wf_def)
  show "pt_inner m r \<Longrightarrow> pt_inner m' r" using tbl' rd [OF tablesI] by (simp add: pt_inner_def)
  show "pt_lookup m' r v = pt_lookup m r v"
    using rd [OF tablesI [OF tpaths_vpath(1)] vidx_less(3), of v]
    by (simp add: pt_lookup_def tbl' split: option.splits)
qed

lemma pt_step_other:
  assumes step: "pt_step lo root s s'" and ok: "pt_ok lo s r"
    and apart: "tables (mem s) root \<inter> tables (mem s) r = {}"
  shows "pt_ok lo s' r" and "tables (mem s') r = tables (mem s) r"
    and "tables (mem s') root \<inter> tables (mem s') r = {}"
    and "pt_lookup (mem s') r v = pt_lookup (mem s) r v"
proof -
  have disj: "tables (mem s') root \<inter> tables (mem s) r = {}"
    using step ok apart by (auto simp: pt_step_def pt_ok_def)
  then have same: "mem s' x = mem s x" if "frame_of x \<in> tables (mem s) r" for x
    using step that by (auto simp: pt_step_def)
  have wf: "pt_wf (mem s) r" using ok by (simp add: pt_ok_def)
  note frame = tree_frame [OF wf same]
  show "pt_ok lo s' r" using step ok frame(2,3,5) by (auto simp: pt_step_def pt_ok_def)
  show "tables (mem s') r = tables (mem s) r" "pt_lookup (mem s') r v = pt_lookup (mem s) r v"
    using frame(2,4) by simp_all
  show "tables (mem s') root \<inter> tables (mem s') r = {}" using disj frame(2) by simp
qed

text \<open>When one more page can be mapped, and how mapping fails.\<close>

lemma ensure_entry_total:
  assumes "pool_inv lo s" and "0 < free_frames (memory_allocator s)"
  obtains s' where "ensure_entry s ptr = Inr s'"
    "free_frames (memory_allocator s) \<le> Suc (free_frames (memory_allocator s'))"
proof (cases "PageTableEntry_is_valid (read64 (mem s) ptr)")
  case False
  obtain f t where t: "StackFrameAllocator_alloc s = Inr (f, t)"
    "free_frames (memory_allocator s) = Suc (free_frames (memory_allocator t))"
    by (rule alloc_available [OF assms])
  let ?t = "t\<lparr>mem := write64 (mem t) ptr (PageTableEntry_new f PTE_V)\<rparr>"
  from False t show ?thesis by (intro that [of ?t]) (simp_all add: ensure_entry_def)
qed (intro that [of s], simp_all add: ensure_entry_def)

lemma ensure_entry_error: "ensure_entry s ptr = Inl e \<Longrightarrow> e = Panic ''memory is full''"
  by (auto simp: ensure_entry_def res_simps dest: alloc_error split: if_splits)

lemma find_pte_create_total:
  assumes ok: "pt_ok lo s (root_ppn pt)" and room: "2 \<le> free_frames (memory_allocator s)"
  obtains ptr s' where "find_pte_create s pt vpn = Inr (ptr, s')"
    "free_frames (memory_allocator s) \<le> free_frames (memory_allocator s') + 2"
proof -
  let ?r = "root_ppn pt" and ?n = "\<lambda>s. free_frames (memory_allocator s)"
  define p where "p s = PageTableEntry_ppn (read64 (mem s) (pte_slot ?r (vidx0 vpn)))" for s :: "'a pmem_scheme"
  have inv: "pool_inv lo s" using ok by (simp add: pt_ok_def)
  obtain t where t: "ensure_entry s (pte_slot ?r (vidx0 vpn)) = Inr t" and tn: "?n s \<le> Suc (?n t)"
    by (rule ensure_entry_total [OF inv]) (use room in simp)
  have "pt_ext lo ?r s t"
    using ensure_entry_ext(1) [OF ok, of "[]" ?r "vidx0 vpn" t] t vidx_less by simp
  then have "pool_inv lo t" by (simp add: pt_ext_def pt_ok_def)
  moreover have "0 < ?n t" using room tn by simp
  ultimately obtain u where u: "ensure_entry t (pte_slot (p t) (vidx1 vpn)) = Inr u" and un: "?n t \<le> Suc (?n u)"
    by (rule ensure_entry_total)
  show thesis
    by (rule that [of _ u], use t u in \<open>simp add: find_pte_create_levels p_def Let_def\<close>) (use tn un in simp)
qed

lemma map_per_page_total:
  assumes ok: "pt_ok lo s (root_ppn pt)" and free: "pt_lookup (mem s) (root_ppn pt) vpn = None"
    and room: "2 \<le> free_frames (memory_allocator s)"
  shows "\<exists>s'. PageTable_map_per_page s pt vpn ppn flags = Inr s' \<and>
    free_frames (memory_allocator s) \<le> free_frames (memory_allocator s') + 2"
proof -
  obtain ptr t where t: "find_pte_create s pt vpn = Inr (ptr, t)"
    and n: "free_frames (memory_allocator s) \<le> free_frames (memory_allocator t) + 2"
    by (rule find_pte_create_total [OF ok room])
  obtain p where ext: "pt_ext lo (root_ppn pt) s t" and p: "tbl (mem t) (root_ppn pt) (vpath vpn) = Some p"
    and ptr: "ptr = pte_slot p (vidx2 vpn)" by (rule find_pte_create_ext [OF ok t])
  have "pt_lookup (mem t) (root_ppn pt) vpn = None" using ext free by (simp add: pt_ext_def)
  with p ptr have "\<not> PageTableEntry_is_valid (read64 (mem t) ptr)"
    by (simp add: pt_lookup_def Let_def split: if_splits)
  with t n show ?thesis by (simp add: PageTable_map_per_page_def)
qed

lemma map_per_page_mapped:
  assumes "pt_lookup (mem s) (root_ppn pt) vpn \<noteq> None"
  shows "PageTable_map_per_page s pt vpn ppn flags =
    Inl (AssertionFailure ''!PageTableEntry_is_valid(*pte_ptr)'')"
  using assms
  by (auto simp: pt_lookup_def vpath_def next_table_def Let_def PageTable_map_per_page_def
      find_pte_create_levels ensure_entry_def split: option.splits if_splits)

lemma map_per_page_error:
  assumes ok: "pt_ok lo s (root_ppn pt)" and free: "pt_lookup (mem s) (root_ppn pt) vpn = None"
    and err: "PageTable_map_per_page s pt vpn ppn flags = Inl e"
  shows "e = Panic ''memory is full''"
proof (cases "find_pte_create s pt vpn")
  case (Inl e')
  then show ?thesis using err
    by (auto simp: PageTable_map_per_page_def find_pte_create_levels Let_def res_simps dest: ensure_entry_error)
next
  case (Inr x)
  obtain ptr t where t: "find_pte_create s pt vpn = Inr (ptr, t)" using Inr by (cases x) simp
  obtain p where ext: "pt_ext lo (root_ppn pt) s t" and p: "tbl (mem t) (root_ppn pt) (vpath vpn) = Some p"
    and ptr: "ptr = pte_slot p (vidx2 vpn)" by (rule find_pte_create_ext [OF ok t])
  have "pt_lookup (mem t) (root_ppn pt) vpn = None" using ext free by (simp add: pt_ext_def)
  with p ptr t err show ?thesis
    by (simp add: pt_lookup_def Let_def PageTable_map_per_page_def split: if_splits)
qed

end
