(* ===== verification/PageRange.thy ===== *)
theory PageRange
  imports PageMap
begin

text \<open>
  Mapping as the rest of the kernel uses it: \<^verbatim>\<open>PageTable_map_per_page\<close> and
  \<^verbatim>\<open>PageTable_map\<close> of \<^verbatim>\<open>os/src/address.c\<close> as updates of the client's map
  from virtual page numbers to entries, their failures, and \<^verbatim>\<open>PageTable_unmap\<close>. The
  locale \<open>page_mapper\<close> is the interface of an operation that maps one page; ranges are
  treated once inside it.
\<close>

section \<open>The interface of a page mapper\<close>

lemma foldE_map: "foldE f (map g xs) s = foldE (\<lambda>x. f (g x)) xs s"
  by (induction xs arbitrary: s) (auto intro: bindE_cong)

lemma foldE_upt_Suc: "foldE f [0..<Suc n] s = bindE (f 0 s) (foldE (\<lambda>i. f (Suc i)) [0..<n])"
proof -
  have "[0..<Suc n] = 0 # map Suc [0..<n]" by (simp add: upt_conv_Cons map_Suc_upt del: upt_Suc)
  then show ?thesis by (simp add: foldE_map del: upt_Suc cong: bindE_cong)
qed

locale page_mapper =
  fixes good :: "'s \<Rightarrow> bool"
    and look :: "'s \<Rightarrow> u64 \<Rightarrow> 'e option"
    and map1 :: "'s \<Rightarrow> u64 \<Rightarrow> u64 \<Rightarrow> 's res"
    and entry :: "u64 \<Rightarrow> 'e"
    and step :: "'s \<Rightarrow> 's \<Rightarrow> bool"
    and room :: "'s \<Rightarrow> nat"
  assumes step_refl: "good s \<Longrightarrow> step s s"
    and step_trans: "step s t \<Longrightarrow> step t r \<Longrightarrow> step s r"
    and step_good: "step s t \<Longrightarrow> good t"
    and map1_step: "good s \<Longrightarrow> v < 0x8000000 \<Longrightarrow> map1 s v p = Inr t \<Longrightarrow> step s t"
    and map1_free: "good s \<Longrightarrow> v < 0x8000000 \<Longrightarrow> map1 s v p = Inr t \<Longrightarrow> look s v = None"
    and map1_look: "good s \<Longrightarrow> v < 0x8000000 \<Longrightarrow> map1 s v p = Inr t \<Longrightarrow> u < 0x8000000 \<Longrightarrow>
      look t u = (if u = v then Some (entry p) else look s u)"
    and map1_total: "good s \<Longrightarrow> look s v = None \<Longrightarrow> 2 \<le> room s \<Longrightarrow>
      \<exists>t. map1 s v p = Inr t \<and> room s \<le> room t + 2"
begin

definition map_range :: "'s \<Rightarrow> u64 \<Rightarrow> u64 \<Rightarrow> nat \<Rightarrow> 's res" where
  "map_range s v p n = foldE (\<lambda>i s. map1 s (v + word_of_nat i) (p + word_of_nat i)) [0..<n] s"

lemma map_range_0 [simp]: "map_range s v p 0 = Inr s"
  by (simp add: map_range_def)

lemma map_range_Suc:
  "map_range s v p (Suc n) = bindE (map1 s v p) (\<lambda>s. map_range s (v + 1) (p + 1) n)"
  unfolding map_range_def by (simp only: foldE_upt_Suc) (simp add: add.assoc)

lemma map_range_step:
  assumes "good s" and "unat v + n \<le> 0x8000000" and "map_range s v p n = Inr t"
  shows "step s t"
  using assms
proof (induction n arbitrary: s v p)
  case 0
  then show ?case by (simp add: step_refl)
next
  case (Suc n)
  then obtain s1 where s1: "map1 s v p = Inr s1" and rest: "map_range s1 (v + 1) (p + 1) n = Inr t"
    by (auto simp: map_range_Suc res_simps)
  have v: "v < 0x8000000" using Suc.prems(2) by (simp add: word_less_nat_alt)
  then have suc: "unat (v + 1) = Suc (unat v)" by (rule unat_plus_one64)
  have "step s s1" using map1_step [OF Suc.prems(1) v s1] .
  moreover have "step s1 t"
    using Suc.IH [OF step_good [OF \<open>step s s1\<close>] _ rest] Suc.prems(2) suc by simp
  ultimately show ?case by (rule step_trans)
qed

lemma map_range_look:
  assumes "good s" and "unat v + n \<le> 0x8000000" and "map_range s v p n = Inr t" and "u < 0x8000000"
  shows "look t u = (if unat v \<le> unat u \<and> unat u < unat v + n
      then Some (entry (p + (u - v))) else look s u) \<and>
    (unat v \<le> unat u \<longrightarrow> unat u < unat v + n \<longrightarrow> look s u = None)"
  using assms
proof (induction n arbitrary: s v p)
  case 0
  then show ?case by auto
next
  case (Suc n)
  then obtain s1 where s1: "map1 s v p = Inr s1" and rest: "map_range s1 (v + 1) (p + 1) n = Inr t"
    by (auto simp: map_range_Suc res_simps)
  have v: "v < 0x8000000" using Suc.prems(2) by (simp add: word_less_nat_alt)
  then have suc: "unat (v + 1) = Suc (unat v)" by (rule unat_plus_one64)
  have good1: "good s1" using step_good [OF map1_step [OF Suc.prems(1) v s1]] .
  have bound: "unat (v + 1) + n \<le> 0x8000000" using Suc.prems(2) suc by simp
  have eq: "unat u = unat v \<longleftrightarrow> u = v" by (simp add: word_unat_eq_iff)
  have shift: "p + 1 + (u - (v + 1)) = p + (u - v)" by simp
  show ?case
    using Suc.IH [OF good1 bound rest assms(4)] eq suc shift
      map1_look [OF Suc.prems(1) v s1 assms(4)] map1_free [OF Suc.prems(1) v s1]
    by (cases "u = v") (auto split: if_splits)
qed

lemma map_range_total:
  assumes "good s" and "unat v + n \<le> 0x8000000" and "2 * n \<le> room s"
    and "\<And>u. unat v \<le> unat u \<Longrightarrow> unat u < unat v + n \<Longrightarrow> look s u = None"
  shows "\<exists>t. map_range s v p n = Inr t"
  using assms
proof (induction n arbitrary: s v p)
  case 0
  then show ?case by simp
next
  case (Suc n)
  obtain s1 where s1: "map1 s v p = Inr s1" and room: "room s \<le> room s1 + 2"
    using map1_total [of s v p] Suc.prems(1,3) Suc.prems(4) [of v] by auto
  have v: "v < 0x8000000" using Suc.prems(2) by (simp add: word_less_nat_alt)
  then have suc: "unat (v + 1) = Suc (unat v)" by (rule unat_plus_one64)
  have good1: "good s1" using step_good [OF map1_step [OF Suc.prems(1) v s1]] .
  have "look s1 u = None" if "unat (v + 1) \<le> unat u" "unat u < unat (v + 1) + n" for u
    using that suc Suc.prems(2,4) map1_look [OF Suc.prems(1) v s1, of u]
    by (auto simp: word_less_nat_alt)
  then have "\<exists>t. map_range s1 (v + 1) (p + 1) n = Inr t"
    using good1 Suc.prems(2,3) suc room by (intro Suc.IH) auto
  with s1 show ?case by (simp add: map_range_Suc)
qed

end

section \<open>The kernel's page mapper\<close>

interpretation kmap: page_mapper
  "\<lambda>s :: 'a pmem_scheme. pt_ok lo s (root_ppn pt)"
  "\<lambda>s. pt_lookup (mem s) (root_ppn pt)"
  "\<lambda>s v p. PageTable_map_per_page s pt v p flags"
  "\<lambda>p. PageTableEntry_new p (PTE_V OR flags)"
  "pt_step lo (root_ppn pt)"
  "\<lambda>s. free_frames (memory_allocator s)"
  for lo pt flags
proof unfold_locales
  fix s t :: "'a pmem_scheme"
  show "pt_step lo (root_ppn pt) s t \<Longrightarrow> pt_ok lo t (root_ppn pt)" by (simp add: pt_step_def)
qed (rule pt_step_refl pt_step_trans map_per_page_result map_per_page_total; assumption)+

text \<open>The \<^verbatim>\<open>do ... while\<close> loop maps every page up to the last one, in order.\<close>

lemma map_loop_range:
  assumes "vpn \<le> lim div 4096"
  shows "PageTable_map_loop s pt vpn ppn lim flags =
    kmap.map_range pt flags s vpn ppn (Suc (unat (lim div 4096 - vpn)))"
  using assms
proof (induction s pt vpn ppn lim flags rule: PageTable_map_loop.induct)
  case (1 s pt vpn ppn lim flags)
  have lim: "unat (lim div 4096) < 2 ^ 52"
    using unat_less64 [of lim] by (simp add: unat_div_distrib)
  have unfolded: "PageTable_map_loop s pt vpn ppn lim flags =
     bindE (PageTable_map_per_page s pt vpn ppn flags) (\<lambda>s.
       if vpn + 1 \<le> lim div 4096
       then kmap.map_range pt flags s (vpn + 1) (ppn + 1) (Suc (unat (lim div 4096 - (vpn + 1))))
       else Inr s)"
    by (subst PageTable_map_loop.simps) (auto intro!: bindE_cong 1(1))
  show ?case
  proof (cases "lim div 4096 = vpn")
    case True
    then have "\<not> vpn + 1 \<le> lim div 4096" using lim by (simp add: word_le_nat_alt unat_plus_if')
    with True show ?thesis
      by (simp add: unfolded kmap.map_range_Suc)
  next
    case False
    then have "vpn + 1 \<le> lim div 4096" using 1(2) by (simp add: inc_le order_less_le)
    with unat_diff_Suc [OF False] show ?thesis
      by (simp add: unfolded kmap.map_range_Suc)
  qed
qed

lemma PageTable_map_range:
  assumes "0 < sz" and "unat va + unat sz \<le> 0x8000000000"
  shows "PageTable_map s pt va pa sz flags = kmap.map_range pt flags s (va div 4096) (floor_phys pa)
      (Suc ((unat va + unat sz - 1) div 4096 - unat va div 4096))"
    and "unat va div 4096 \<le> (unat va + unat sz - 1) div 4096"
    and "(unat va + unat sz - 1) div 4096 < 0x8000000"
proof -
  have sz: "sz \<noteq> 0" "unat sz \<noteq> 0" using assms(1) by (auto simp: unat_eq_0)
  have lim: "unat (va + sz - 1) = unat va + unat sz - 1"
    using assms sz by (simp add: unat_plus_if' unat_sub_if')
  show le: "unat va div 4096 \<le> (unat va + unat sz - 1) div 4096"
    using sz by (intro div_le_mono) simp
  show "(unat va + unat sz - 1) div 4096 < 0x8000000" using assms(2) by (simp add: div_less_iff_less_mult)
  have vpn: "floor_virts va = va div 4096"
    using assms(2) by (simp add: floor_virts_def)
  have "va div 4096 \<le> (va + sz - 1) div 4096"
    using le lim by (simp add: word_le_nat_alt unat_div_distrib)
  moreover from this have "unat ((va + sz - 1) div 4096 - va div 4096) =
      (unat va + unat sz - 1) div 4096 - unat va div 4096"
    using lim by (simp add: unat_sub unat_div_distrib)
  ultimately show "PageTable_map s pt va pa sz flags =
      kmap.map_range pt flags s (va div 4096) (floor_phys pa)
      (Suc ((unat va + unat sz - 1) div 4096 - unat va div 4096))"
    using sz vpn by (simp add: PageTable_map_def map_loop_range)
qed

section \<open>Properties\<close>

text \<open>
  Mapping one page is an update of the page table's map from virtual page numbers to
  entries: the page was not mapped, it now has the entry made of the frame and the flags with
  the valid bit, and every other page of the address space has the entry it had. The table
  tree stays well formed and made of frames the allocator handed out, memory changes only
  inside the frames of this tree, and the frames taken from the allocator are tables of it.
\<close>

lemma map_per_page_update:
  assumes "pt_ok lo s (root_ppn pt)" and "vpn < 0x8000000"
    and "PageTable_map_per_page s pt vpn ppn flags = Inr s'"
  shows "pt_ok lo s' (root_ppn pt) \<and> pt_lookup (mem s) (root_ppn pt) vpn = None \<and>
    (\<forall>u < 0x8000000. pt_lookup (mem s') (root_ppn pt) u =
      (if u = vpn then Some (PageTableEntry_new ppn (PTE_V OR flags))
       else pt_lookup (mem s) (root_ppn pt) u)) \<and>
    (\<forall>x. frame_of x \<notin> tables (mem s') (root_ppn pt) \<longrightarrow> mem s' x = mem s x) \<and>
    owned lo s \<subseteq> owned lo s' \<and>
    tables (mem s') (root_ppn pt) = tables (mem s) (root_ppn pt) \<union> (owned lo s' - owned lo s)"
  using map_per_page_result [OF assms] by (simp add: pt_step_def)

text \<open>A machine with one allocated, empty root table.\<close>

definition sample_ptmem :: pmem where
  "sample_ptmem = \<lparr>mem = (\<lambda>_. 0), memory_allocator =
     \<lparr>current_ppn = 0x80401, end_ppn = 0x80800, recycled = empty_stack\<rparr>, console = []\<rparr>"

lemma zero_memory_lookup: "tbl (\<lambda>_. 0) r is = (if is = [] then Some r else None)"
  "pt_lookup (\<lambda>_. 0) r v = None" "pt_inner (\<lambda>_. 0) r"
proof -
  have "read64 (\<lambda>_. 0) a = 0" for a
    by (rule bit_eqI) (simp add: read64_def bit_read_le)
  then have zero: "read64 (\<lambda>_. 0) = (\<lambda>_. 0)" by auto
  then have none: "next_table (\<lambda>_. 0) q i = None" for q i by (simp add: next_table_def)
  show "pt_inner (\<lambda>_. 0) r" by (simp add: pt_inner_def zero)
  show "tbl (\<lambda>_. 0) r is = (if is = [] then Some r else None)" using none by (cases "is") simp_all
  show "pt_lookup (\<lambda>_. 0) r v = None" by (simp add: pt_lookup_def vpath_def none)
qed

lemma sample_ptmem_ok: "pt_ok 0x80400 sample_ptmem 0x80400"
  by (auto simp: pt_ok_def pt_wf_def sample_ptmem_def zero_memory_lookup tables_def allocator_inv_def
      allocated_def stack_wf_def stack_items_def empty_stack_def MAX_SIZE_def split: if_splits)

lemma sample_ptmem_room:
  "pt_lookup (mem sample_ptmem) r v = None" "free_frames (memory_allocator sample_ptmem) = 1023"
  by (simp_all add: sample_ptmem_def zero_memory_lookup free_frames_def empty_stack_def)

text \<open>
  The ways in which mapping one page can go. A page that is mapped already stops the
  kernel at the assertion. Otherwise the page is mapped whenever two frames are left for new
  tables, and the only failure is the allocator's panic.
\<close>

lemma map_per_page_failures:
  assumes "pt_ok lo s (root_ppn pt)"
  shows "if pt_lookup (mem s) (root_ppn pt) vpn \<noteq> None
    then PageTable_map_per_page s pt vpn ppn flags =
      Inl (AssertionFailure ''!PageTableEntry_is_valid(*pte_ptr)'')
    else (case PageTable_map_per_page s pt vpn ppn flags of
        Inl e \<Rightarrow> e = Panic ''memory is full'' \<and> free_frames (memory_allocator s) < 2
      | Inr s' \<Rightarrow> True)"
  using map_per_page_mapped [of s pt vpn] map_per_page_error [OF assms]
    map_per_page_total [OF assms, of vpn ppn flags]
  by (fastforce split: sum.splits)

text \<open>
  C3: \<^verbatim>\<open>PageTable_map\<close> maps exactly the pages that the bytes from \<open>va\<close> to
  \<open>va + sz - 1\<close> touch, in the lower half of the address space, each to the frame at the
  same distance from the frame of \<open>pa\<close>; every other page keeps its entry. It returns
  when none of these pages was mapped and two frames per page are left, and when it returns
  none of them was mapped.
\<close>

theorem PageTable_map_update:
  assumes "pt_ok lo s (root_ppn pt)" and "0 < sz" and "unat va + unat sz \<le> 0x8000000000"
  defines "inside u \<equiv> unat va div 4096 \<le> unat u \<and> unat u \<le> (unat va + unat sz - 1) div 4096"
  shows "(\<forall>s'. PageTable_map s pt va pa sz flags = Inr s' \<longrightarrow>
      pt_step lo (root_ppn pt) s s' \<and>
      (\<forall>u < 0x8000000. (inside u \<longrightarrow> pt_lookup (mem s) (root_ppn pt) u = None) \<and>
        pt_lookup (mem s') (root_ppn pt) u =
        (if inside u then Some (PageTableEntry_new (floor_phys pa + (u - floor_virts va)) (PTE_V OR flags))
         else pt_lookup (mem s) (root_ppn pt) u))) \<and>
    ((\<forall>u. inside u \<longrightarrow> pt_lookup (mem s) (root_ppn pt) u = None) \<longrightarrow>
      2 * Suc ((unat va + unat sz - 1) div 4096 - unat va div 4096) \<le> free_frames (memory_allocator s) \<longrightarrow>
      (\<exists>s'. PageTable_map s pt va pa sz flags = Inr s'))"
proof -
  let ?n = "Suc ((unat va + unat sz - 1) div 4096 - unat va div 4096)"
  note range = PageTable_map_range [OF assms(2,3)]
  have vpn: "unat (va div 4096) = unat va div 4096" "floor_virts va = va div 4096"
    by (simp_all add: unat_div_distrib floor_virts_def)
  have bound: "unat (va div 4096) + ?n \<le> 0x8000000" using range(2,3) vpn by simp
  have inside: "unat (va div 4096) \<le> unat u \<and> unat u < unat (va div 4096) + ?n \<longleftrightarrow> inside u" for u :: u64
    using range(2) vpn by (auto simp: inside_def)
  note look = kmap.map_range_look [OF assms(1) bound, unfolded inside]
  have "\<exists>s'. kmap.map_range pt flags s (va div 4096) (floor_phys pa) ?n = Inr s'"
    if "\<forall>u. inside u \<longrightarrow> pt_lookup (mem s) (root_ppn pt) u = None"
      "2 * ?n \<le> free_frames (memory_allocator s)"
    using that inside by (intro kmap.map_range_total [OF assms(1) bound]) auto
  then show ?thesis
    using kmap.map_range_step [OF assms(1) bound] look inside unfolding range(1) vpn(2) by blast
qed

theorem PageTable_map_update_witness:
  "\<exists>s'. PageTable_map sample_ptmem \<lparr>root_ppn = 0x80400\<rparr> 0x10F00 0x80500000 0x200 PTE_R = Inr s' \<and>
     pt_lookup (mem s') 0x80400 0x11 = Some (PageTableEntry_new 0x80501 (PTE_V OR PTE_R)) \<and>
     pt_lookup (mem s') 0x80400 0x12 = None"
proof -
  let ?pt = "\<lparr>root_ppn = 0x80400\<rparr>"
  have ok: "pt_ok 0x80400 sample_ptmem (root_ppn ?pt)" "0 < (0x200 :: u64)"
    "unat (0x10F00 :: u64) + unat (0x200 :: u64) \<le> 0x8000000000"
    using sample_ptmem_ok by simp_all
  note map = PageTable_map_update [OF ok, of "0x80500000" PTE_R]
  obtain s' where s': "PageTable_map sample_ptmem ?pt 0x10F00 0x80500000 0x200 PTE_R = Inr s'"
    using map [THEN conjunct2] by (simp add: sample_ptmem_room) blast
  note look = map [THEN conjunct1, rule_format, OF s', THEN conjunct2, rule_format, THEN conjunct2]
  show ?thesis
    using s' look [of "0x11"] look [of "0x12"]
    by (simp add: floor_phys_def floor_virts_def sample_ptmem_room)
qed

text \<open>
  Page tables are isolated from each other: mapping a range in one table tree leaves
  the entries of every other tree, and its good state, untouched, and the two trees still
  share no table afterwards.
\<close>

lemma PageTable_map_isolation:
  assumes "pt_ok lo s (root_ppn pt)" and "pt_ok lo s other"
    and "tables (mem s) (root_ppn pt) \<inter> tables (mem s) other = {}"
    and "0 < sz" and "unat va + unat sz \<le> 0x8000000000"
    and "PageTable_map s pt va pa sz flags = Inr s'"
  shows "pt_ok lo s' other \<and> tables (mem s') (root_ppn pt) \<inter> tables (mem s') other = {} \<and>
    (\<forall>vpn. pt_lookup (mem s') other vpn = pt_lookup (mem s) other vpn)"
proof -
  have "unat (va div 4096) + Suc ((unat va + unat sz - 1) div 4096 - unat va div 4096) \<le> 0x8000000"
    using PageTable_map_range(2,3) [OF assms(4,5)] by (simp add: unat_div_distrib)
  from kmap.map_range_step [OF assms(1) this] assms(6)
  have "pt_step lo (root_ppn pt) s s'" by (simp add: PageTable_map_range(1) [OF assms(4,5)])
  from pt_step_other [OF this assms(2,3)] show ?thesis by simp
qed

text \<open>A machine with two empty root tables.\<close>

definition sample_two_roots :: pmem where
  "sample_two_roots = sample_ptmem\<lparr>memory_allocator :=
     \<lparr>current_ppn = 0x80402, end_ppn = 0x80800, recycled = empty_stack\<rparr>\<rparr>"

lemma sample_two_roots_ok:
  "pt_ok 0x80400 sample_two_roots 0x80400" "pt_ok 0x80400 sample_two_roots 0x80401"
  "tables (mem sample_two_roots) 0x80400 \<inter> tables (mem sample_two_roots) 0x80401 = {}"
  "pt_lookup (mem sample_two_roots) r v = None" "free_frames (memory_allocator sample_two_roots) = 1022"
  by (auto simp: pt_ok_def pt_wf_def sample_two_roots_def sample_ptmem_def zero_memory_lookup tables_def
      allocator_inv_def allocated_def stack_wf_def stack_items_def empty_stack_def MAX_SIZE_def free_frames_def
      split: if_splits)

text \<open>
  C22: \<^verbatim>\<open>PageTable_unmap\<close> never unmaps anything. It asserts that the entry it found is
  not valid, while \<^verbatim>\<open>find_pte\<close> returns valid entries only: on a mapped page the
  assertion stops the kernel, on any other page the \<^verbatim>\<open>NULL\<close> result is dereferenced.
\<close>

theorem PageTable_unmap_never:
  "PageTable_unmap s pt vpn =
     (case pt_lookup (mem s) (root_ppn pt) vpn of
        None \<Rightarrow> Inl NullDeref
      | Some _ \<Rightarrow> Inl (AssertionFailure ''!PageTableEntry_is_valid(*pte_ptr)''))"
  by (auto simp: PageTable_unmap_def find_pte_tbl pt_lookup_def Let_def split: option.splits)

end
