(* ===== verification/PageFree.thy ===== *)
theory PageFree
  imports PageRange
begin

text \<open>
  Giving memory back: \<^verbatim>\<open>page_unmap_free\<close>, \<^verbatim>\<open>free_page_table\<close>,
  \<^verbatim>\<open>exec_free_lowhalf\<close> and \<^verbatim>\<open>free_proc_memory\<close> of
  \<^verbatim>\<open>os/src/address.c\<close>. The lemmas show that clearing a range of pages is a
  restriction of the client's map, that the recursion over a cleared table tree ends within
  three levels and returns every table of the tree to the allocator exactly once, and that
  releasing a process returns all its tables and all its data frames.
\<close>

section \<open>What a release does to the pool\<close>

definition recycle_room :: "'a pmem_scheme \<Rightarrow> nat" where
  "recycle_room s = nat MAX_SIZE - length (stack_items (recycled (memory_allocator s)))"

text \<open>
  The frames of \<open>F\<close> went back: nothing outside \<open>F\<close> changed hands, and as long as
  the recycling stack has room for all of \<open>F\<close>, all of it can be handed out again.
\<close>

definition released :: "u64 \<Rightarrow> u64 set \<Rightarrow> 'a pmem_scheme \<Rightarrow> 'a pmem_scheme \<Rightarrow> bool" where
  "released lo F s s' \<longleftrightarrow> pool_inv lo s' \<and> owned lo s - F \<subseteq> owned lo s' \<and> owned lo s' \<subseteq> owned lo s \<and>
     (card F \<le> recycle_room s \<longrightarrow>
        owned lo s' = owned lo s - F \<and> recycle_room s = recycle_room s' + card F)"

lemma released_empty: "pool_inv lo s \<Longrightarrow> released lo {} s s"
  by (simp add: released_def)

lemma released_mem [simp]:
  "released lo F (s\<lparr>mem := m\<rparr>) s' = released lo F s s'"
  "released lo F s (s'\<lparr>mem := m\<rparr>) = released lo F s s'"
  by (simp_all add: released_def recycle_room_def)

lemma released_trans:
  assumes st: "released lo F s t" and tu: "released lo G t u" and disj: "F \<inter> G = {}"
    and fin: "finite F" "finite G"
  shows "released lo (F \<union> G) s u"
proof -
  have card: "card (F \<union> G) = card F + card G" using fin disj by (rule card_Un_disjoint)
  have "owned lo u = owned lo s - (F \<union> G) \<and> recycle_room s = recycle_room u + card (F \<union> G)"
    if "card (F \<union> G) \<le> recycle_room s"
  proof -
    have "owned lo t = owned lo s - F" "recycle_room s = recycle_room t + card F"
      using st that card by (simp_all add: released_def)
    moreover from this have "owned lo u = owned lo t - G" "recycle_room t = recycle_room u + card G"
      using tu that card by (simp_all add: released_def)
    ultimately show ?thesis using card by auto
  qed
  moreover have "owned lo s - (F \<union> G) \<subseteq> owned lo u" "owned lo u \<subseteq> owned lo s" "pool_inv lo u"
    using st tu by (auto simp: released_def)
  ultimately show ?thesis by (simp add: released_def)
qed

lemma kfree_released:
  assumes "pool_inv lo s" and "p \<in> owned lo s"
  obtains s' where "kfree s p = Inr s'" "released lo {p} s s'" "mem s' = mem s"
proof -
  obtain s' where s': "StackFrameAllocator_dealloc s p = Inr s'" "pool_inv lo s'" "mem s' = mem s"
    "owned lo s' = (if isFull (recycled (memory_allocator s)) then owned lo s else owned lo s - {p})"
    "recycled (memory_allocator s') = snd (push (recycled (memory_allocator s)) p)"
    by (rule dealloc_result [OF assms])
  let ?r = "recycled (memory_allocator s)"
  have wf: "stack_wf ?r" using assms(1) by (simp add: allocator_inv_def)
  have "\<not> isFull ?r \<and> recycle_room s = recycle_room s' + 1" if "1 \<le> recycle_room s"
    using that wf s'(5)
    by (auto simp: recycle_room_def isFull_def push_def stack_wf_def MAX_SIZE_def Let_def)
  then have "released lo {p} s s'" using s'(2,4) by (auto simp: released_def)
  with s'(1,3) show thesis by (intro that [of s']) (simp_all add: kfree_def)
qed

section \<open>Unmapping a range\<close>

definition entry_frame :: "PageTableEntry \<Rightarrow> PhysPageNum" where
  "entry_frame e = floor_phys (phys_addr_from_size_t (PTE_PA e))"

definition mapped :: "memory \<Rightarrow> u64 \<Rightarrow> u64 set \<Rightarrow> u64 set" where
  "mapped m r V = {u \<in> V. pt_lookup m r u \<noteq> None}"

definition frame_at :: "memory \<Rightarrow> u64 \<Rightarrow> u64 \<Rightarrow> u64" where
  "frame_at m r u = entry_frame (the (pt_lookup m r u))"

definition frames :: "memory \<Rightarrow> u64 \<Rightarrow> u64 set \<Rightarrow> u64 set" where
  "frames m r V = frame_at m r ` mapped m r V"

lemma frames_Un: "frames m r (V \<union> W) = frames m r V \<union> frames m r W"
  by (auto simp: frames_def mapped_def)

lemma frames_finite [simp]: "finite V \<Longrightarrow> finite (frames m r V)"
  by (simp add: frames_def mapped_def)

lemma frames_cong:
  assumes "\<And>u. u \<in> V \<Longrightarrow> pt_lookup m' r u = pt_lookup m r u"
  shows "frames m' r V = frames m r V" and "mapped m' r V = mapped m r V"
    and "inj_on (frame_at m' r) (mapped m' r V) = inj_on (frame_at m r) (mapped m r V)"
proof -
  show *: "mapped m' r V = mapped m r V" using assms by (auto simp: mapped_def)
  have frame: "frame_at m' r u = frame_at m r u" if "u \<in> mapped m r V" for u
    using assms that by (simp add: frame_at_def mapped_def)
  then show "frames m' r V = frames m r V" unfolding frames_def * by (rule image_cong [OF refl])
  show "inj_on (frame_at m' r) (mapped m' r V) = inj_on (frame_at m r) (mapped m r V)"
    unfolding * by (rule inj_on_cong) (rule frame)
qed

definition unmap_one :: "'a pmem_scheme \<Rightarrow> PageTable \<Rightarrow> VirtPageNum \<Rightarrow> bool \<Rightarrow> 'a pmem_scheme res" where
  "unmap_one s pt i free =
     (case find_pte (mem s) pt (virt_page_num_from_size_t i) of
        None \<Rightarrow> Inr s
      | Some pte \<Rightarrow> bindE (if free then kfree s (entry_frame (read64 (mem s) pte)) else Inr s)
          (\<lambda>s. Inr (s\<lparr>mem := write64 (mem s) pte PageTableEntry_empty\<rparr>)))"

lemma unmap_loop_step:
  "page_unmap_free_loop s pt i lim free =
     (if i < lim then bindE (unmap_one s pt i free) (\<lambda>s. page_unmap_free_loop s pt (i + 1) lim free)
      else Inr s)"
  unfolding page_unmap_free_loop.simps [of s pt i lim free] unmap_one_def entry_frame_def Let_def ..

text \<open>What unmapping keeps of the tree, its tables included.\<close>

definition unmapped :: "u64 \<Rightarrow> u64 \<Rightarrow> u64 set \<Rightarrow> 'a pmem_scheme \<Rightarrow> 'a pmem_scheme \<Rightarrow> bool" where
  "unmapped lo root V s s' \<longleftrightarrow> pt_ok lo s' root \<and> tables (mem s') root = tables (mem s) root \<and>
     (\<forall>u < 0x8000000. pt_lookup (mem s') root u = (if u \<in> V then None else pt_lookup (mem s) root u)) \<and>
     (\<forall>x. frame_of x \<notin> tables (mem s) root \<longrightarrow> mem s' x = mem s x)"

lemma unmap_one_result:
  assumes ok: "pt_ok lo s (root_ppn pt)" and v: "v < 0x8000000"
    and F: "free \<Longrightarrow> frames (mem s) (root_ppn pt) {v}
      \<subseteq> owned lo s - tables (mem s) (root_ppn pt)"
  obtains s' where "unmap_one s pt v free = Inr s'" "unmapped lo (root_ppn pt) {v} s s'"
    "released lo (if free then frames (mem s) (root_ppn pt) {v} else {}) s s'"
proof -
  let ?r = "root_ppn pt"
  have inv: "pool_inv lo s" and wf: "pt_wf (mem s) ?r" using ok by (simp_all add: pt_ok_def)
  have id: "virt_page_num_from_size_t v = v" using v by (simp add: addr_simps take_bit_id64)
  show thesis
  proof (cases "find_pte (mem s) pt v")
    case None
    then have none: "pt_lookup (mem s) ?r v = None" using find_pte_lookup [of "mem s" pt v] by simp
    then have "frames (mem s) ?r {v} = {}" by (simp add: frames_def mapped_def)
    moreover have "unmapped lo ?r {v} s s" using ok none by (auto simp: unmapped_def)
    ultimately show ?thesis
      using None id inv by (intro that [of s]) (simp_all add: unmap_one_def released_empty)
  next
    case (Some pte)
    then obtain p where p: "tbl (mem s) ?r (vpath v) = Some p" and pte: "pte = pte_slot p (vidx2 v)"
      and e: "pt_lookup (mem s) ?r v = Some (read64 (mem s) pte)"
      by (auto simp: find_pte_tbl pt_lookup_def Let_def split: option.splits if_splits)
    let ?f = "entry_frame (read64 (mem s) pte)"
    have F_eq: "frames (mem s) ?r {v} = {?f}"
      using e by (auto simp: frames_def mapped_def frame_at_def)
    note leaf = leaf_write [OF wf p v refl, where e = PageTableEntry_empty]
    have un: "unmapped lo ?r {v} s (t\<lparr>mem := write64 (mem s) pte PageTableEntry_empty\<rparr>)"
      if "pool_inv lo t" "tables (mem s) ?r \<subseteq> owned lo t" for t :: "'a pmem_scheme"
    proof -
      have "frame_of x \<noteq> p" if "frame_of x \<notin> tables (mem s) ?r" for x
        using that tablesI [OF tpaths_vpath(1) p] by auto
      then show ?thesis using that ok leaf(2-) by (simp add: unmapped_def pt_ok_def pte)
    qed
    show ?thesis
    proof (cases free)
      case True
      have "?f \<in> owned lo s" "?f \<notin> tables (mem s) ?r" using F [OF True] F_eq by auto
      moreover obtain t where t: "kfree s ?f = Inr t" "released lo {?f} s t" "mem t = mem s"
        by (rule kfree_released [OF inv \<open>?f \<in> owned lo s\<close>])
      ultimately have "pool_inv lo t" "tables (mem s) ?r \<subseteq> owned lo t"
        using ok by (auto simp: released_def pt_ok_def)
      from un [OF this] t True Some id F_eq show ?thesis
        by (intro that [of "t\<lparr>mem := write64 (mem s) pte PageTableEntry_empty\<rparr>"])
          (simp_all add: unmap_one_def)
    next
      case False
      with un [of s] ok Some id inv show ?thesis
        by (intro that [of "s\<lparr>mem := write64 (mem s) pte PageTableEntry_empty\<rparr>"])
          (simp_all add: unmap_one_def pt_ok_def released_empty)
    qed
  qed
qed

lemma unmapped_trans:
  assumes "unmapped lo root V s t" and "unmapped lo root W t u"
  shows "unmapped lo root (V \<union> W) s u"
  using assms by (simp add: unmapped_def)

text \<open>The pages of a range, and what their frames must be so that they can be released.\<close>

definition vrange :: "u64 \<Rightarrow> nat \<Rightarrow> u64 set" where
  "vrange v n = {u. unat v \<le> unat u \<and> unat u < unat v + n}"

lemma vrange_Suc: "v < 0x8000000 \<Longrightarrow> vrange v (Suc n) = insert v (vrange (v + 1) n)"
  by (auto simp: vrange_def unat_plus_one64 word_unat_eq_iff)

lemma vrange_not_in: "v < 0x8000000 \<Longrightarrow> v \<notin> vrange (v + 1) n"
  by (simp add: vrange_def unat_plus_one64)

lemma finite_vrange [simp]: "finite (vrange v n)"
  by (rule finite_subset [of _ UNIV]) simp_all

definition releasable :: "u64 \<Rightarrow> 'a pmem_scheme \<Rightarrow> u64 \<Rightarrow> u64 set \<Rightarrow> bool" where
  "releasable lo s root V \<longleftrightarrow> inj_on (frame_at (mem s) root) (mapped (mem s) root V) \<and>
     frames (mem s) root V \<subseteq> owned lo s - tables (mem s) root"

lemma releasable_insert:
  assumes "releasable lo s r (insert v W)" and "v \<notin> W"
  shows "releasable lo s r {v}" and "releasable lo s r W" and "frames (mem s) r {v} \<inter> frames (mem s) r W = {}"
proof -
  have ins: "mapped (mem s) r (insert v W) = mapped (mem s) r {v} \<union> mapped (mem s) r W"
    by (auto simp: mapped_def)
  have inj: "inj_on (frame_at (mem s) r) (mapped (mem s) r {v} \<union> mapped (mem s) r W)"
    and sub: "frames (mem s) r {v} \<union> frames (mem s) r W \<subseteq> owned lo s - tables (mem s) r"
    using assms(1) frames_Un [of "mem s" r "{v}" W] unfolding releasable_def ins by simp_all
  show "releasable lo s r {v}" "releasable lo s r W"
    using inj sub by (simp_all add: releasable_def inj_on_Un)
  show "frames (mem s) r {v} \<inter> frames (mem s) r W = {}"
    using inj assms(2) unfolding frames_def inj_on_Un by (auto simp: mapped_def)
qed

lemma releasable_after:
  assumes rel: "releasable lo s r W" and un: "unmapped lo r V s t" and fr: "released lo F s t"
    and disj: "F \<inter> frames (mem s) r W = {}" "V \<inter> W = {}" and small: "\<And>u. u \<in> W \<Longrightarrow> u < 0x8000000"
  shows "releasable lo t r W" and "frames (mem t) r W = frames (mem s) r W"
proof -
  have look: "pt_lookup (mem t) r u = pt_lookup (mem s) r u" if "u \<in> W" for u
    using un small [OF that] that disj(2) by (auto simp: unmapped_def)
  note cong = frames_cong [of W "mem t" r "mem s", OF look]
  show "frames (mem t) r W = frames (mem s) r W" by (rule cong(1))
  have "tables (mem t) r = tables (mem s) r" "owned lo s - F \<subseteq> owned lo t"
    using un fr by (simp_all add: unmapped_def released_def)
  moreover have "inj_on (frame_at (mem s) r) (mapped (mem s) r W)"
    "frames (mem s) r W \<subseteq> owned lo s - tables (mem s) r"
    using rel by (simp_all add: releasable_def)
  ultimately show "releasable lo t r W" using disj(1) cong unfolding releasable_def by blast
qed

lemma page_unmap_free_loop_result:
  assumes "pt_ok lo s (root_ppn pt)" and "unat v + n \<le> 0x8000000" and "lim = v + word_of_nat n"
    and "free \<Longrightarrow> releasable lo s (root_ppn pt) (vrange v n)"
  shows "\<exists>s'. page_unmap_free_loop s pt v lim free = Inr s' \<and> unmapped lo (root_ppn pt) (vrange v n) s s' \<and>
    released lo (if free then frames (mem s) (root_ppn pt) (vrange v n) else {}) s s'"
  using assms
proof (induction n arbitrary: s v)
  case 0
  then have "vrange v 0 = {}" by (auto simp: vrange_def)
  with 0 show ?case
    by (simp add: unmap_loop_step [of s pt v] unmapped_def frames_def mapped_def pt_ok_def released_empty)
next
  case (Suc n)
  let ?r = "root_ppn pt" and ?W = "vrange (v + 1) n"
  have v: "v < 0x8000000" using Suc.prems(2) by (simp add: word_less_nat_alt)
  note suc = unat_plus_one64 [OF v]
  note V = vrange_Suc [OF v, of n] and vn = vrange_not_in [OF v, of n]
  have lim: "lim = v + 1 + word_of_nat n" "v < lim"
    using Suc.prems(2,3) by (simp_all add: unat_plus_if' unat_of_nat word_less_nat_alt)
  have rel: "releasable lo s ?r {v}" "releasable lo s ?r ?W" "frames (mem s) ?r {v} \<inter> frames (mem s) ?r ?W = {}"
    if free using releasable_insert [OF Suc.prems(4) [OF that, unfolded V] vn] .
  obtain t where t: "unmap_one s pt v free = Inr t" "unmapped lo ?r {v} s t"
    "released lo (if free then frames (mem s) ?r {v} else {}) s t"
    using unmap_one_result [OF Suc.prems(1) v, of free] rel(1) unfolding releasable_def by blast
  have small: "u < 0x8000000" if "u \<in> ?W" for u
    using that Suc.prems(2) suc by (simp add: vrange_def word_less_nat_alt)
  have rel_t: "releasable lo t ?r ?W" "frames (mem t) ?r ?W = frames (mem s) ?r ?W" if free
    using releasable_after [OF rel(2) t(2,3)] rel(3) that vn small by simp_all
  obtain u where u: "page_unmap_free_loop t pt (v + 1) lim free = Inr u" "unmapped lo ?r ?W t u"
    "released lo (if free then frames (mem t) ?r ?W else {}) t u"
    using Suc.IH [of t "v + 1"] t(2) Suc.prems(2) suc lim(1) rel_t(1) by (auto simp: unmapped_def)
  have "released lo (if free then frames (mem s) ?r (vrange v (Suc n)) else {}) s u"
    using released_trans [OF t(3) u(3)] rel(3) rel_t(2) frames_Un [of "mem s" ?r "{v}" ?W]
    by (cases free) (simp_all add: V)
  moreover have "unmapped lo ?r (vrange v (Suc n)) s u"
    unfolding V using unmapped_trans [OF t(2) u(2)] by simp
  moreover have "page_unmap_free_loop s pt v lim free = Inr u"
    using lim(2) t(1) u(1) by (simp add: unmap_loop_step [of s pt v])
  ultimately show ?case by blast
qed

section \<open>Releasing a table tree\<close>

text \<open>
  The tables below \<open>p\<close>, \<open>p\<close> included, in the order the recursion releases them,
  for a tree with \<open>n\<close> levels under \<open>p\<close>; and the trees the recursion accepts: branches
  only above the leaf tables, and nothing in the leaf tables.
\<close>

fun subtables :: "nat \<Rightarrow> memory \<Rightarrow> u64 \<Rightarrow> u64 list" where
  "subtables 0 m p = [p]"
| "subtables (Suc n) m p =
     concat (map (\<lambda>i. case next_table m p (word_of_nat i) of None \<Rightarrow> [] | Some q \<Rightarrow> subtables n m q)
       [0..<512]) @ [p]"

fun prunable :: "nat \<Rightarrow> memory \<Rightarrow> u64 \<Rightarrow> bool" where
  "prunable 0 m p = (\<forall>i < 512. next_table m p (word_of_nat i) = None)"
| "prunable (Suc n) m p =
     (\<forall>i < 512. case next_table m p (word_of_nat i) of None \<Rightarrow> True
        | Some q \<Rightarrow> is_branch (read64 m (pte_slot p (word_of_nat i))) \<and> prunable n m q)"

definition kids :: "nat \<Rightarrow> memory \<Rightarrow> u64 \<Rightarrow> nat \<Rightarrow> u64 list" where
  "kids n m p i = (case next_table m p (word_of_nat i) of None \<Rightarrow> [] | Some q \<Rightarrow> subtables n m q)"

lemma subtables_Suc: "subtables (Suc n) m p = concat (map (kids n m p) [0..<512]) @ [p]"
  by (simp add: kids_def [abs_def])

declare subtables.simps(2) [simp del]

lemma root_in_subtables [simp]: "p \<in> set (subtables n m p)"
  by (cases n) (simp_all add: subtables_Suc)

lemma kids_subset: "i < 512 \<Longrightarrow> set (kids n m p i) \<subseteq> set (subtables (Suc n) m p)"
  by (force simp: subtables_Suc)

lemma distinct_concat_parts:
  assumes "distinct (concat (map f xs))"
  shows "i \<in> set xs \<Longrightarrow> distinct (f i)"
    and "i \<in> set xs \<Longrightarrow> j \<in> set xs \<Longrightarrow> i \<noteq> j \<Longrightarrow> set (f i) \<inter> set (f j) = {}"
  using assms by (induction xs) auto

lemma index_less: "i < 512 \<Longrightarrow> (word_of_nat i :: u64) < 512"
  by (simp add: word_less_nat_alt unat_of_nat)

lemma slot_read_cong:
  assumes "p < 0x100000000000" and "\<And>x. frame_of x = p \<Longrightarrow> m' x = m x" and "i < 512"
  shows "read64 m' (pte_slot p i) = read64 m (pte_slot p i)"
  unfolding read64_def
  by (rule read_le_cong) (use assms frame_of_pte_slot [OF assms(1,3)] in auto)

lemma subtables_cong:
  assumes "p < 0x100000000000" and "\<And>x. frame_of x \<in> set (subtables n m p) \<Longrightarrow> m' x = m x"
  shows "subtables n m' p = subtables n m p \<and> prunable n m' p = prunable n m p"
  using assms
proof (induction n arbitrary: p)
  case 0
  then have "read64 m' (pte_slot p (word_of_nat i)) = read64 m (pte_slot p (word_of_nat i))" if "i < 512" for i
    using that by (intro slot_read_cong) (auto simp: index_less)
  then show ?case by (simp add: next_table_def)
next
  case (Suc n)
  have rd: "read64 m' (pte_slot p (word_of_nat i)) = read64 m (pte_slot p (word_of_nat i))" if "i < 512" for i
    using that Suc.prems by (intro slot_read_cong) (auto simp: index_less)
  then have nx: "next_table m' p (word_of_nat i) = next_table m p (word_of_nat i)" if "i < 512" for i
    using that by (simp add: next_table_def)
  have sub: "subtables n m' q = subtables n m q \<and> prunable n m' q = prunable n m q"
    if "i < 512" "next_table m p (word_of_nat i) = Some q" for i q
  proof (rule Suc.IH)
    show "q < 0x100000000000"
      using that(2) PageTableEntry_ppn_less by (auto simp: next_table_def Let_def split: if_splits)
    show "m' x = m x" if "frame_of x \<in> set (subtables n m q)" for x
      using that kids_subset [OF \<open>i < 512\<close>, of n m p] \<open>next_table m p (word_of_nat i) = Some q\<close>
      by (intro Suc.prems(2)) (auto simp: kids_def)
  qed
  have "kids n m' p i = kids n m p i" if "i < 512" for i
    using that nx sub by (simp add: kids_def split: option.splits)
  then have "map (kids n m' p) [0..<512] = map (kids n m p) [0..<512]" by (intro map_cong) auto
  moreover have "prunable (Suc n) m' p = prunable (Suc n) m p"
    using rd nx sub by (auto split: option.splits)
  ultimately show ?case by (simp only: subtables_Suc simp_thms)
qed

text \<open>One round of the loop over the entries of a table.\<close>

definition free_entry :: "nat \<Rightarrow> u64 \<Rightarrow> nat \<Rightarrow> 'a pmem_scheme \<Rightarrow> 'a pmem_scheme res" where
  "free_entry n p i s =
     (case next_table (mem s) p (word_of_nat i) of
        None \<Rightarrow> Inr s
      | Some q \<Rightarrow>
          if is_branch (read64 (mem s) (pte_slot p (word_of_nat i)))
          then bindE (free_page_table n s q) (\<lambda>s.
            Inr (s\<lparr>mem := write64 (mem s) (pte_slot p (word_of_nat i)) PageTableEntry_empty\<rparr>))
          else Inl (Panic (''free_page_table error'' @ NL)))"

lemma free_page_table_entries:
  "free_page_table (Suc n) s p = bindE (foldE (free_entry n p) [0..<512] s) (\<lambda>s. kfree s p)"
proof -
  have valid: "e AND ucast PTE_V \<noteq> 0 \<longleftrightarrow> PageTableEntry_is_valid e" for e :: u64
    by (simp add: PageTableEntry_is_valid_bit and_one_eq odd_iff_mod_2_eq_one bit_0)
  show ?thesis
    unfolding free_page_table.simps(2)
    by (rule arg_cong [where f = "\<lambda>f. bindE (foldE f [0..<512] s) (\<lambda>s. kfree s p)"], intro ext)
      (simp only: free_entry_def next_table_def is_branch_def Let_def valid option.case if_splits
        split: if_split, blast)
qed

text \<open>The state after the entries below \<open>k\<close> of table \<open>p\<close> have been released.\<close>

definition pruned :: "u64 \<Rightarrow> nat \<Rightarrow> u64 \<Rightarrow> nat \<Rightarrow> 'a pmem_scheme \<Rightarrow> 'a pmem_scheme \<Rightarrow> bool" where
  "pruned lo n p k s t \<longleftrightarrow> released lo (\<Union>i < k. set (kids n (mem s) p i)) s t \<and>
     (\<forall>x. frame_of x \<noteq> p \<longrightarrow> frame_of x \<notin> (\<Union>i < k. set (kids n (mem s) p i)) \<longrightarrow> mem t x = mem s x) \<and>
     (\<forall>j < 512. k \<le> j \<longrightarrow>
        read64 (mem t) (pte_slot p (word_of_nat j)) = read64 (mem s) (pte_slot p (word_of_nat j)))"

definition releases :: "u64 \<Rightarrow> nat \<Rightarrow> 'a pmem_scheme \<Rightarrow> u64 \<Rightarrow> bool" where
  "releases lo n s p \<longleftrightarrow> (\<exists>s'. free_page_table (Suc n) s p = Inr s' \<and>
     released lo (set (subtables n (mem s) p)) s s' \<and>
     (\<forall>x. frame_of x \<notin> set (subtables n (mem s) p) \<longrightarrow> mem s' x = mem s x))"

declare free_page_table.simps(2) [simp del]

lemma kids_apart:
  assumes d: "distinct (subtables (Suc n) m p)" and k: "k < 512" and q: "next_table m p (word_of_nat k) = Some q"
  shows "set (kids n m p k) = set (subtables n m q)" and "distinct (subtables n m q)"
    and "(\<Union>i < k. set (kids n m p i)) \<inter> set (subtables n m q) = {}" and "p \<notin> set (subtables n m q)"
proof -
  have dc: "distinct (concat (map (kids n m p) [0..<512]))" and pn: "p \<notin> set (kids n m p k)"
    using d k by (auto simp: subtables_Suc)
  have kq: "kids n m p k = subtables n m q" using q by (simp add: kids_def)
  show "set (kids n m p k) = set (subtables n m q)" by (simp add: kq)
  show "distinct (subtables n m q)" using distinct_concat_parts(1) [OF dc, of k] k kq by simp
  show "p \<notin> set (subtables n m q)" using pn kq by simp
  have "set (kids n m p i) \<inter> set (subtables n m q) = {}" if "i < k" for i
    using distinct_concat_parts(2) [OF dc, of i k] that k unfolding kq by simp
  then show "(\<Union>i < k. set (kids n m p i)) \<inter> set (subtables n m q) = {}" by auto
qed

lemma free_entry_pruned:
  fixes s t :: "'a pmem_scheme"
  assumes sub: "\<And>t :: 'a pmem_scheme. \<And>q. pool_inv lo t \<Longrightarrow> set (subtables n (mem t) q) \<subseteq> owned lo t \<Longrightarrow>
      distinct (subtables n (mem t) q) \<Longrightarrow> prunable n (mem t) q \<Longrightarrow> releases lo n t q"
    and own: "set (subtables (Suc n) (mem s) p) \<subseteq> owned lo s" and inv: "pool_inv lo s"
    and d: "distinct (subtables (Suc n) (mem s) p)" and prun: "prunable (Suc n) (mem s) p"
    and k: "k < 512" and t: "pruned lo n p k s t"
  shows "\<exists>t'. free_entry (Suc n) p k t = Inr t' \<and> pruned lo n p (Suc k) s t'"
proof -
  define U where "U = (\<Union>i < k. set (kids n (mem s) p i))"
  let ?e = "pte_slot p (word_of_nat k)"
  have rel: "released lo U s t" and out: "\<And>x. frame_of x \<noteq> p \<Longrightarrow> frame_of x \<notin> U \<Longrightarrow> mem t x = mem s x"
    and rd: "\<And>j. j < 512 \<Longrightarrow> k \<le> j \<Longrightarrow>
      read64 (mem t) (pte_slot p (word_of_nat j)) = read64 (mem s) (pte_slot p (word_of_nat j))"
    using t by (simp_all add: pruned_def U_def)
  have rdk: "read64 (mem t) ?e = read64 (mem s) ?e" using rd [OF k] by simp
  then have nx: "next_table (mem t) p (word_of_nat k) = next_table (mem s) p (word_of_nat k)"
    by (simp add: next_table_def)
  show ?thesis
  proof (cases "next_table (mem s) p (word_of_nat k)")
    case None
    then have "set (kids n (mem s) p k) = {}" by (simp add: kids_def)
    then have "pruned lo n p (Suc k) s t" using t by (simp add: pruned_def lessThan_Suc)
    with None nx show ?thesis by (simp add: free_entry_def)
  next
    case (Some q)
    define Q where "Q = set (subtables n (mem s) q)"
    note apart = kids_apart [OF d k Some, folded Q_def U_def]
    have Qown: "Q \<subseteq> owned lo s" using own kids_subset [OF k, of n "mem s" p] apart(1) by simp
    have small: "p < 0x100000000000" "q < 0x100000000000"
      using pool.own_small [OF inv] own Qown root_in_subtables [of q n "mem s", folded Q_def]
        root_in_subtables [of p "Suc n" "mem s"] by blast+
    have same: "mem t x = mem s x" if "frame_of x \<in> set (subtables n (mem s) q)" for x
      using that out [of x] apart(3,4) unfolding Q_def by blast
    note cong = subtables_cong [OF small(2) same, folded Q_def]
    have "pool_inv lo t" "Q \<subseteq> owned lo t" using rel Qown apart(3) unfolding released_def by blast+
    moreover have prunq: "prunable n (mem s) q" "is_branch (read64 (mem s) ?e)"
      using k Some prun by auto
    ultimately have "releases lo n t q" using sub [of t q] cong apart(2) Q_def by simp
    then obtain u where u: "free_page_table (Suc n) t q = Inr u" "released lo Q t u"
      "\<And>x. frame_of x \<notin> Q \<Longrightarrow> mem u x = mem t x"
      using cong Q_def by (auto simp: releases_def)
    let ?u = "u\<lparr>mem := write64 (mem u) ?e PageTableEntry_empty\<rparr>"
    have "released lo (U \<union> Q) s ?u"
      using released_trans [OF rel u(2) apart(3)] by (simp add: U_def Q_def)
    moreover have "mem ?u x = mem s x" if "frame_of x \<noteq> p" "frame_of x \<notin> U \<union> Q" for x
      using that u(3) out small(1) k by (simp add: write_slot_other_frame index_less)
    moreover have "read64 (mem ?u) (pte_slot p (word_of_nat j)) = read64 (mem s) (pte_slot p (word_of_nat j))"
      if "j < 512" "Suc k \<le> j" for j
    proof -
      have "(word_of_nat k :: u64) \<noteq> word_of_nat j" using that k by (simp add: word_unat_eq_iff unat_of_nat)
      moreover have "read64 (mem u) (pte_slot p (word_of_nat j)) = read64 (mem t) (pte_slot p (word_of_nat j))"
        using small(1) apart(4) u(3) that by (intro slot_read_cong) (auto simp: index_less)
      ultimately show ?thesis using that k rd [of j] small(1) by (simp add: read_write_slot index_less)
    qed
    ultimately have "pruned lo n p (Suc k) s ?u"
      using apart(1) by (simp add: pruned_def lessThan_Suc U_def Un_commute)
    with u(1) Some nx rdk prunq(2) show ?thesis by (simp add: free_entry_def)
  qed
qed

lemma free_entries_pruned:
  fixes s :: "'a pmem_scheme"
  assumes sub: "\<And>t :: 'a pmem_scheme. \<And>q. pool_inv lo t \<Longrightarrow> set (subtables n (mem t) q) \<subseteq> owned lo t \<Longrightarrow>
      distinct (subtables n (mem t) q) \<Longrightarrow> prunable n (mem t) q \<Longrightarrow> releases lo n t q"
    and own: "set (subtables (Suc n) (mem s) p) \<subseteq> owned lo s" and inv: "pool_inv lo s"
    and d: "distinct (subtables (Suc n) (mem s) p)" and prun: "prunable (Suc n) (mem s) p"
    and k: "k \<le> 512"
  shows "\<exists>t. foldE (free_entry (Suc n) p) [0..<k] s = Inr t \<and> pruned lo n p k s t"
  using k
proof (induction k)
  case 0
  then show ?case using inv by (simp add: pruned_def released_empty)
next
  case (Suc k)
  then obtain t where t: "foldE (free_entry (Suc n) p) [0..<k] s = Inr t" "pruned lo n p k s t" by auto
  moreover obtain t' where "free_entry (Suc n) p k t = Inr t'" "pruned lo n p (Suc k) s t'"
    using free_entry_pruned [OF sub own inv d prun _ t(2)] Suc.prems by auto
  ultimately show ?case by (simp add: foldE_append)
qed

lemma free_leaf_table:
  assumes "pool_inv lo s" and "p \<in> owned lo s" and "prunable 0 (mem s) p"
  shows "releases lo 0 s p"
proof -
  have none: "free_entry 0 p i s = Inr s" if "i < 512" for i
    using that assms(3) by (simp add: free_entry_def)
  have "foldE (free_entry 0 p) is s = Inr s" if "set is \<subseteq> {0..<512}" for "is"
    using that none by (induction "is") simp_all
  from this [of "[0..<512]"] have "free_page_table (Suc 0) s p = kfree s p"
    by (simp add: free_page_table_entries)
  moreover obtain s' where "kfree s p = Inr s'" "released lo {p} s s'" "mem s' = mem s"
    by (rule kfree_released [OF assms(1,2)])
  ultimately show ?thesis by (simp add: releases_def)
qed

lemma free_pruned_table:
  assumes inv: "pool_inv lo s" and own: "set (subtables (Suc n) (mem s) p) \<subseteq> owned lo s"
    and d: "distinct (subtables (Suc n) (mem s) p)"
    and t: "foldE (free_entry (Suc n) p) [0..<512] s = Inr t" "pruned lo n p 512 s t"
  shows "releases lo (Suc n) s p"
proof -
  define U where "U = (\<Union>i < 512. set (kids n (mem s) p i))"
  have set_eq: "set (subtables (Suc n) (mem s) p) = U \<union> {p}"
    by (auto simp: subtables_Suc U_def)
  have pU: "U \<inter> {p} = {}" using d by (auto simp: subtables_Suc U_def)
  have rel: "released lo U s t" and out: "\<And>x. frame_of x \<notin> U \<union> {p} \<Longrightarrow> mem t x = mem s x"
    using t(2) by (simp_all add: pruned_def U_def)
  have inv_t: "pool_inv lo t" and "p \<in> owned lo t"
    using rel own pU unfolding released_def set_eq by blast+
  then obtain u where u: "kfree t p = Inr u" "released lo {p} t u" "mem u = mem t" by (rule kfree_released)
  have "released lo (U \<union> {p}) s u" using released_trans [OF rel u(2) pU] by (simp add: U_def)
  moreover have "free_page_table (Suc (Suc n)) s p = Inr u"
    unfolding free_page_table_entries t(1) using u(1) by simp
  ultimately show ?thesis unfolding releases_def set_eq using out u(3) by (intro exI [of _ u]) simp
qed

lemma free_page_table_releases:
  fixes s :: "'a pmem_scheme"
  assumes "pool_inv lo s" and "set (subtables n (mem s) p) \<subseteq> owned lo s"
    and "distinct (subtables n (mem s) p)" and "prunable n (mem s) p"
  shows "releases lo n s p"
  using assms
proof (induction n arbitrary: s p)
  case 0
  then show ?case by (intro free_leaf_table) simp_all
next
  case (Suc n)
  obtain t where "foldE (free_entry (Suc n) p) [0..<512] s = Inr t" "pruned lo n p 512 s t"
    using free_entries_pruned [OF Suc.IH Suc.prems(2,1,3,4) order_refl] by blast
  then show ?case by (rule free_pruned_table [OF Suc.prems(1-3)])
qed

section \<open>The tables of a process\<close>

lemma ex_index: "(\<exists>i :: u64. i < 512 \<and> P i) \<longleftrightarrow> (\<exists>k < 512. P (word_of_nat k))"
proof
  assume "\<exists>i :: u64. i < 512 \<and> P i"
  then obtain i :: u64 where "i < 512" "P i" by blast
  then show "\<exists>k < 512. P (word_of_nat k)"
    by (intro exI [of _ "unat i"]) (simp add: word_less_nat_alt)
next
  assume "\<exists>k < 512. P (word_of_nat k)"
  then show "\<exists>i :: u64. i < 512 \<and> P i" using index_less by blast
qed

lemma subtables_Suc_iff:
  "p \<in> set (subtables (Suc n) m r) \<longleftrightarrow>
     p = r \<or> (\<exists>i. i < 512 \<and> (\<exists>q. next_table m r i = Some q \<and> p \<in> set (subtables n m q)))"
proof -
  have "p \<in> set (kids n m r k) \<longleftrightarrow> (\<exists>q. next_table m r (word_of_nat k) = Some q \<and> p \<in> set (subtables n m q))" for k
    by (cases "next_table m r (word_of_nat k)") (simp_all add: kids_def)
  then have "p \<in> set (subtables (Suc n) m r) \<longleftrightarrow>
      p = r \<or> (\<exists>k < 512. \<exists>q. next_table m r (word_of_nat k) = Some q \<and> p \<in> set (subtables n m q))"
    by (auto simp: subtables_Suc)
  then show ?thesis unfolding ex_index .
qed

lemma subtables_paths:
  "p \<in> set (subtables n m r) \<longleftrightarrow>
     (\<exists>is. length is \<le> n \<and> (\<forall>i \<in> set is. i < 512) \<and> tbl m r is = Some p)"
proof (induction n arbitrary: r)
  case 0
  then show ?case by auto
next
  case (Suc n)
  show ?case
  proof
    assume "p \<in> set (subtables (Suc n) m r)"
    then consider "p = r" | i q where "i < 512" "next_table m r i = Some q" "p \<in> set (subtables n m q)"
      unfolding subtables_Suc_iff by blast
    then show "\<exists>is. length is \<le> Suc n \<and> (\<forall>i \<in> set is. i < 512) \<and> tbl m r is = Some p"
    proof cases
      case 1
      then show ?thesis by (intro exI [of _ "[]"]) simp
    next
      case 2
      then obtain js where "length js \<le> n" "\<forall>i \<in> set js. i < 512" "tbl m q js = Some p"
        using Suc.IH by blast
      with 2 show ?thesis by (intro exI [of _ "i # js"]) simp
    qed
  next
    assume "\<exists>is. length is \<le> Suc n \<and> (\<forall>i \<in> set is. i < 512) \<and> tbl m r is = Some p"
    then obtain js where js: "length js \<le> Suc n" "\<forall>i \<in> set js. i < 512" "tbl m r js = Some p" by blast
    show "p \<in> set (subtables (Suc n) m r)"
    proof (cases js)
      case Nil
      with js show ?thesis by (simp add: subtables_Suc_iff)
    next
      case (Cons i ks)
      with js obtain q where "next_table m r i = Some q" "tbl m q ks = Some p" by (auto split: option.splits)
      with Cons js show ?thesis by (auto simp: subtables_Suc_iff Suc.IH)
    qed
  qed
qed

lemma tables_subtables: "tables m r = set (subtables 2 m r)"
  by (rule set_eqI) (simp only: subtables_paths tables_def tpaths_def mem_Collect_eq Bex_def conj_assoc)

lemma finite_tables: "finite (tables m r)"
  by (simp add: tables_subtables)

lemma distinct_concatI:
  assumes "distinct xs" and "\<And>x. x \<in> set xs \<Longrightarrow> distinct (f x)"
    and "\<And>x y. x \<in> set xs \<Longrightarrow> y \<in> set xs \<Longrightarrow> x \<noteq> y \<Longrightarrow> set (f x) \<inter> set (f y) = {}"
  shows "distinct (concat (map f xs))"
  using assms
proof (induction xs)
  case (Cons x xs)
  have "set (f x) \<inter> set (concat (map f xs)) = {}" using Cons.prems(1,3) by fastforce
  with Cons show ?case by simp
qed simp

text \<open>Different paths lead to different tables, so every table is listed once.\<close>

lemma distinct_subtables:
  assumes "\<And>is js p. length is \<le> n \<Longrightarrow> length js \<le> n \<Longrightarrow> (\<forall>i \<in> set is \<union> set js. i < 512) \<Longrightarrow>
      tbl m r is = Some p \<Longrightarrow> tbl m r js = Some p \<Longrightarrow> is = js"
  shows "distinct (subtables n m r)"
  using assms
proof (induction n arbitrary: r)
  case (Suc n)
  have path: "\<exists>is. length is \<le> n \<and> (\<forall>j \<in> set is. j < 512) \<and> tbl m r (word_of_nat i # is) = Some p"
    if "p \<in> set (kids n m r i)" for i p
    using that by (cases "next_table m r (word_of_nat i)") (auto simp: kids_def subtables_paths)
  have "distinct (kids n m r i)" if i: "i < 512" for i
  proof (cases "next_table m r (word_of_nat i)")
    case (Some q)
    have "distinct (subtables n m q)"
    proof (rule Suc.IH)
      fix "is" js p
      assume "length is \<le> n" "length js \<le> n" "\<forall>i \<in> set is \<union> set js. i < 512"
        "tbl m q is = Some p" "tbl m q js = Some p"
      then show "is = js"
        using Suc.prems [of "word_of_nat i # is" "word_of_nat i # js" p] Some index_less [OF i] by simp
    qed
    with Some show ?thesis by (simp add: kids_def)
  qed (simp add: kids_def)
  moreover have "set (kids n m r i) \<inter> set (kids n m r j) = {}" if "i < 512" "j < 512" "i \<noteq> j" for i j
  proof (rule ccontr)
    assume "set (kids n m r i) \<inter> set (kids n m r j) \<noteq> {}"
    then obtain p "is" js where "length is \<le> n" "\<forall>k \<in> set is. k < 512" "tbl m r (word_of_nat i # is) = Some p"
      "length js \<le> n" "\<forall>k \<in> set js. k < 512" "tbl m r (word_of_nat j # js) = Some p"
      using path by blast
    then have "word_of_nat i # is = word_of_nat j # js"
      by (intro Suc.prems) (auto simp: index_less that simp del: tbl.simps)
    with that show False by (simp add: word_unat_eq_iff unat_of_nat)
  qed
  moreover have "r \<notin> set (kids n m r i)" if "i < 512" for i
    using path [of r i] Suc.prems [of "[]" "word_of_nat i # _" r] index_less [OF that] by auto
  moreover from calculation have "distinct (concat (map (kids n m r) [0..<512]))"
    by (intro distinct_concatI) simp_all
  ultimately show ?case by (auto simp: subtables_Suc)
qed simp

lemma pt_wf_distinct: "pt_wf m r \<Longrightarrow> distinct (subtables 2 m r)"
  by (rule distinct_subtables) (auto intro!: pt_wf_inj [of m r] simp: tpaths_def)

lemma vidx_exists:
  assumes "i < 512" "j < 512" "k < 512"
  obtains v where "v < 0x8000000" "vidx0 v = i" "vidx1 v = j" "vidx2 v = (k :: u64)"
proof -
  define n where "n = (unat i * 512 + unat j) * 512 + unat k"
  have less: "unat i < 512" "unat j < 512" "unat k < 512" using assms by (simp_all add: word_less_nat_alt)
  then have n: "n < 134217728" unfolding n_def by simp
  have "(a * 512 + c) mod 512 = c" "(a * 512 + c) div 512 = a" if "c < 512" for a c :: nat
    using that by simp_all
  from this [OF less(3)] have low: "n mod 512 = unat k" "n div 512 = unat i * 512 + unat j"
    by (simp_all only: n_def)
  have "n div 262144 = n div 512 div 512" by (simp add: div_mult2_eq [symmetric])
  then have parts: "n div 262144 mod 512 = unat i" "n div 512 mod 512 = unat j" using less low by simp_all
  have unat: "unat (word_of_nat n :: u64) = n" using n by (simp add: unat_of_nat)
  show thesis
    by (rule that [of "word_of_nat n"])
      (simp_all add: word_less_nat_alt word_unat_eq_iff unsigned_take_bit_eq take_bit_eq_mod
        drop_bit_eq_div unat_div_distrib unat_mod_distrib unat parts low(1) n)
qed

lemma empty_prunable:
  assumes wf: "pt_inner m r" and empty: "\<And>v. v < 0x8000000 \<Longrightarrow> pt_lookup m r v = None"
  shows "prunable 2 m r"
proof -
  have leaf: "next_table m q2 k = None"
    if i: "i < 512" "next_table m r i = Some q" and j: "j < 512" "next_table m q j = Some q2" and k: "k < 512"
    for i q j q2 k
  proof -
    obtain v where v: "v < 0x8000000" "vidx0 v = i" "vidx1 v = j" "vidx2 v = k"
      by (rule vidx_exists [OF i(1) j(1) k])
    have "tbl m r (vpath v) = Some q2" using i j v by (simp add: vpath_def)
    with empty [OF v(1)] v(4) show ?thesis by (simp add: pt_lookup_def next_table_def Let_def split: if_splits)
  qed
  have inner: "is_branch (read64 m (pte_slot p i))"
    if "is \<in> tpaths" "length is \<le> 1" "tbl m r is = Some p" "i < 512" "next_table m p i = Some q" for "is" p i q
    using pt_innerD [OF wf that(1-4)] that(5) by (simp add: next_table_def Let_def split: if_splits)
  have "prunable (Suc 0) m q" if q: "i < 512" "next_table m r i = Some q" for i q
  proof -
    have "tbl m r [i] = Some q" "[i] \<in> tpaths" using q by (simp_all add: tpaths_def)
    then have "is_branch (read64 m (pte_slot q (word_of_nat j))) \<and> prunable 0 m q2"
      if "j < 512" "next_table m q (word_of_nat j) = Some q2" for j q2
      using leaf [OF q _ that(2)] inner [of "[i]" q] that by (simp add: index_less)
    then show ?thesis by (simp split: option.splits)
  qed
  moreover have "is_branch (read64 m (pte_slot r i))" if "i < 512" "next_table m r i = Some q" for i q
    using inner [of "[]" r i q] that by simp
  ultimately have "prunable (Suc (Suc 0)) m r"
    using index_less by (subst prunable.simps(2)) (simp del: prunable.simps split: option.split, blast)
  then show ?thesis by (simp only: numeral_2_eq_2)
qed

lemma page_unmap_free_result:
  assumes "pt_ok lo s (root_ppn pt)" and "unat v + unat n \<le> 0x8000000"
    and "free \<Longrightarrow> releasable lo s (root_ppn pt) (vrange v (unat n))"
  obtains s' where "page_unmap_free s pt v n free = Inr s'" "unmapped lo (root_ppn pt) (vrange v (unat n)) s s'"
    "released lo (if free then frames (mem s) (root_ppn pt) (vrange v (unat n)) else {}) s s'"
  using page_unmap_free_loop_result [OF assms(1,2) _ assms(3), of "v + n"] by (auto simp: page_unmap_free_def)

lemma free_tree_result:
  assumes "pt_ok lo s root" and "\<And>v. v < 0x8000000 \<Longrightarrow> pt_lookup (mem s) root v = None"
  obtains s' where "free_page_table 3 s root = Inr s'" "released lo (tables (mem s) root) s s'"
    "\<And>x. frame_of x \<notin> tables (mem s) root \<Longrightarrow> mem s' x = mem s x"
proof -
  have "releases lo 2 s root"
    using assms pt_wf_distinct empty_prunable
    by (intro free_page_table_releases) (auto simp: pt_ok_def tables_subtables)
  then show thesis
    using that by (auto simp: releases_def tables_subtables numeral_3_eq_3 numeral_2_eq_2)
qed

lemma high_pages:
  "floor_virts (virt_addr_from_size_t TRAMPOLINE) = 0x7FFFFFF"
  "floor_virts (virt_addr_from_size_t TRAPFRAME) = 0x7FFFFFE"
  "vrange 0x7FFFFFF 1 = {0x7FFFFFF}" "vrange 0x7FFFFFE 1 = {0x7FFFFFE}"
proof -
  show "floor_virts (virt_addr_from_size_t TRAMPOLINE) = 0x7FFFFFF"
    "floor_virts (virt_addr_from_size_t TRAPFRAME) = 0x7FFFFFE"
    by (simp_all add: TRAMPOLINE_val TRAPFRAME_val floor_virts_def virt_addr_from_size_t_def push_bit_eq_mult)
  have "vrange v 1 = {v}" for v by (auto simp: vrange_def word_unat_eq_iff)
  then show "vrange 0x7FFFFFF 1 = {0x7FFFFFF}" "vrange 0x7FFFFFE 1 = {0x7FFFFFE}" by simp_all
qed

text \<open>The low half of a process goes back together with its tables.\<close>

lemma exec_free_lowhalf_result:
  assumes ok: "pt_ok lo s (root_ppn pt)" and sz: "unat sz div 4096 \<le> 0x8000000"
    and rel: "releasable lo s (root_ppn pt) (vrange 0 (unat sz div 4096))"
    and only: "\<And>v. v < 0x8000000 \<Longrightarrow> v \<notin> vrange 0 (unat sz div 4096) \<Longrightarrow> pt_lookup (mem s) (root_ppn pt) v = None"
  obtains s' where "exec_free_lowhalf s pt sz = Inr s'"
    "released lo (frames (mem s) (root_ppn pt) (vrange 0 (unat sz div 4096)) \<union> tables (mem s) (root_ppn pt)) s s'"
    "\<And>x. frame_of x \<notin> tables (mem s) (root_ppn pt) \<Longrightarrow> mem s' x = mem s x"
proof -
  let ?r = "root_ppn pt" and ?n = "unat sz div 4096"
  let ?V = "vrange 0 ?n"
  have n: "unat (sz div 4096) = ?n" by (simp add: unat_div_distrib)
  obtain t where t: "page_unmap_free s pt 0 (sz div 4096) True = Inr t" "unmapped lo ?r ?V s t"
    "released lo (frames (mem s) ?r ?V) s t"
    by (rule page_unmap_free_result [OF ok, of 0 "sz div 4096" True]) (use sz rel n in simp_all)
  have t': "(if sz > 0 then page_unmap_free s pt (virt_page_num_from_size_t 0) (sz div PAGE_SIZE) True
      else Inr s) = Inr t"
    using t(1) by (cases "sz = 0")
      (simp_all add: addr_simps page_unmap_free_def unmap_loop_step [of s pt 0 0] word_neq_0_conv)
  have ok_t: "pt_ok lo t ?r" and tabs: "tables (mem t) ?r = tables (mem s) ?r"
    using t(2) by (simp_all add: unmapped_def)
  have none: "pt_lookup (mem t) ?r v = None" if "v < 0x8000000" for v
    using t(2) only that by (auto simp: unmapped_def)
  obtain u where u: "free_page_table 3 t ?r = Inr u" "released lo (tables (mem t) ?r) t u"
    "\<And>x. frame_of x \<notin> tables (mem t) ?r \<Longrightarrow> mem u x = mem t x"
    using free_tree_result [OF ok_t none] by blast
  have "frames (mem s) ?r ?V \<inter> tables (mem s) ?r = {}" using rel by (auto simp: releasable_def)
  then have "released lo (frames (mem s) ?r ?V \<union> tables (mem s) ?r) s u"
    using released_trans [OF t(3) u(2)] by (simp add: tabs finite_tables)
  moreover have "mem u x = mem s x" if "frame_of x \<notin> tables (mem s) ?r" for x
    using that u(3) t(2) tabs by (simp add: unmapped_def)
  moreover have "exec_free_lowhalf s pt sz = Inr u" using t' u(1) by (simp add: exec_free_lowhalf_def)
  ultimately show thesis by (intro that)
qed

section \<open>Properties\<close>

text \<open>
  C19: Releasing a page table whose pages have all been unmapped succeeds: the recursion needs
  three levels, every table of the tree goes back to the allocator exactly once, nothing else
  does, and no memory outside the tables changes. When the recycling stack has room, all of
  the tables can be handed out again afterwards.
\<close>

theorem free_page_table_complete:
  assumes "pt_ok lo s root" and "\<forall>v < 0x8000000. pt_lookup (mem s) root v = None"
  shows "\<exists>s'. free_page_table 3 s root = Inr s' \<and>
    owned lo s - tables (mem s) root \<subseteq> owned lo s' \<and> owned lo s' \<subseteq> owned lo s \<and>
    (card (tables (mem s) root) \<le> recycle_room s \<longrightarrow> owned lo s' = owned lo s - tables (mem s) root) \<and>
    (\<forall>x. frame_of x \<notin> tables (mem s) root \<longrightarrow> mem s' x = mem s x)"
proof -
  obtain s' where "free_page_table 3 s root = Inr s'" "released lo (tables (mem s) root) s s'"
    "\<And>x. frame_of x \<notin> tables (mem s) root \<Longrightarrow> mem s' x = mem s x"
    using free_tree_result [OF assms(1)] assms(2) by blast
  then show ?thesis by (auto simp: released_def)
qed

theorem free_page_table_complete_witness:
  "\<exists>s'. free_page_table 3 sample_ptmem 0x80400 = Inr s'"
  using free_page_table_complete [OF sample_ptmem_ok] by (auto simp: sample_ptmem_room)

text \<open>
  C4: Releasing a process succeeds and leaks nothing. For a process whose table maps the
  pages below its size to frames of its own, the trampoline and the trap page, and nothing
  else, \<^verbatim>\<open>free_proc_memory\<close> gives back exactly the data frames of the low pages and
  all tables (the trampoline and the trap page stay allocated), as long as the recycling
  stack has room for them, and changes no memory outside the released tables.
\<close>

theorem free_proc_memory_complete:
  assumes "pt_ok lo s (root_ppn pt)" and "unat sz div 4096 \<le> 0x7FFFFFE"
    and "releasable lo s (root_ppn pt) (vrange 0 (unat sz div 4096))"
    and "\<forall>v < 0x8000000. pt_lookup (mem s) (root_ppn pt) v \<noteq> None \<longrightarrow>
      v \<in> vrange 0 (unat sz div 4096) \<union> {0x7FFFFFE, 0x7FFFFFF}"
  defines "F \<equiv> frames (mem s) (root_ppn pt) (vrange 0 (unat sz div 4096)) \<union> tables (mem s) (root_ppn pt)"
  shows "\<exists>s'. free_proc_memory s pt sz = Inr s' \<and> owned lo s - F \<subseteq> owned lo s' \<and> owned lo s' \<subseteq> owned lo s \<and>
    (card F \<le> recycle_room s \<longrightarrow> owned lo s' = owned lo s - F) \<and>
    (\<forall>x. frame_of x \<notin> tables (mem s) (root_ppn pt) \<longrightarrow> mem s' x = mem s x)"
proof -
  let ?r = "root_ppn pt" and ?V = "vrange 0 (unat sz div 4096)"
  have V: "u < 0x7FFFFFE" if "u \<in> ?V" for u
    using that assms(2) by (simp add: vrange_def word_less_nat_alt)
  obtain t where t: "page_unmap_free s pt 0x7FFFFFF 1 False = Inr t" "unmapped lo ?r {0x7FFFFFF} s t" "released lo {} s t"
    by (rule page_unmap_free_result [OF assms(1), of "0x7FFFFFF" 1 False]) (simp_all add: high_pages(3) [simplified])
  have ok_t: "pt_ok lo t ?r" using t(2) by (simp add: unmapped_def)
  obtain u where u: "page_unmap_free t pt 0x7FFFFFE 1 False = Inr u" "unmapped lo ?r {0x7FFFFFE} t u" "released lo {} t u"
    by (rule page_unmap_free_result [OF ok_t, of "0x7FFFFFE" 1 False]) (simp_all add: high_pages(4) [simplified])
  have un: "unmapped lo ?r {0x7FFFFFF, 0x7FFFFFE} s u" using unmapped_trans [OF t(2) u(2)] by (simp add: insert_commute)
  have fr: "released lo {} s u" using released_trans [OF t(3) u(3)] by simp
  have "v < 0x8000000" if "v \<in> ?V" for v using V [OF that] by (rule order_less_trans) simp
  moreover have "{0x7FFFFFF, 0x7FFFFFE} \<inter> ?V = {}" using V [of "0x7FFFFFF"] V [of "0x7FFFFFE"] by auto
  ultimately have rel: "releasable lo u ?r ?V" "frames (mem u) ?r ?V = frames (mem s) ?r ?V"
    using releasable_after [OF assms(3) un fr] by simp_all
  have ok_u: "pt_ok lo u ?r" and tabs: "tables (mem u) ?r = tables (mem s) ?r"
    using un by (simp_all add: unmapped_def)
  have only: "pt_lookup (mem u) ?r v = None" if "v < 0x8000000" "v \<notin> ?V" for v
    using that assms(4) un by (auto simp: unmapped_def)
  obtain s' where s': "exec_free_lowhalf u pt sz = Inr s'"
    "released lo (frames (mem u) ?r ?V \<union> tables (mem u) ?r) u s'"
    "\<And>x. frame_of x \<notin> tables (mem u) ?r \<Longrightarrow> mem s' x = mem u x"
    using exec_free_lowhalf_result [OF ok_u _ rel(1) only] assms(2) by auto
  have "released lo F s s'"
    using released_trans [OF fr s'(2)] rel(2) by (simp add: tabs F_def finite_tables)
  moreover have "mem s' x = mem s x" if "frame_of x \<notin> tables (mem s) ?r" for x
    using that s'(3) un tabs by (simp add: unmapped_def)
  moreover have "free_proc_memory s pt sz = Inr s'"
    using t(1) u(1) s'(1) by (simp add: free_proc_memory_def high_pages)
  ultimately show ?thesis by (simp add: released_def)
qed

theorem free_proc_memory_complete_witness:
  "\<exists>s s'. PageTable_map_per_page sample_two_roots \<lparr>root_ppn = 0x80400\<rparr> 0 0x80401 PTE_R = Inr s \<and>
     free_proc_memory s \<lparr>root_ppn = 0x80400\<rparr> 0x1000 = Inr s'"
proof -
  let ?pt = "\<lparr>root_ppn = 0x80400\<rparr>"
  have ok0: "pt_ok 0x80400 sample_two_roots (root_ppn ?pt)" by (simp add: sample_two_roots_ok)
  obtain s where s: "PageTable_map_per_page sample_two_roots ?pt 0 0x80401 PTE_R = Inr s"
    using map_per_page_total [OF ok0, of 0 "0x80401" PTE_R] by (auto simp: sample_two_roots_ok)
  note res = map_per_page_result [OF ok0 _ s, simplified]
  have ok: "pt_ok 0x80400 s 0x80400" using res(1) by (simp add: pt_step_def)
  have look: "pt_lookup (mem s) 0x80400 v = (if v = 0 then Some (PageTableEntry_new 0x80401 (PTE_V OR PTE_R)) else None)"
    if "v < 0x8000000" for v using res(3) [OF that] by (simp add: sample_two_roots_ok)
  have V: "vrange 0 (Suc 0) = {0}" by (auto simp: vrange_def unat_eq_0)
  have frame: "frame_at (mem s) 0x80400 0 = 0x80401"
    by (simp add: frame_at_def look entry_frame_def PageTableEntry_new_def PTE_PA_def floor_phys_def
        phys_addr_from_size_t_def push_bit_eq_mult drop_bit_eq_div)
  have "0x80401 \<in> owned 0x80400 sample_two_roots" "0x80401 \<notin> tables (mem sample_two_roots) 0x80400"
    using sample_two_roots_ok(2,3) root_in_tables [of "0x80401" "mem sample_two_roots"]
    by (auto simp: pt_ok_def)
  then have "0x80401 \<in> owned 0x80400 s - tables (mem s) 0x80400" using res(1) by (auto simp: pt_step_def)
  moreover have "mapped (mem s) 0x80400 {0} = {0}" by (auto simp: mapped_def look)
  ultimately have rel: "releasable 0x80400 s 0x80400 {0}"
    by (simp add: releasable_def frames_def frame)
  have "\<forall>v < 0x8000000. pt_lookup (mem s) 0x80400 v \<noteq> None \<longrightarrow> v \<in> {0} \<union> {0x7FFFFFE, 0x7FFFFFF}"
    using look by simp
  with s free_proc_memory_complete [of "0x80400" s ?pt "0x1000"] ok rel show ?thesis
    by (simp add: V) blast
qed

end
