(* ===== verification/Task.thy ===== *)
theory Task
  imports PageFree
begin

text \<open>
  Processes: the task control blocks of \<^verbatim>\<open>os/include/task.h\<close> and the operations on them
  in \<^verbatim>\<open>os/src/task.c\<close>. The kernel state extends the physical memory state with the
  task array, the scheduler's variables and the control registers the kernel writes. A
  pointer into \<^verbatim>\<open>tasks\<close> is an index, \<^verbatim>\<open>NULL\<close> is \<open>None\<close>; an index
  outside the array is the error \<open>OutOfRange\<close>. Addresses that the linker provides
  (\<^verbatim>\<open>trampoline\<close>, \<^verbatim>\<open>etext\<close>, the entry points of functions) are a record of
  parameters.
\<close>

section \<open>State\<close>

datatype TaskState = UnInit | Ready | Running | Zombie

record TaskContext =
  tc_ra :: u64
  tc_sp :: u64
  tc_s :: "u64 list"

record TaskControlBlock =
  task_state :: TaskState
  pid :: u32
  parent :: "nat option"
  task_context :: TaskContext
  trap_cx_ppn :: u64
  base_size :: u64
  kstack :: u64
  ustack :: u64
  entry :: u64
  pagetable :: PageTable
  exit_code :: u64

abbreviation MAX_TASK_NUM :: nat where "MAX_TASK_NUM \<equiv> 10"

record kstate = pmem +
  tasks :: "TaskControlBlock list"
  current :: int
  top :: int
  next_pid :: u32
  kernel_pagetable :: PageTable
  sstatus :: u64
  sie :: u64
  stvec :: u64
  satp :: u64
  app_names :: "u64 list"

record linker =
  kernelend :: u64
  etext :: u64
  trampoline :: u64
  alltraps_addr :: u64
  restore_addr :: u64
  trap_return_addr :: u64
  trap_handler_addr :: u64
  trap_from_kernel_addr :: u64
  num_app_addr :: u64
  app_names_addr :: u64

text \<open>Reading and updating a slot of the task array.\<close>

definition task :: "'a kstate_scheme \<Rightarrow> nat \<Rightarrow> TaskControlBlock" where
  "task s i = tasks s ! i"

definition upd_task :: "nat \<Rightarrow> (TaskControlBlock \<Rightarrow> TaskControlBlock) \<Rightarrow> 'a kstate_scheme \<Rightarrow> 'a kstate_scheme" where
  "upd_task i f s = s\<lparr>tasks := (tasks s)[i := f (tasks s ! i)]\<rparr>"

definition cur :: "'a kstate_scheme \<Rightarrow> nat" where
  "cur s = nat (current s)"

section \<open>Creating a process\<close>

definition alloc_pid :: "'a kstate_scheme \<Rightarrow> u32 \<times> 'a kstate_scheme" where
  "alloc_pid s = (next_pid s, s\<lparr>next_pid := next_pid s + 1\<rparr>)"

definition task_context_init :: "u64 \<Rightarrow> u64 \<Rightarrow> TaskContext" where
  "task_context_init cptr ret = \<lparr>tc_ra = ret, tc_sp = cptr, tc_s = replicate 12 0\<rparr>"

definition proc_trap :: "nat \<Rightarrow> 'a kstate_scheme \<Rightarrow> 'a kstate_scheme res" where
  "proc_trap i s =
     bindE (kalloc s) (\<lambda>(ppn, s).
     Inr (upd_task i (\<lambda>p. p\<lparr>trap_cx_ppn := phys_addr_from_phys_page_num ppn,
       task_context := \<lparr>tc_ra = 0, tc_sp = 0, tc_s = replicate 12 0\<rparr>\<rparr>) s))"

definition proc_pagetable :: "linker \<Rightarrow> nat \<Rightarrow> 'a kstate_scheme \<Rightarrow> 'a kstate_scheme res" where
  "proc_pagetable lk i s =
     bindE (kalloc s) (\<lambda>(root, s).
     let pt = \<lparr>root_ppn = root\<rparr> in
     bindE (PageTable_map s pt (virt_addr_from_size_t TRAMPOLINE) (phys_addr_from_size_t (trampoline lk))
       PAGE_SIZE (PTE_R OR PTE_X)) (\<lambda>s.
     bindE (PageTable_map s pt (virt_addr_from_size_t TRAPFRAME) (phys_addr_from_size_t (trap_cx_ppn (task s i)))
       PAGE_SIZE (PTE_R OR PTE_W)) (\<lambda>s.
     Inr (upd_task i (\<lambda>p. p\<lparr>pagetable := pt\<rparr>) s))))"

definition task_create_pt :: "linker \<Rightarrow> nat \<Rightarrow> 'a kstate_scheme \<Rightarrow> (nat \<times> 'a kstate_scheme) res" where
  "task_create_pt lk app_id s =
     (if \<not> app_id < MAX_TASK_NUM then Inl OutOfRange
      else if top s < int MAX_TASK_NUM then
        bindE (proc_trap app_id s) (\<lambda>s.
        bindE (proc_pagetable lk app_id s) (\<lambda>s.
        Inr (app_id, s\<lparr>top := top s + 1\<rparr>)))
      else Inr (app_id, s))"

definition get_current_trap_stack :: "'a kstate_scheme \<Rightarrow> u64" where
  "get_current_trap_stack s = trap_cx_ppn (task s (cur s))"

definition current_user_token :: "'a kstate_scheme \<Rightarrow> u64" where
  "current_user_token s = MAKE_SATP (root_ppn (pagetable (task s (cur s))))"

definition procinit :: "'a kstate_scheme \<Rightarrow> 'a kstate_scheme" where
  "procinit s = s\<lparr>tasks := map (\<lambda>p. p\<lparr>task_state := UnInit\<rparr>) (tasks s)\<rparr>"

text \<open>\<^verbatim>\<open>alloc_proc\<close> takes the first free slot; \<open>None\<close> is its \<^verbatim>\<open>NULL\<close>.\<close>

definition alloc_proc :: "linker \<Rightarrow> 'a kstate_scheme \<Rightarrow> (nat option \<times> 'a kstate_scheme) res" where
  "alloc_proc lk s =
     (case find (\<lambda>i. task_state (task s i) = UnInit) [0..<MAX_TASK_NUM] of
        None \<Rightarrow> Inr (None, s)
      | Some i \<Rightarrow>
          (case alloc_pid s of (n, s) \<Rightarrow>
             let s = upd_task i (\<lambda>p. p\<lparr>pid := n, task_state := Ready\<rparr>) s in
             bindE (proc_trap i s) (\<lambda>s.
             bindE (proc_pagetable lk i s) (\<lambda>s.
             Inr (Some i, s\<lparr>top := top s + 1\<rparr>)))))"

section \<open>Copying and releasing an address space\<close>

text \<open>
  One round of the loop in \<^verbatim>\<open>uvm_copy\<close>, then the loop. The counter would wrap only for
  sizes beyond \<open>2 ^ 64 - 4096\<close>, for which the code never leaves the loop.
\<close>

definition uvm_copy_page :: "PageTable \<Rightarrow> PageTable \<Rightarrow> u64 \<Rightarrow> 'a pmem_scheme \<Rightarrow> 'a pmem_scheme res" where
  "uvm_copy_page father child i s =
     (case find_pte (mem s) father (floor_virts (virt_addr_from_size_t i)) of
        None \<Rightarrow> Inr s
      | Some pte \<Rightarrow>
          let phyadd = PTE_PA (read64 (mem s) pte); flags = ucast (PTE_FLAGS (read64 (mem s) pte)) in
          bindE (kalloc s) (\<lambda>(ppn, s).
          let child_phyadd = phys_addr_from_phys_page_num ppn;
              s = s\<lparr>mem := memcpy (mem s) child_phyadd phyadd PAGE_SIZE\<rparr>
          in PageTable_map s child (virt_addr_from_size_t i) child_phyadd PAGE_SIZE flags))"

function uvm_copy_loop :: "PageTable \<Rightarrow> PageTable \<Rightarrow> u64 \<Rightarrow> u64 \<Rightarrow> 'a pmem_scheme \<Rightarrow> 'a pmem_scheme res" where
  "uvm_copy_loop father child i sz s =
     (if i < sz then
        bindE (uvm_copy_page father child i s) (\<lambda>s.
        if i < i + PAGE_SIZE then uvm_copy_loop father child (i + PAGE_SIZE) sz s else Inl OutOfFuel)
      else Inr s)"
  by pat_completeness auto
termination
proof (relation "measure (\<lambda>(f, c, i, sz, s). unat sz - unat i)", goal_cases)
  case (2 father child i sz s s')
  then show ?case by (auto simp: word_less_nat_alt)
qed simp

declare uvm_copy_loop.simps [simp del]

definition uvm_copy :: "PageTable \<Rightarrow> PageTable \<Rightarrow> u64 \<Rightarrow> 'a pmem_scheme \<Rightarrow> 'a pmem_scheme res" where
  "uvm_copy father child sz s = uvm_copy_loop father child 0 sz s"

definition child_proc_mv :: "nat \<Rightarrow> 'a kstate_scheme \<Rightarrow> 'a kstate_scheme" where
  "child_proc_mv p s =
     s\<lparr>tasks := map (\<lambda>i. if parent i = Some p then i\<lparr>parent := Some 0\<rparr> else i) (tasks s)\<rparr>"

definition free_child :: "nat \<Rightarrow> 'a kstate_scheme \<Rightarrow> 'a kstate_scheme res" where
  "free_child c s =
     (let pt = pagetable (task s c); sz = base_size (task s c) in
      bindE (page_unmap_free s pt (floor_virts (virt_addr_from_size_t TRAMPOLINE)) 1 False) (\<lambda>s.
      bindE (page_unmap_free s pt (floor_virts (virt_addr_from_size_t TRAPFRAME)) 1 True) (\<lambda>s.
      bindE (exec_free_lowhalf s pt sz) (\<lambda>s.
      Inr (upd_task c (\<lambda>p. p\<lparr>pagetable := \<lparr>root_ppn = 0\<rparr>, trap_cx_ppn := 0, base_size := 0, parent := None,
        ustack := 0, entry := 0, task_state := UnInit, exit_code := 0\<rparr>) s)))))"

section \<open>The scheduler\<close>

text \<open>
  \<^verbatim>\<open>__sys_yield\<close>: the result says whether \<^verbatim>\<open>__switch\<close> was called, that is whether
  the processor now runs the kernel context of the task \<^verbatim>\<open>_current\<close>. The next index is
  taken modulo \<^verbatim>\<open>_top\<close> and only that slot is tried.
\<close>

definition sys_yield :: "'a kstate_scheme \<Rightarrow> (bool \<times> 'a kstate_scheme) res" where
  "sys_yield s =
     (if top s \<le> 0 then Inl (Panic ''no task is running. can not yield'')
      else let next = nat ((current s + 1) mod top s) in
        if \<not> next < MAX_TASK_NUM then Inl OutOfRange
        else if task_state (task s next) = Ready \<or> task_state (task s next) = Running then
          let s = upd_task next (\<lambda>p. p\<lparr>task_state := Running\<rparr>) s;
              s = (if task_state (task s (cur s)) = Running
                   then upd_task (cur s) (\<lambda>p. p\<lparr>task_state := Ready\<rparr>) s else s)
          in Inr (True, s\<lparr>current := int next\<rparr>)
        else Inr (False, s))"

definition exit_current_and_run_next :: "u64 \<Rightarrow> 'a kstate_scheme \<Rightarrow> (bool \<times> 'a kstate_scheme) res" where
  "exit_current_and_run_next code s =
     (let p = cur s in
      if pid (task s p) = 0 then Inl (Panic ''error:init exiting'')
      else
        let s = upd_task p (\<lambda>t. t\<lparr>exit_code := code, task_state := Zombie\<rparr>) s;
            s = child_proc_mv p s
        in bindE (sys_yield (s\<lparr>top := top s - 1\<rparr>)) (\<lambda>(switched, s).
           if switched then Inr (True, s) else Inl (Panic ''Zombie exit failed'')))"

text \<open>\<^verbatim>\<open>start_task\<close> marks task 0 and switches to its context.\<close>

definition start_task :: "'a kstate_scheme \<Rightarrow> 'a kstate_scheme" where
  "start_task s = upd_task 0 (\<lambda>p. p\<lparr>task_state := Running\<rparr>) s"

section \<open>What the memory operations keep\<close>

text \<open>
  The operations on memory, allocator and page tables change no field beyond the physical
  memory record.
\<close>

named_theorems keeps \<open>operations that change the physical memory record only\<close>

lemma alloc_keeps [keeps]: "StackFrameAllocator_alloc s = Inr (f, t) \<Longrightarrow> pmem.more t = pmem.more s"
  by (auto simp: StackFrameAllocator_alloc_def Let_def res_simps split: if_splits prod.splits)

lemma kalloc_keeps [keeps]: "kalloc s = Inr (f, t) \<Longrightarrow> pmem.more t = pmem.more s"
  by (simp add: kalloc_def alloc_keeps)

lemma kfree_keeps [keeps]: "kfree s p = Inr t \<Longrightarrow> pmem.more t = pmem.more s"
  by (auto simp: kfree_def StackFrameAllocator_dealloc_def Let_def kprintf_def split: if_splits prod.splits)

lemma ensure_entry_keeps [keeps]: "ensure_entry s ptr = Inr t \<Longrightarrow> pmem.more t = pmem.more s"
  by (auto simp: ensure_entry_def res_simps keeps split: if_splits)

lemma map_per_page_keeps [keeps]: "PageTable_map_per_page s pt v p fl = Inr t \<Longrightarrow> pmem.more t = pmem.more s"
  by (auto simp: PageTable_map_per_page_def find_pte_create_levels Let_def res_simps keeps split: if_splits)

lemma map_loop_keeps: "PageTable_map_loop s pt v p lim fl = Inr t \<Longrightarrow> pmem.more t = pmem.more s"
proof (induction s pt v p lim fl rule: PageTable_map_loop.induct)
  case (1 s pt v p lim fl)
  from "1.prems" obtain u where u: "PageTable_map_per_page s pt v p fl = Inr u"
    "(if v + 1 \<le> lim div PAGE_SIZE then PageTable_map_loop u pt (v + 1) (p + 1) lim fl else Inr u) = Inr t"
    by (subst (asm) PageTable_map_loop.simps) (elim bindE_InrE)
  with "1.IH" [OF u(1)] map_per_page_keeps [OF u(1)] show ?case by (auto split: if_splits)
qed

lemma PageTable_map_keeps [keeps]: "PageTable_map s pt va pa sz fl = Inr t \<Longrightarrow> pmem.more t = pmem.more s"
  by (auto simp: PageTable_map_def dest!: map_loop_keeps split: if_splits)

lemma page_unmap_free_loop_keeps: "page_unmap_free_loop s pt i lim free = Inr t \<Longrightarrow> pmem.more t = pmem.more s"
proof (induction s pt i lim free rule: page_unmap_free_loop.induct)
  case (1 s pt i lim free)
  from "1.prems" show ?case
    by (subst (asm) page_unmap_free_loop.simps)
      (auto simp: res_simps Let_def keeps dest!: "1.IH" split: if_splits option.splits)
qed

lemma page_unmap_free_keeps [keeps]: "page_unmap_free s pt v n free = Inr t \<Longrightarrow> pmem.more t = pmem.more s"
  unfolding page_unmap_free_def by (rule page_unmap_free_loop_keeps)

lemma free_page_table_keeps [keeps]: "free_page_table n s p = Inr t \<Longrightarrow> pmem.more t = pmem.more s"
proof (induction n arbitrary: s p t)
  case (Suc n)
  from Suc.prems obtain u where u: "kfree u p = Inr t" "foldE (free_entry n p) [0..<512] s = Inr u"
    unfolding free_page_table_entries by (elim bindE_InrE)
  have "pmem.more u = pmem.more s"
    by (rule foldE_invariant [OF u(2), where P = "\<lambda>x. pmem.more x = pmem.more s"])
      (auto simp: free_entry_def res_simps dest!: Suc.IH split: if_splits option.splits)
  with u(1) show ?case by (simp add: kfree_keeps)
qed simp

lemma exec_free_lowhalf_keeps [keeps]: "exec_free_lowhalf s pt sz = Inr t \<Longrightarrow> pmem.more t = pmem.more s"
  by (auto simp: exec_free_lowhalf_def res_simps keeps split: if_splits)

lemma free_proc_memory_keeps [keeps]: "free_proc_memory s pt sz = Inr t \<Longrightarrow> pmem.more t = pmem.more s"
  by (auto simp: free_proc_memory_def res_simps keeps)

lemma uvm_copy_page_keeps [keeps]: "uvm_copy_page f c i s = Inr t \<Longrightarrow> pmem.more t = pmem.more s"
  by (auto simp: uvm_copy_page_def Let_def res_simps keeps split: option.splits)

lemma uvm_copy_keeps [keeps]: "uvm_copy f c sz s = Inr t \<Longrightarrow> pmem.more t = pmem.more s"
proof -
  have "uvm_copy_loop f c i sz s = Inr t \<Longrightarrow> pmem.more t = pmem.more s" for i
  proof (induction f c i sz s rule: uvm_copy_loop.induct)
    case (1 f c i sz s)
    from "1.prems" show ?case
      by (subst (asm) uvm_copy_loop.simps) (auto simp: res_simps keeps dest!: "1.IH" split: if_splits)
  qed
  then show "uvm_copy f c sz s = Inr t \<Longrightarrow> ?thesis" by (simp add: uvm_copy_def)
qed

lemma more_fields:
  fixes s t :: "'a kstate_scheme"
  assumes "pmem.more t = pmem.more s"
  shows "tasks t = tasks s" "current t = current s" "top t = top s" "next_pid t = next_pid s"
    "kernel_pagetable t = kernel_pagetable s" "sstatus t = sstatus s" "sie t = sie s" "stvec t = stvec s"
    "satp t = satp s" "app_names t = app_names s" "kstate.more t = kstate.more s"
  using assms by (cases s; cases t; simp)+

lemma proc_pagetable_parts:
  assumes "proc_pagetable lk i s = Inr t"
  obtains r a b u where "kalloc s = Inr (r, a)"
    and "PageTable_map a \<lparr>root_ppn = r\<rparr> (virt_addr_from_size_t TRAMPOLINE) (phys_addr_from_size_t (trampoline lk))
      PAGE_SIZE (PTE_R OR PTE_X) = Inr b"
    and "PageTable_map b \<lparr>root_ppn = r\<rparr> (virt_addr_from_size_t TRAPFRAME)
      (phys_addr_from_size_t (trap_cx_ppn (task b i))) PAGE_SIZE (PTE_R OR PTE_W) = Inr u"
    and "t = upd_task i (\<lambda>p. p\<lparr>pagetable := \<lparr>root_ppn = r\<rparr>\<rparr>) u"
  using assms by (auto simp: proc_pagetable_def Let_def res_simps)

lemma free_child_parts:
  assumes "free_child c s = Inr t"
  obtains u v w where
    "page_unmap_free s (pagetable (task s c)) (floor_virts (virt_addr_from_size_t TRAMPOLINE)) 1 False = Inr u"
    "page_unmap_free u (pagetable (task s c)) (floor_virts (virt_addr_from_size_t TRAPFRAME)) 1 True = Inr v"
    "exec_free_lowhalf v (pagetable (task s c)) (base_size (task s c)) = Inr w"
    "t = upd_task c (\<lambda>p. p\<lparr>pagetable := \<lparr>root_ppn = 0\<rparr>, trap_cx_ppn := 0, base_size := 0, parent := None,
        ustack := 0, entry := 0, task_state := UnInit, exit_code := 0\<rparr>) w"
  using assms by (auto simp: free_child_def Let_def elim!: bindE_InrE)

end
