(* ===== verification/Kstring.thy ===== *)
theory Kstring
  imports Memory
begin

text \<open>
  C strings in memory: \<^verbatim>\<open>strlen\<close>, \<^verbatim>\<open>strcmp\<close> and \<^verbatim>\<open>uart_puts\<close> of
  \<^verbatim>\<open>os/src/printf.c\<close>, \<^verbatim>\<open>strncat\<close> and \<^verbatim>\<open>user_strlen\<close> of
  \<^verbatim>\<open>os/lib/user_print.c\<close>. Each loop runs until a zero byte, so each is a partial
  function whose value is \<open>None\<close> when it never returns; the lemmas say when it returns and
  relate it to the list of bytes before the zero. Plain \<^verbatim>\<open>char\<close> is unsigned on RISC-V.
\<close>

section \<open>The loops\<close>

partial_function (option) cstr :: "memory \<Rightarrow> u64 \<Rightarrow> u8 list option" where
  "cstr m a = (if m a = 0 then Some [] else Option.bind (cstr m (a + 1)) (\<lambda>bs. Some (m a # bs)))"

partial_function (option) strlen_loop :: "memory \<Rightarrow> u64 \<Rightarrow> u64 option" where
  "strlen_loop m ptr = (if m ptr \<noteq> 0 then strlen_loop m (ptr + 1) else Some ptr)"

definition strlen :: "memory \<Rightarrow> u64 \<Rightarrow> u64 option" where
  "strlen m str = map_option (\<lambda>ptr. ptr - str) (strlen_loop m str)"

text \<open>\<^verbatim>\<open>user_strlen\<close> returns an \<^verbatim>\<open>int\<close>.\<close>

definition user_strlen :: "memory \<Rightarrow> u64 \<Rightarrow> u32 option" where
  "user_strlen m str = map_option (\<lambda>ptr. ucast (ptr - str)) (strlen_loop m str)"

partial_function (option) strcmp :: "memory \<Rightarrow> u64 \<Rightarrow> u64 \<Rightarrow> int option" where
  "strcmp m lstr rstr =
     (if m lstr = m rstr \<and> m lstr \<noteq> 0 \<and> m rstr \<noteq> 0 then strcmp m (lstr + 1) (rstr + 1)
      else Some (if m lstr < m rstr then -1 else if m lstr > m rstr then 1 else 0))"

text \<open>\<^verbatim>\<open>uart_puts\<close> sends every byte to the firmware's console.\<close>

partial_function (option) uart_puts :: "memory \<Rightarrow> u64 \<Rightarrow> kevent list option" where
  "uart_puts m s =
     (if m s \<noteq> 0 then Option.bind (uart_puts m (s + 1)) (\<lambda>out. Some (SbiPutchar (m s) # out))
      else Some [])"

text \<open>\<^verbatim>\<open>strncat\<close>: find the end of \<open>dest\<close>, copy at most \<open>n\<close> bytes, terminate.\<close>

fun strncat_copy :: "memory \<Rightarrow> u64 \<Rightarrow> u64 \<Rightarrow> nat \<Rightarrow> memory \<times> u64" where
  "strncat_copy m dest src 0 = (m, dest)"
| "strncat_copy m dest src (Suc n) =
     (if m src \<noteq> 0 then strncat_copy (m(dest := m src)) (dest + 1) (src + 1) n else (m, dest))"

definition strncat :: "memory \<Rightarrow> u64 \<Rightarrow> u64 \<Rightarrow> u32 \<Rightarrow> memory option" where
  "strncat m dest src n =
     map_option (\<lambda>dest. case strncat_copy m dest src (nat (sint n)) of (m, dest) \<Rightarrow> m(dest := 0))
       (strlen_loop m dest)"

section \<open>Strings as byte lists\<close>

fun string_at :: "memory \<Rightarrow> u64 \<Rightarrow> u8 list \<Rightarrow> bool" where
  "string_at m a [] \<longleftrightarrow> m a = 0"
| "string_at m a (b # bs) \<longleftrightarrow> m a = b \<and> b \<noteq> 0 \<and> string_at m (a + 1) bs"

lemma string_at_unique: "string_at m a bs \<Longrightarrow> string_at m a cs \<Longrightarrow> bs = cs"
proof (induction bs arbitrary: a cs)
  case Nil
  then show ?case by (cases cs) auto
next
  case (Cons b bs)
  then show ?case by (cases cs) auto
qed

lemma cstr_iff: "cstr m a = Some bs \<longleftrightarrow> string_at m a bs"
proof (induction bs arbitrary: a)
  case Nil
  then show ?case by (subst cstr.simps) (auto simp: bind_eq_Some_conv)
next
  case (Cons b bs)
  then show ?case by (subst cstr.simps) (auto simp: bind_eq_Some_conv)
qed

lemma string_at_exists: "m (a + word_of_nat k) = 0 \<Longrightarrow> \<exists>bs. string_at m a bs"
proof (induction k arbitrary: a)
  case 0
  then show ?case by (intro exI [of _ "[]"]) simp
next
  case (Suc k)
  then have "m (a + 1 + word_of_nat k) = 0" by (simp add: add.assoc)
  from Suc.IH [OF this] obtain bs where bs: "string_at m (a + 1) bs" ..
  show ?case
  proof (cases "m a = 0")
    case True
    then show ?thesis by (intro exI [of _ "[]"]) simp
  next
    case False
    with bs show ?thesis by (intro exI [of _ "m a # bs"]) simp
  qed
qed

lemma string_at_end: "string_at m a bs \<Longrightarrow> m (a + word_of_nat (length bs)) = 0"
  by (induction bs arbitrary: a) (auto simp flip: add.assoc)

lemma string_at_nth: "string_at m a bs \<Longrightarrow> i < length bs \<Longrightarrow> m (a + word_of_nat i) = bs ! i \<and> bs ! i \<noteq> 0"
proof (induction bs arbitrary: a i)
  case (Cons b bs)
  then show ?case by (cases i) (auto simp flip: add.assoc)
qed simp

lemma string_atI:
  "(\<And>i. i < length bs \<Longrightarrow> m (a + word_of_nat i) = bs ! i \<and> bs ! i \<noteq> 0) \<Longrightarrow> m (a + word_of_nat (length bs)) = 0 \<Longrightarrow>
    string_at m a bs"
proof (induction bs arbitrary: a)
  case (Cons b bs)
  have "string_at m (a + 1) bs"
  proof (rule Cons.IH)
    show "m (a + 1 + word_of_nat i) = bs ! i \<and> bs ! i \<noteq> 0" if "i < length bs" for i
      using Cons.prems(1) [of "Suc i"] that by (simp add: add.assoc)
    show "m (a + 1 + word_of_nat (length bs)) = 0" using Cons.prems(2) by (simp add: add.assoc)
  qed
  then show ?case using Cons.prems(1) [of 0] by simp
qed simp

lemma string_at_cong:
  "(\<And>i. i \<le> length bs \<Longrightarrow> m' (a + word_of_nat i) = m (a + word_of_nat i)) \<Longrightarrow> string_at m' a bs = string_at m a bs"
proof (induction bs arbitrary: a)
  case Nil
  then show ?case using Nil [of 0] by simp
next
  case (Cons b bs)
  have "string_at m' (a + 1) bs = string_at m (a + 1) bs"
  proof (rule Cons.IH)
    show "m' (a + 1 + word_of_nat i) = m (a + 1 + word_of_nat i)" if "i \<le> length bs" for i
      using Cons.prems [of "Suc i"] that by (simp add: add.assoc)
  qed
  then show ?case using Cons.prems [of 0] by simp
qed

text \<open>Each loop returns exactly when there is a string.\<close>

lemma strlen_loop_iff:
  "strlen_loop m a = Some p \<longleftrightarrow> (\<exists>bs. string_at m a bs \<and> p = a + word_of_nat (length bs))"
proof
  assume "strlen_loop m a = Some p"
  then show "\<exists>bs. string_at m a bs \<and> p = a + word_of_nat (length bs)"
  proof (induction rule: strlen_loop.raw_induct [rotated, consumes 1])
    case (1 loop m a p)
    show ?case
    proof (cases "m a = 0")
      case True
      with 1 show ?thesis by (intro exI [of _ "[]"]) simp
    next
      case False
      with 1(2) have "loop m (a + 1) = Some p" by simp
      from 1(1) [OF this] obtain bs
        where "string_at m (a + 1) bs" "p = a + 1 + word_of_nat (length bs)" by blast
      with False show ?thesis by (intro exI [of _ "m a # bs"]) (simp add: add.assoc)
    qed
  qed
next
  assume "\<exists>bs. string_at m a bs \<and> p = a + word_of_nat (length bs)"
  then obtain bs where "string_at m a bs" "p = a + word_of_nat (length bs)" by blast
  then show "strlen_loop m a = Some p"
  proof (induction bs arbitrary: a)
    case Nil
    then show ?case by (subst strlen_loop.simps) simp
  next
    case (Cons b bs)
    then show ?case by (subst strlen_loop.simps) (simp add: add.assoc)
  qed
qed

lemma uart_puts_string: "string_at m a bs \<Longrightarrow> uart_puts m a = Some (map SbiPutchar bs)"
proof (induction bs arbitrary: a)
  case Nil
  then show ?case by (subst uart_puts.simps) simp
next
  case (Cons b bs)
  then show ?case by (subst uart_puts.simps) simp
qed

lemma strcmp_strings:
  assumes "string_at m l xs" and "string_at m r ys"
  shows "strcmp m l r = Some (if xs = ys then 0 else if (xs, ys) \<in> lexord {(x, y). x < y} then -1 else 1)"
  using assms
proof (induction xs arbitrary: l r ys)
  case Nil
  then show ?case by (cases ys; subst strcmp.simps) (auto simp: word_gt_0)
next
  case (Cons x xs)
  show ?case
  proof (cases ys)
    case Nil
    with Cons.prems show ?thesis by (subst strcmp.simps) (auto simp: word_gt_0)
  next
    case (Cons y zs)
    with Cons.IH [of "l + 1" "r + 1" zs] Cons.prems show ?thesis
      by (subst strcmp.simps) auto
  qed
qed

lemma strncat_copy_result:
  assumes "string_at m src ys" and "n < 2 ^ 31" and "length ys < 2 ^ 32"
    and "\<And>i j. i \<le> n \<Longrightarrow> j \<le> length ys \<Longrightarrow> dest + word_of_nat i \<noteq> src + word_of_nat j"
  shows "strncat_copy m dest src n =
    ((\<lambda>x. if unat (x - dest) < min n (length ys) then ys ! unat (x - dest) else m x),
     dest + word_of_nat (min n (length ys)))"
  using assms
proof (induction n arbitrary: m dest src ys)
  case 0
  then show ?case by simp
next
  case (Suc n)
  show ?case
  proof (cases ys)
    case Nil
    with Suc.prems show ?thesis by simp
  next
    case (Cons y zs)
    have apart: "dest + word_of_nat i \<noteq> src + word_of_nat j" if "i \<le> Suc n" "j \<le> length ys" for i j
      using Suc.prems(4) that .
    have keep: "string_at (m(dest := y)) (src + 1) zs"
    proof -
      have "dest \<noteq> src + 1 + word_of_nat i" if "i \<le> length zs" for i
        using apart [of 0 "Suc i"] that Cons by (simp add: add.assoc)
      then have "string_at (m(dest := y)) (src + 1) zs = string_at m (src + 1) zs"
        by (intro string_at_cong) auto
      with Suc.prems(1) Cons show ?thesis by simp
    qed
    have IH: "strncat_copy (m(dest := y)) (dest + 1) (src + 1) n =
      ((\<lambda>x. if unat (x - (dest + 1)) < min n (length zs) then zs ! unat (x - (dest + 1)) else (m(dest := y)) x),
       dest + 1 + word_of_nat (min n (length zs)))"
    proof (rule Suc.IH [OF keep])
      show "dest + 1 + word_of_nat i \<noteq> src + 1 + word_of_nat j" if "i \<le> n" "j \<le> length zs" for i j
        using apart [of "Suc i" "Suc j"] that Cons by (simp add: add.assoc)
    qed (use Suc.prems(2,3) Cons in auto)
    have at: "(if unat (x - (dest + 1)) < min n (length zs) then zs ! unat (x - (dest + 1)) else (m(dest := y)) x) =
        (if unat (x - dest) < min (Suc n) (length ys) then ys ! unat (x - dest) else m x)" for x
    proof (cases "x = dest")
      case True
      have "unat (- 1 :: u64) = 2 ^ 64 - 1" by (simp add: unsigned_minus_1_eq_mask mask_eq_exp_minus_1)
      with True Suc.prems(2,3) show ?thesis by (simp add: Cons)
    next
      case False
      from unat_diff_Suc [OF this] False show ?thesis by (simp add: Cons)
    qed
    show ?thesis
      using IH Suc.prems(1) at Cons by (auto simp: fun_eq_iff add.assoc)
  qed
qed

text \<open>Offsets from a later base.\<close>

lemma unat_sub_offset:
  fixes x a :: u64
  assumes "l + k < 18446744073709551616"
  shows "unat (x - (a + word_of_nat l)) < k \<longleftrightarrow> l \<le> unat (x - a) \<and> unat (x - a) < l + k"
    and "l \<le> unat (x - a) \<Longrightarrow> unat (x - (a + word_of_nat l)) = unat (x - a) - l"
proof -
  have "unat (x - (a + word_of_nat l)) = unat (x - a - word_of_nat l)" by (simp add: algebra_simps)
  also have "\<dots> = (if l \<le> unat (x - a) then unat (x - a) - l else unat (x - a) + 2 ^ 64 - l)"
    using assms by (simp add: unat_sub_if' unat_word_of_nat64)
  finally have eq: "unat (x - (a + word_of_nat l)) =
      (if l \<le> unat (x - a) then unat (x - a) - l else unat (x - a) + 2 ^ 64 - l)" .
  show "unat (x - (a + word_of_nat l)) < k \<longleftrightarrow> l \<le> unat (x - a) \<and> unat (x - a) < l + k"
    using assms unfolding eq by auto
  show "unat (x - (a + word_of_nat l)) = unat (x - a) - l" if "l \<le> unat (x - a)" using that eq by simp
qed

lemma strncat_result:
  assumes "string_at m dest xs" and "string_at m src ys" and "length xs + length ys < 2 ^ 31" and "0 \<le> sint n"
    and "\<forall>i \<le> length xs + nat (sint n). \<forall>j \<le> length ys. dest + word_of_nat i \<noteq> src + word_of_nat j"
  shows "strncat m dest src n = Some (\<lambda>x.
    if length xs \<le> unat (x - dest) \<and> unat (x - dest) < length xs + min (nat (sint n)) (length ys)
    then ys ! (unat (x - dest) - length xs)
    else if unat (x - dest) = length xs + min (nat (sint n)) (length ys) then 0 else m x)"
proof -
  let ?n = "nat (sint n)" and ?e = "dest + word_of_nat (length xs)"
  let ?k = "min ?n (length ys)"
  have n: "?n < 2 ^ 31" using sint_lt [of n] by simp
  have "strncat_copy m ?e src ?n =
      ((\<lambda>x. if unat (x - ?e) < ?k then ys ! unat (x - ?e) else m x), ?e + word_of_nat ?k)"
  proof (rule strncat_copy_result [OF assms(2) n])
    show "length ys < 2 ^ 32" using assms(3) by simp
    show "?e + word_of_nat i \<noteq> src + word_of_nat j" if "i \<le> ?n" "j \<le> length ys" for i j
      using assms(5) [rule_format, of "length xs + i" j] that by (simp add: add.assoc)
  qed
  moreover have "length xs + ?k < 18446744073709551616" using assms(3) by simp
  note off = unat_sub_offset [OF this, of _ dest]
  moreover have "x = ?e + word_of_nat ?k \<longleftrightarrow> unat (x - dest) = length xs + ?k" for x
  proof -
    have "x = ?e + word_of_nat ?k \<longleftrightarrow> x - dest = word_of_nat (length xs + ?k)" by (auto simp: algebra_simps)
    also have "\<dots> \<longleftrightarrow> unat (x - dest) = length xs + ?k"
      using assms(3) by (simp add: word_unat_eq_iff unat_word_of_nat64 del: of_nat_add)
    finally show ?thesis .
  qed
  ultimately show ?thesis
    using assms(1) strlen_loop_iff [of m dest ?e] by (auto simp: strncat_def fun_eq_iff)
qed

section \<open>Properties\<close>

text \<open>
  \<^verbatim>\<open>strcmp\<close> on two terminated strings returns, and its result is the lexicographic
  comparison of the bytes before the terminators: 0 for equal strings, -1 when the first is
  smaller and 1 otherwise.
\<close>

lemma strcmp_lexicographic:
  assumes "string_at m l xs" and "string_at m r ys"
  shows "strcmp m l r = Some (if xs = ys then 0 else if (xs, ys) \<in> lexord {(x, y). x < y} then -1 else 1)"
  using assms by (rule strcmp_strings)

text \<open>
  \<^verbatim>\<open>strncat\<close> appends at most \<open>n\<close> bytes: with the two strings in separate
  memory it returns, afterwards \<open>dest\<close> holds the concatenation of its old string and the
  first \<open>n\<close> bytes of the source, and no byte outside the appended part has changed.
\<close>

lemma strncat_appends:
  assumes "string_at m dest xs" and "string_at m src ys" and "length xs + length ys < 2 ^ 31" and "0 \<le> sint n"
    and "\<forall>i \<le> length xs + nat (sint n). \<forall>j \<le> length ys. dest + word_of_nat i \<noteq> src + word_of_nat j"
  shows "\<exists>m'. strncat m dest src n = Some m' \<and> string_at m' dest (xs @ take (nat (sint n)) ys) \<and>
    (\<forall>x. \<not> (length xs \<le> unat (x - dest) \<and> unat (x - dest) \<le> length xs + min (nat (sint n)) (length ys)) \<longrightarrow> m' x = m x)"
proof -
  let ?k = "min (nat (sint n)) (length ys)"
  let ?m' = "\<lambda>x. if length xs \<le> unat (x - dest) \<and> unat (x - dest) < length xs + ?k
    then ys ! (unat (x - dest) - length xs) else if unat (x - dest) = length xs + ?k then 0 else m x"
  have "string_at ?m' dest (xs @ take (nat (sint n)) ys)"
  proof (rule string_atI)
    have len: "length (xs @ take (nat (sint n)) ys) = length xs + ?k" by simp
    show "?m' (dest + word_of_nat (length (xs @ take (nat (sint n)) ys))) = 0"
      unfolding len using assms(3) by (simp add: unat_word_of_nat64 del: of_nat_add)
    fix i assume "i < length (xs @ take (nat (sint n)) ys)"
    then have i: "i < length xs + ?k" by simp
    then have "unat (dest + word_of_nat i - dest) = i" using assms(3) by (simp add: unat_word_of_nat64)
    with i string_at_nth [OF assms(1), of i] string_at_nth [OF assms(2), of "i - length xs"]
    show "?m' (dest + word_of_nat i) = (xs @ take (nat (sint n)) ys) ! i \<and> (xs @ take (nat (sint n)) ys) ! i \<noteq> 0"
      by (simp add: nth_append)
  qed
  with strncat_result [OF assms] show ?thesis by auto
qed

end
