(* ===== verification/Loader.thy ===== *)
theory Loader
  imports Task Kstring
begin

text \<open>
  The application loader of \<^verbatim>\<open>os/src/loader.c\<close>: the table of the linked-in ELF images
  (at the linker symbols \<^verbatim>\<open>_num_app\<close> and \<^verbatim>\<open>_app_names\<close>), the check of an ELF
  header, and loading the segments of an image into fresh frames of a process. Headers are
  read from memory where the code reads them.
\<close>

section \<open>ELF headers\<close>

record AppMetadata =
  app_start :: u64
  app_size :: u64
  app_id :: u32

record elf64_ehdr_t =
  e_ident :: "u8 list"
  e_type :: u16
  e_machine :: u16
  e_version :: u32
  e_entry :: u64
  e_phoff :: u64
  e_shoff :: u64
  e_flags :: u32
  e_ehsize :: u16
  e_phentsize :: u16
  e_phnum :: u16
  e_shentsize :: u16
  e_shnum :: u16
  e_shstrndx :: u16

record elf64_phdr_t =
  p_type :: u32
  p_flags :: u32
  p_offset :: u64
  p_vaddr :: u64
  p_paddr :: u64
  p_filesz :: u64
  p_memsz :: u64
  p_align :: u64

definition ehdr_at :: "memory \<Rightarrow> u64 \<Rightarrow> elf64_ehdr_t" where
  "ehdr_at m a =
     \<lparr>e_ident = map (\<lambda>k. m (a + word_of_nat k)) [0..<16], e_type = read16 m (a + 16),
      e_machine = read16 m (a + 18), e_version = read32 m (a + 20), e_entry = read64 m (a + 24),
      e_phoff = read64 m (a + 32), e_shoff = read64 m (a + 40), e_flags = read32 m (a + 48),
      e_ehsize = read16 m (a + 52), e_phentsize = read16 m (a + 54), e_phnum = read16 m (a + 56),
      e_shentsize = read16 m (a + 58), e_shnum = read16 m (a + 60), e_shstrndx = read16 m (a + 62)\<rparr>"

definition phdr_at :: "memory \<Rightarrow> u64 \<Rightarrow> elf64_phdr_t" where
  "phdr_at m a =
     \<lparr>p_type = read32 m a, p_flags = read32 m (a + 4), p_offset = read64 m (a + 8),
      p_vaddr = read64 m (a + 16), p_paddr = read64 m (a + 24), p_filesz = read64 m (a + 32),
      p_memsz = read64 m (a + 40), p_align = read64 m (a + 48)\<rparr>"

abbreviation (input) ELFMAG :: u32 where "ELFMAG \<equiv> 0x464C457F"
abbreviation (input) EM_RISCV :: u16 where "EM_RISCV \<equiv> 0xF3"
abbreviation (input) EI_CLASS :: nat where "EI_CLASS \<equiv> 4"
abbreviation (input) ELFCLASS64 :: u8 where "ELFCLASS64 \<equiv> 2"
abbreviation (input) PT_LOAD :: u32 where "PT_LOAD \<equiv> 1"
abbreviation (input) PF_X :: u8 where "PF_X \<equiv> 0x1"
abbreviation (input) PF_W :: u8 where "PF_W \<equiv> 0x2"
abbreviation (input) PF_R :: u8 where "PF_R \<equiv> 0x4"

section \<open>The table of applications\<close>

definition get_num_app :: "linker \<Rightarrow> memory \<Rightarrow> u64" where
  "get_num_app lk m = read64 m (num_app_addr lk)"

definition get_app_data :: "linker \<Rightarrow> memory \<Rightarrow> u64 \<Rightarrow> AppMetadata res" where
  "get_app_data lk m i =
     (let num_app = get_num_app lk m;
          start = read64 m (num_app_addr lk + 8 * i);
          len = read64 m (num_app_addr lk + 8 * (i + 1)) - read64 m (num_app_addr lk + 8 * i)
      in if i \<le> num_app then Inr \<lparr>app_start = start, app_size = len, app_id = ucast i\<rparr>
         else Inl (AssertionFailure ''app_id <= num_app''))"

text \<open>
  \<^verbatim>\<open>get_app_names\<close> fills the array \<^verbatim>\<open>app_names\<close>; its counter is an
  \<^verbatim>\<open>int\<close>. The string that never ends is \<open>OutOfFuel\<close>.
\<close>

definition get_app_name :: "linker \<Rightarrow> nat \<Rightarrow> 'a kstate_scheme \<Rightarrow> 'a kstate_scheme res" where
  "get_app_name lk i s =
     bindE
       (if \<not> i < MAX_TASK_NUM then Inl OutOfRange
        else if i = 0 then Inr (s\<lparr>app_names := (app_names s)[0 := app_names_addr lk]\<rparr>)
        else (case strlen (mem s) (app_names s ! (i - 1)) of
                None \<Rightarrow> Inl OutOfFuel
              | Some len \<Rightarrow> Inr (s\<lparr>app_names := (app_names s)[i := app_names s ! (i - 1) + len + 1]\<rparr>)))
       (\<lambda>s. Inr (kprintf (''%s'' @ NL) [app_names s ! i] s))"

definition get_app_names :: "linker \<Rightarrow> 'a kstate_scheme \<Rightarrow> 'a kstate_scheme res" where
  "get_app_names lk s =
     (let app_num = ucast (get_num_app lk (mem s)) :: u32;
          s = kprintf (''<<<<<  Apps  >>>>>'' @ NL) [] s;
          s = kprintf (''num app:%d'' @ NL) [scast app_num] s
      in foldE (get_app_name lk) [0..<nat (sint app_num)] s)"

text \<open>
  \<^verbatim>\<open>get_app_data_by_name\<close> compares a \<^verbatim>\<open>size_t\<close> counter with the \<^verbatim>\<open>int\<close>
  \<^verbatim>\<open>app_num\<close>. The scan stops at the end of the array, where the code reads past it.
\<close>

fun app_by_name_loop ::
    "linker \<Rightarrow> u64 \<Rightarrow> u64 \<Rightarrow> nat \<Rightarrow> u64 list \<Rightarrow> 'a kstate_scheme \<Rightarrow> (AppMetadata \<times> 'a kstate_scheme) res" where
  "app_by_name_loop lk path app_num i ns s =
     (if word_of_nat i < app_num then
        (case ns of [] \<Rightarrow> Inl OutOfRange
         | a # ns \<Rightarrow>
             (case strcmp (mem s) path a of None \<Rightarrow> Inl OutOfFuel
              | Some c \<Rightarrow>
                  if c = 0 then
                    bindE (get_app_data lk (mem s) (word_of_nat i + 1)) (\<lambda>metadata.
                    Inr (metadata, kprintf (''find app:%s id:%d'' @ NL) [path, scast (app_id metadata)] s))
                  else app_by_name_loop lk path app_num (i + 1) ns s))
      else Inl (Panic (''no app found'' @ NL)))"

declare app_by_name_loop.simps [simp del]

definition get_app_data_by_name :: "linker \<Rightarrow> u64 \<Rightarrow> 'a kstate_scheme \<Rightarrow> (AppMetadata \<times> 'a kstate_scheme) res" where
  "get_app_data_by_name lk path s =
     (let app_num = ucast (get_num_app lk (mem s)) :: u32
      in app_by_name_loop lk path (scast app_num) 0 (app_names s) s)"

section \<open>Loading an image\<close>

definition flags_to_mmap_prot :: "u8 \<Rightarrow> u8" where
  "flags_to_mmap_prot flags =
     (if flags AND PF_R \<noteq> 0 then PTE_R else 0) OR
     (if flags AND PF_W \<noteq> 0 then PTE_W else 0) OR
     (if flags AND PF_X \<noteq> 0 then PTE_X else 0)"

definition elf_check :: "memory \<Rightarrow> u64 \<Rightarrow> unit res" where
  "elf_check m ehdr =
     (if read32 m ehdr \<noteq> ELFMAG then Inl (AssertionFailure ''*(u32 *)ehdr==ELFMAG'')
      else if e_machine (ehdr_at m ehdr) \<noteq> EM_RISCV \<or> e_ident (ehdr_at m ehdr) ! EI_CLASS \<noteq> ELFCLASS64
      then Inl (Panic ''only riscv64 elf file is supported'')
      else Inr ())"

text \<open>
  The body of the inner loop of \<^verbatim>\<open>load_segment\<close> for the offset \<open>j\<close>, the body of its
  outer loop for one program header, and the whole. The bound of the inner loop is a
  multiple of the page size, so its counter takes the values \<open>0, PAGE_SIZE, \<dots>\<close> below it;
  the bound of the outer loop is read again in every round and is below \<open>2 ^ 16\<close>.
\<close>

definition load_page :: "u64 \<Rightarrow> u64 \<Rightarrow> PageTable \<Rightarrow> u64 \<Rightarrow> u8 \<Rightarrow> u64 \<Rightarrow> 'a pmem_scheme \<Rightarrow> 'a pmem_scheme res" where
  "load_page ehdr phdr pt start_va map_perm j s =
     bindE (kalloc s) (\<lambda>(ppn, s).
     let paddr = phys_addr_from_phys_page_num ppn;
         s = s\<lparr>mem := memcpy (mem s) paddr (ehdr + p_offset (phdr_at (mem s) phdr) + j) PAGE_SIZE\<rparr>
     in PageTable_map s pt (virt_addr_from_size_t (start_va + j)) paddr PAGE_SIZE map_perm)"

definition load_phdr :: "u64 \<Rightarrow> nat \<Rightarrow> u64 \<Rightarrow> 'a kstate_scheme \<Rightarrow> 'a kstate_scheme res" where
  "load_phdr ehdr proc phdr s =
     (if p_type (phdr_at (mem s) phdr) = PT_LOAD then
        let start_va = p_vaddr (phdr_at (mem s) phdr);
            s = upd_task proc (\<lambda>p. p\<lparr>ustack := start_va + p_memsz (phdr_at (mem s) phdr)\<rparr>) s;
            map_perm = PTE_U OR flags_to_mmap_prot (ucast (p_flags (phdr_at (mem s) phdr)));
            map_size = PGROUNDUP (p_memsz (phdr_at (mem s) phdr))
        in foldE (\<lambda>k. load_page ehdr phdr (pagetable (task s proc)) start_va map_perm (word_of_nat k * PAGE_SIZE))
             [0..<unat (map_size div PAGE_SIZE)] s
      else Inr s)"

function load_segment_loop :: "u64 \<Rightarrow> nat \<Rightarrow> nat \<Rightarrow> 'a kstate_scheme \<Rightarrow> 'a kstate_scheme res" where
  "load_segment_loop ehdr proc i s =
     (if i < unat (e_phnum (ehdr_at (mem s) ehdr)) then
        let phdr = e_phoff (ehdr_at (mem s) ehdr) + ucast (e_phentsize (ehdr_at (mem s) ehdr)) * word_of_nat i + ehdr
        in bindE (load_phdr ehdr proc phdr s) (load_segment_loop ehdr proc (i + 1))
      else Inr s)"
  by pat_completeness auto
termination
proof (relation "measure (\<lambda>(ehdr, proc, i, s). 65536 - i)", goal_cases)
  case (2 ehdr proc i s phdr t)
  have "unat (e_phnum (ehdr_at (mem s) ehdr)) < 65536"
    using unsigned_less [of "e_phnum (ehdr_at (mem s) ehdr)"] by simp
  with 2 show ?case by simp
qed simp

declare load_segment_loop.simps [simp del]

definition load_segment :: "u64 \<Rightarrow> nat \<Rightarrow> 'a kstate_scheme \<Rightarrow> 'a kstate_scheme res" where
  "load_segment ehdr proc s =
     bindE (load_segment_loop ehdr proc 0 s) (\<lambda>s.
     let s = upd_task proc (\<lambda>p. p\<lparr>ustack := 2 * PAGE_SIZE + PGROUNDUP (ustack p)\<rparr>) s;
         s = upd_task proc (\<lambda>p. p\<lparr>base_size := ustack p\<rparr>) s
     in bindE (kalloc s) (\<lambda>(ppn, s).
     let paddr = phys_addr_from_phys_page_num ppn
     in PageTable_map s (pagetable (task s proc)) (virt_addr_from_size_t (ustack (task s proc) - PAGE_SIZE))
          paddr PAGE_SIZE (PTE_R OR PTE_W OR PTE_U)))"

definition load_app :: "linker \<Rightarrow> nat \<Rightarrow> 'a kstate_scheme \<Rightarrow> 'a kstate_scheme res" where
  "load_app lk i s =
     bindE (get_app_data lk (mem s) (word_of_nat i + 1)) (\<lambda>metadata.
     let ehdr = app_start metadata in
     bindE (elf_check (mem s) ehdr) (\<lambda>_.
     bindE (task_create_pt lk i s) (\<lambda>(tcb, s).
     load_segment ehdr tcb (upd_task tcb (\<lambda>p. p\<lparr>entry := e_entry (ehdr_at (mem s) ehdr)\<rparr>) s))))"

end
