(* ===== verification/Trap.thy ===== *)
theory Trap
  imports Loader
begin

text \<open>
  Traps and system calls: \<^verbatim>\<open>os/src/trap.c\<close>, \<^verbatim>\<open>os/include/trap.h\<close>,
  \<^verbatim>\<open>os/src/timer.c\<close>, \<^verbatim>\<open>os/src/sbi.c\<close> and the register save and restore of
  \<^verbatim>\<open>os/src/kerneltrap.S\<close>. The kernel gives up the processor only in
  \<^verbatim>\<open>__switch\<close>, so a suspended kernel stack is one of the few places that call
  \<^verbatim>\<open>__sys_yield\<close>; the type \<open>kcont\<close> names them with the local variables that are
  live there, and \<open>resume\<close> runs the code from such a place up to the next switch or the return
  to user mode. The clock and the console input are arguments.
\<close>

section \<open>The trap context\<close>

datatype TrapContext =
    CX_x0 | CX_ra | CX_sp | CX_gp | CX_tp | CX_t0 | CX_t1 | CX_t2 | CX_s0 | CX_s1
  | CX_a0 | CX_a1 | CX_a2 | CX_a3 | CX_a4 | CX_a5 | CX_a6 | CX_a7
  | CX_s2 | CX_s3 | CX_s4 | CX_s5 | CX_s6 | CX_s7 | CX_s8 | CX_s9 | CX_s10 | CX_s11
  | CX_t3 | CX_t4 | CX_t5 | CX_t6
  | CX_sstatus | CX_sepc | CX_kernel_satp | CX_kernel_sp | CX_trap_handler

text \<open>The fields are 64-bit and contiguous, in the order of the declaration.\<close>

primrec cx_index :: "TrapContext \<Rightarrow> nat" where
  "cx_index CX_x0 = 0" | "cx_index CX_ra = 1" | "cx_index CX_sp = 2" | "cx_index CX_gp = 3"
| "cx_index CX_tp = 4" | "cx_index CX_t0 = 5" | "cx_index CX_t1 = 6" | "cx_index CX_t2 = 7"
| "cx_index CX_s0 = 8" | "cx_index CX_s1 = 9" | "cx_index CX_a0 = 10" | "cx_index CX_a1 = 11"
| "cx_index CX_a2 = 12" | "cx_index CX_a3 = 13" | "cx_index CX_a4 = 14" | "cx_index CX_a5 = 15"
| "cx_index CX_a6 = 16" | "cx_index CX_a7 = 17" | "cx_index CX_s2 = 18" | "cx_index CX_s3 = 19"
| "cx_index CX_s4 = 20" | "cx_index CX_s5 = 21" | "cx_index CX_s6 = 22" | "cx_index CX_s7 = 23"
| "cx_index CX_s8 = 24" | "cx_index CX_s9 = 25" | "cx_index CX_s10 = 26" | "cx_index CX_s11 = 27"
| "cx_index CX_t3 = 28" | "cx_index CX_t4 = 29" | "cx_index CX_t5 = 30" | "cx_index CX_t6 = 31"
| "cx_index CX_sstatus = 32" | "cx_index CX_sepc = 33" | "cx_index CX_kernel_satp = 34"
| "cx_index CX_kernel_sp = 35" | "cx_index CX_trap_handler = 36"

definition cx_addr :: "u64 \<Rightarrow> TrapContext \<Rightarrow> u64" where
  "cx_addr cx f = cx + 8 * word_of_nat (cx_index f)"

definition cx_get :: "memory \<Rightarrow> u64 \<Rightarrow> TrapContext \<Rightarrow> u64" where
  "cx_get m cx f = read64 m (cx_addr cx f)"

definition cx_set :: "u64 \<Rightarrow> TrapContext \<Rightarrow> u64 \<Rightarrow> 'a pmem_scheme \<Rightarrow> 'a pmem_scheme" where
  "cx_set cx f v s = s\<lparr>mem := write64 (mem s) (cx_addr cx f) v\<rparr>"

section \<open>The machine\<close>

text \<open>
  Where a suspended task stands in the kernel: about to return to user mode
  (\<^verbatim>\<open>trap_return\<close>, the start of a new task); after the \<^verbatim>\<open>__sys_yield\<close> of the timer
  interrupt; after the one of the system call; in the polling loop of \<^verbatim>\<open>__sys_getchar\<close>;
  in the loop of \<^verbatim>\<open>__sys_recycle\<close>.
\<close>

datatype kcont =
    KReturn
  | KTimer
  | KSyscall u64 u64
  | KGetchar u64 u64
  | KRecycle u64 nat

record kmachine = kstate +
  conts :: "kcont list"
  user_mode :: bool

section \<open>Timer and firmware calls\<close>

definition CLOCK_FREQ :: u64 where "CLOCK_FREQ = 10000000"
definition TICKS_PER_SEC :: u64 where "TICKS_PER_SEC = 1000"

definition sbi_set_timer :: "u64 \<Rightarrow> 'a pmem_scheme \<Rightarrow> 'a pmem_scheme" where
  "sbi_set_timer stime_value s = s\<lparr>console := console s @ [SbiSetTimer stime_value]\<rparr>"

definition set_next_trigger :: "u64 \<Rightarrow> 'a pmem_scheme \<Rightarrow> 'a pmem_scheme" where
  "set_next_trigger now s = sbi_set_timer (now + CLOCK_FREQ div TICKS_PER_SEC) s"

definition timer_init :: "'a kstate_scheme \<Rightarrow> 'a kstate_scheme" where
  "timer_init s =
     (let s = s\<lparr>sstatus := sstatus s OR push_bit 1 1\<rparr>
      in s\<lparr>sie := sie s OR push_bit 5 1\<rparr>)"

definition get_time_us :: "u64 \<Rightarrow> u64" where
  "get_time_us now = now div (CLOCK_FREQ div TICKS_PER_SEC)"

text \<open>The firmware answers in register \<^verbatim>\<open>a0\<close>, which the caller narrows to an \<^verbatim>\<open>int\<close>.\<close>

definition sbi_console_getchar :: "u64 \<Rightarrow> u32" where
  "sbi_console_getchar a0 = ucast a0"

section \<open>System calls\<close>

text \<open>\<^verbatim>\<open>uptr_to_kptr\<close> dereferences what \<^verbatim>\<open>find_pte\<close> returns.\<close>

definition uptr_to_kptr :: "'a kstate_scheme \<Rightarrow> u64 \<Rightarrow> u64 res" where
  "uptr_to_kptr s uptr =
     (case find_pte (mem s) (pagetable (task s (cur s)))
        (virt_page_num_from_virt_addr (virt_addr_from_size_t uptr)) of
        None \<Rightarrow> Inl NullDeref
      | Some pte \<Rightarrow>
          let pnn = drop_bit 10 (read64 (mem s) pte) AND (push_bit 44 1 - 1)
          in Inr (push_bit 12 pnn + (uptr AND (push_bit 12 1 - 1))))"

text \<open>
  Calling \<^verbatim>\<open>__sys_yield\<close> at a place \<open>c\<close> of the kernel: the task stays there and the
  processor goes on with the task that is now current, which is the same one when no switch
  happens.
\<close>

definition yield_at :: "kcont \<Rightarrow> 'a kmachine_scheme \<Rightarrow> 'a kmachine_scheme res" where
  "yield_at c s =
     bindE (sys_yield s) (\<lambda>(_, t). Inr (t\<lparr>conts := (conts t)[cur s := c], user_mode := False\<rparr>))"

definition set_user_trap_entry :: "'a kstate_scheme \<Rightarrow> 'a kstate_scheme" where
  "set_user_trap_entry s = s\<lparr>stvec := TRAMPOLINE\<rparr>"

definition set_kernel_trap_entry :: "linker \<Rightarrow> 'a kstate_scheme \<Rightarrow> 'a kstate_scheme" where
  "set_kernel_trap_entry lk s = s\<lparr>stvec := trap_from_kernel_addr lk\<rparr>"

text \<open>\<^verbatim>\<open>trap_return\<close> ends in \<^verbatim>\<open>__restore\<close>, which installs the page table of the user.\<close>

definition trap_return :: "'a kmachine_scheme \<Rightarrow> 'a kmachine_scheme" where
  "trap_return s =
     (let s = set_user_trap_entry s; user_satp = current_user_token s
      in s\<lparr>satp := user_satp, user_mode := True\<rparr>)"

text \<open>Storing the result of a system call through \<^verbatim>\<open>cx\<close>, then returning.\<close>

definition syscall_return :: "u64 \<Rightarrow> u64 \<Rightarrow> 'a kmachine_scheme \<Rightarrow> 'a kmachine_scheme" where
  "syscall_return cx v s = trap_return (cx_set cx CX_a0 v s)"

definition getchar_round :: "u64 \<Rightarrow> u64 \<Rightarrow> u64 \<Rightarrow> 'a kmachine_scheme \<Rightarrow> 'a kmachine_scheme res" where
  "getchar_round inp cx data s =
     (let c = sbi_console_getchar inp in
      if c \<noteq> - 1 then
        bindE (uptr_to_kptr s data) (\<lambda>str.
        Inr (syscall_return cx 0 (s\<lparr>mem := (mem s)(str := ucast c)\<rparr>)))
      else yield_at (KGetchar cx data) s)"

definition stdin :: u64 where "stdin = 0"

definition sys_getchar :: "u64 \<Rightarrow> u64 \<Rightarrow> u64 \<Rightarrow> u64 \<Rightarrow> 'a kmachine_scheme \<Rightarrow> 'a kmachine_scheme res" where
  "sys_getchar inp cx fd data s =
     (if fd = stdin then getchar_round inp cx data s else Inr (syscall_return cx 0 s))"

text \<open>
  The child after \<^verbatim>\<open>uvm_copy\<close>: its trap context and control block. The new task starts
  in \<^verbatim>\<open>trap_return\<close>, on its own kernel stack.
\<close>

definition fork_child :: "linker \<Rightarrow> nat \<Rightarrow> nat \<Rightarrow> 'a kmachine_scheme \<Rightarrow> 'a kmachine_scheme" where
  "fork_child lk fa ch s =
     (let s = s\<lparr>mem := memcpy (mem s) (trap_cx_ppn (task s ch)) (trap_cx_ppn (task s fa)) PAGE_SIZE\<rparr>;
          s = cx_set (trap_cx_ppn (task s ch)) CX_a0 0 s;
          s = cx_set (trap_cx_ppn (task s ch)) CX_kernel_sp (kstack (task s ch)) s;
          s = upd_task ch (\<lambda>p. p\<lparr>entry := entry (task s fa), base_size := base_size (task s fa),
                parent := Some fa, ustack := ustack (task s fa)\<rparr>) s;
          s = kprintf (''running task num:%d'' @ NL) [word_of_int (top s)] s;
          s = upd_task ch (\<lambda>p. p\<lparr>task_context := task_context_init (kstack p) (trap_return_addr lk)\<rparr>) s
      in s\<lparr>conts := (conts s)[ch := KReturn]\<rparr>)"

definition sys_fork :: "linker \<Rightarrow> 'a kmachine_scheme \<Rightarrow> (u32 \<times> 'a kmachine_scheme) res" where
  "sys_fork lk s =
     (let fa = cur s in
      bindE (alloc_proc lk s) (\<lambda>(c, s).
      case c of
        None \<Rightarrow> Inr (- 1, kprintf ''child_proc failed!'' [] s)
      | Some ch \<Rightarrow>
          bindE (uvm_copy (pagetable (task s fa)) (pagetable (task s ch)) (base_size (task s fa)) s) (\<lambda>s.
          let s = fork_child lk fa ch s in Inr (pid (task s ch), s))))"

definition sys_exec :: "linker \<Rightarrow> u64 \<Rightarrow> 'a kstate_scheme \<Rightarrow> 'a kstate_scheme res" where
  "sys_exec lk name s =
     bindE (get_app_data_by_name lk name s) (\<lambda>(metadata, s).
     let ehdr = app_start metadata in
     bindE (elf_check (mem s) ehdr) (\<lambda>_.
     let proc = cur s; old_pagetable = pagetable (task s proc); old_size = base_size (task s proc) in
     bindE (proc_pagetable lk proc s) (\<lambda>s.
     bindE (load_segment ehdr proc s) (\<lambda>s.
     let ctrap = trap_cx_ppn (task s proc);
         s = cx_set ctrap CX_sepc (e_entry (ehdr_at (mem s) ehdr)) s;
         s = cx_set ctrap CX_sp (ustack (task s proc)) s
     in free_proc_memory s old_pagetable old_size))))"

definition sys_exit :: "u64 \<Rightarrow> 'a kmachine_scheme \<Rightarrow> 'a kmachine_scheme res" where
  "sys_exit code s =
     bindE (exit_current_and_run_next code s) (\<lambda>(_, t). Inr (t\<lparr>user_mode := False\<rparr>))"

text \<open>One round of the loop of \<^verbatim>\<open>__sys_recycle\<close>.\<close>

definition recycle_round :: "u64 \<Rightarrow> nat \<Rightarrow> bool \<Rightarrow> 'a kmachine_scheme \<Rightarrow> 'a kmachine_scheme res" where
  "recycle_round cx father havechild s =
     (case find (\<lambda>i. parent (task s i) = Some father \<and> task_state (task s i) = Zombie) [0..<MAX_TASK_NUM] of
        Some c \<Rightarrow>
          let n = pid (task s c) in
          bindE (free_child c s) (\<lambda>s.
          Inr (syscall_return cx (scast n) (kprintf (''free pid:%d'' @ NL) [scast n] s)))
      | None \<Rightarrow>
          if \<not> (havechild \<or> list_ex (\<lambda>i. parent (task s i) = Some father) [0..<MAX_TASK_NUM])
          then Inr (syscall_return cx (- 1) (kprintf (''no child'' @ NL) [] s))
          else yield_at (KRecycle cx father) s)"

definition sys_recycle :: "u64 \<Rightarrow> 'a kmachine_scheme \<Rightarrow> 'a kmachine_scheme res" where
  "sys_recycle cx s = recycle_round cx (cur s) False s"

text \<open>
  \<^verbatim>\<open>__SYSCALL\<close> and the assignment \<^verbatim>\<open>cx->a0 = __SYSCALL(...)\<close> of its only caller.
\<close>

definition SYSCALL :: "linker \<Rightarrow> u64 \<Rightarrow> u64 \<Rightarrow> u64 \<Rightarrow> u64 \<Rightarrow> u64 \<Rightarrow> u64 \<Rightarrow> u64 \<Rightarrow>
    'a kmachine_scheme \<Rightarrow> 'a kmachine_scheme res" where
  "SYSCALL lk now inp cx sysid arg1 arg2 arg3 s =
     (if sysid = 1 then
        bindE (uptr_to_kptr s arg1) (\<lambda>str.
        case uart_puts (mem s) str of None \<Rightarrow> Inl OutOfFuel
        | Some out \<Rightarrow> Inr (syscall_return cx 0 (s\<lparr>console := console s @ out\<rparr>)))
      else if sysid = 2 then yield_at (KSyscall cx 0) s
      else if sysid = 3 then Inr (syscall_return cx 0 (set_next_trigger now s))
      else if sysid = 4 then
        Inr (syscall_return cx 0 (kprintf (''now time:%d'' @ NL) [get_time_us now] s))
      else if sysid = 5 then sys_getchar inp cx arg1 arg2 s
      else if sysid = 6 then
        bindE (sys_fork lk s) (\<lambda>(r, s). Inr (syscall_return cx (scast r) s))
      else if sysid = 7 then
        bindE (uptr_to_kptr s arg2) (\<lambda>name.
        bindE (sys_exec lk name (kprintf (''exec app_name:%s'' @ NL) [name] s)) (\<lambda>s.
        Inr (syscall_return cx 0 s)))
      else if sysid = 8 then sys_exit arg1 s
      else if sysid = 9 then sys_recycle cx s
      else Inl (Panic ''this syscall id is illegal''))"

section \<open>The trap handler\<close>

definition trap_from_kernel :: "u64 \<Rightarrow> u64 \<Rightarrow> u64 \<Rightarrow> 'a pmem_scheme \<Rightarrow> kevent list \<times> 'a pmem_scheme res" where
  "trap_from_kernel scause stval sepc s =
     (let s = kprintf (''stval  = %lx'' @ NL) [stval] s;
          s = kprintf (''sepc   = %lx'' @ NL) [sepc] s;
          s = kprintf (''scause:%d'' @ NL) [scause] s
      in (console s, Inl (Panic (''trap from kernel!'' @ NL))))"

definition trap_handler :: "linker \<Rightarrow> u64 \<Rightarrow> u64 \<Rightarrow> u64 \<Rightarrow> 'a kmachine_scheme \<Rightarrow> 'a kmachine_scheme res" where
  "trap_handler lk scause now inp s =
     (let s = set_kernel_trap_entry lk s;
          cx = get_current_trap_stack s;
          cause_code = scause AND 0xfff
      in if scause AND 0x8000000000000000 \<noteq> 0 then
           (if cause_code = 5 then yield_at KTimer s
            else Inr (trap_return (kprintf (''undfined interrrupt scause:%x'' @ NL) [scause] s)))
         else if cause_code = 8 then
           let s = cx_set cx CX_sepc (cx_get (mem s) cx CX_sepc + 8) s; m = mem s
           in SYSCALL lk now inp cx (cx_get m cx CX_a7) (cx_get m cx CX_a0) (cx_get m cx CX_a1) (cx_get m cx CX_a2) s
         else Inl (Panic (''stop in trap_handler'' @ NL)))"

text \<open>Running the kernel from the place where the current task was suspended.\<close>

definition resume :: "u64 \<Rightarrow> u64 \<Rightarrow> 'a kmachine_scheme \<Rightarrow> 'a kmachine_scheme res" where
  "resume now inp s =
     (case conts s ! cur s of
        KReturn \<Rightarrow> Inr (trap_return s)
      | KTimer \<Rightarrow> Inr (trap_return (set_next_trigger now s))
      | KSyscall cx v \<Rightarrow> Inr (syscall_return cx v s)
      | KGetchar cx data \<Rightarrow> getchar_round inp cx data s
      | KRecycle cx father \<Rightarrow> recycle_round cx father True s)"

section \<open>The first task\<close>

definition app_init :: "linker \<Rightarrow> nat \<Rightarrow> 'a kmachine_scheme \<Rightarrow> 'a kmachine_scheme res" where
  "app_init lk i s =
     (if \<not> i < MAX_TASK_NUM then Inl OutOfRange
      else
        let cx = trap_cx_ppn (task s i);
            st = sstatus s AND ucast (NOT (push_bit 8 1 :: u32));
            s = s\<lparr>sstatus := st\<rparr>;
            s = cx_set cx CX_sepc (entry (task s i)) s;
            s = cx_set cx CX_sstatus st s;
            s = cx_set cx CX_sp (ustack (task s i)) s;
            s = cx_set cx CX_kernel_satp (MAKE_SATP (root_ppn (kernel_pagetable s))) s;
            s = cx_set cx CX_kernel_sp (kstack (task s i)) s;
            s = kprintf (''app_%d_kstack:%lx'' @ NL) [word_of_nat i, cx_get (mem s) cx CX_kernel_sp] s;
            s = cx_set cx CX_trap_handler (trap_handler_addr lk) s;
            s = upd_task i (\<lambda>p. p\<lparr>task_context := task_context_init (kstack p) (trap_return_addr lk),
                  task_state := Ready\<rparr>) s;
            s = s\<lparr>conts := (conts s)[i := KReturn]\<rparr>
        in (case alloc_pid s of (n, s) \<Rightarrow> Inr (upd_task i (\<lambda>p. p\<lparr>pid := n\<rparr>) s)))"

end
