(* ===== verification/Boot.thy ===== *)
theory Boot
  imports Trap
begin

text \<open>
  Starting the kernel: its own page table (\<^verbatim>\<open>proc_mapstacks\<close>, \<^verbatim>\<open>kvm_make\<close> and
  \<^verbatim>\<open>kvminit\<close> of \<^verbatim>\<open>os/src/address.c\<close>) and \<^verbatim>\<open>os_main\<close> of
  \<^verbatim>\<open>os/src/main.c\<close>, up to the switch to the first task.
\<close>

definition proc_mapstack :: "PageTable \<Rightarrow> nat \<Rightarrow> 'a kstate_scheme \<Rightarrow> 'a kstate_scheme res" where
  "proc_mapstack kpgtbl i s =
     bindE (StackFrameAllocator_alloc s) (\<lambda>(ppn, s).
     let pa = phys_addr_from_phys_page_num ppn in
     if pa = 0 then Inl (Panic ''kalloc'')
     else
       let va = KSTACK i in
       bindE (PageTable_map s kpgtbl (virt_addr_from_size_t va) (phys_addr_from_size_t pa) PAGE_SIZE (PTE_R OR PTE_W)) (\<lambda>s.
       Inr (kprintf (''pa:%lx'' @ NL) [pa] (upd_task i (\<lambda>p. p\<lparr>kstack := va + PAGE_SIZE\<rparr>) s))))"

definition proc_mapstacks :: "PageTable \<Rightarrow> 'a kstate_scheme \<Rightarrow> 'a kstate_scheme res" where
  "proc_mapstacks kpgtbl s = foldE (proc_mapstack kpgtbl) [0..<MAX_TASK_NUM] s"

definition kvm_make :: "linker \<Rightarrow> 'a kstate_scheme \<Rightarrow> 'a kstate_scheme res" where
  "kvm_make lk s =
     bindE (StackFrameAllocator_alloc s) (\<lambda>(root, s).
     let s = s\<lparr>kernel_pagetable := \<lparr>root_ppn = root\<rparr>\<rparr>;
         s = kprintf (''root_ppn:%p'' @ NL) [phys_addr_from_phys_page_num root] s;
         s = kprintf (''etext:%p'' @ NL) [etext lk] s
     in bindE (PageTable_map s (kernel_pagetable s) (virt_addr_from_size_t KERNBASE) (phys_addr_from_size_t KERNBASE)
          (etext lk - KERNBASE) (PTE_R OR PTE_X)) (\<lambda>s.
     let s = kprintf (''finish kernel text map'' @ NL) [] s
     in bindE (PageTable_map s (kernel_pagetable s) (virt_addr_from_size_t (etext lk)) (phys_addr_from_size_t (etext lk))
          (PHYSTOP - etext lk) (PTE_R OR PTE_W)) (\<lambda>s.
     let s = kprintf (''finish kernel data map'' @ NL) [] s
     in bindE (PageTable_map s (kernel_pagetable s) (virt_addr_from_size_t TRAMPOLINE) (phys_addr_from_size_t (trampoline lk))
          PAGE_SIZE (PTE_R OR PTE_X)) (\<lambda>s.
     let s = kprintf (''finish trampoline map'' @ NL) [] s
     in bindE (proc_mapstacks (kernel_pagetable s) s) (\<lambda>s.
     Inr (kprintf (''finish kernel stack map'' @ NL) [] s))))))"

definition kvminit :: "linker \<Rightarrow> 'a kstate_scheme \<Rightarrow> 'a kstate_scheme res" where
  "kvminit lk s =
     bindE (kvm_make lk s) (\<lambda>s.
     let vpn = virt_page_num_from_virt_addr (virt_addr_from_size_t 0xffffffffffffd000) in
     case find_pte (mem s) (kernel_pagetable s) vpn of
       None \<Rightarrow> Inl NullDeref
     | Some pte_ptr \<Rightarrow>
         let s = kprintf (''phy page:%p'' @ NL) [drop_bit 10 (read64 (mem s) pte_ptr) AND (push_bit 44 1 - 1)] s;
             s = kprintf (''vir page:%p'' @ NL) [vpn] s;
             kernel_satp = MAKE_SATP (root_ppn (kernel_pagetable s));
             s = kprintf (''kernel satp:%lx'' @ NL) [kernel_satp] s
         in Inr (s\<lparr>satp := kernel_satp\<rparr>))"

text \<open>\<^verbatim>\<open>os_main\<close> up to the \<^verbatim>\<open>__switch\<close> of \<^verbatim>\<open>start_task\<close>, which does not return.\<close>

definition os_main :: "linker \<Rightarrow> 'a kmachine_scheme \<Rightarrow> 'a kmachine_scheme res" where
  "os_main lk s =
     (let s = kprintf (''hello guo %d '' @ NL) [191002] s;
          s = frame_alloctor_init (kernelend lk) s
      in bindE (kvminit lk s) (\<lambda>s.
      bindE (get_app_names lk (procinit s)) (\<lambda>s.
      bindE (load_app lk 0 s) (\<lambda>s.
      bindE (app_init lk 0 s) (\<lambda>s.
      let s = set_kernel_trap_entry lk s;
          s = timer_init s
      in Inr ((start_task s)\<lparr>user_mode := False\<rparr>))))))"

end
