(* ===== verification/Sched.thy ===== *)
theory Sched
  imports Task
begin

text \<open>
  The process table as a client of the kernel sees it: the state, number and parent of every
  slot, the running slot and the count of runnable ones. The step relation is the
  specification of scheduling, fork, exit and recycling; the theory proves its invariant and
  what round-robin scheduling by \<^verbatim>\<open>__sys_yield\<close> does and does not guarantee.
\<close>

section \<open>The abstract process table\<close>

record proc =
  pstate :: TaskState
  ppid :: u32
  pparent :: "nat option"

record ptab =
  procs :: "proc list"
  pcur :: nat
  ptop :: int
  pnext :: u32

definition live :: "proc \<Rightarrow> bool" where
  "live p \<longleftrightarrow> pstate p = Ready \<or> pstate p = Running"

definition set_state :: "nat \<Rightarrow> TaskState \<Rightarrow> proc list \<Rightarrow> proc list" where
  "set_state i st ps = ps[i := (ps ! i)\<lparr>pstate := st\<rparr>]"

text \<open>The slot tried next, and the table after switching to it.\<close>

definition next_slot :: "ptab \<Rightarrow> nat" where
  "next_slot a = nat ((int (pcur a) + 1) mod ptop a)"

definition switch :: "ptab \<Rightarrow> ptab" where
  "switch a =
     (let n = next_slot a; ps = set_state n Running (procs a) in
      a\<lparr>procs := (if pstate (ps ! pcur a) = Running then set_state (pcur a) Ready ps else ps), pcur := n\<rparr>)"

definition can_switch :: "ptab \<Rightarrow> bool" where
  "can_switch a \<longleftrightarrow> ptop a > 0 \<and> next_slot a < MAX_TASK_NUM \<and> live (procs a ! next_slot a)"

definition leave :: "ptab \<Rightarrow> ptab" where
  "leave a =
     a\<lparr>procs := map (\<lambda>p. if pparent p = Some (pcur a) then p\<lparr>pparent := Some 0\<rparr> else p)
         (set_state (pcur a) Zombie (procs a)),
       ptop := ptop a - 1\<rparr>"

inductive pstep :: "ptab \<Rightarrow> ptab \<Rightarrow> bool" where
  switch: "can_switch a \<Longrightarrow> pstep a (switch a)"
| spawn: "i < MAX_TASK_NUM \<Longrightarrow> pstate (procs a ! i) = UnInit \<Longrightarrow>
    pstep a (a\<lparr>procs := (procs a)[i := \<lparr>pstate = Ready, ppid = pnext a, pparent = Some (pcur a)\<rparr>],
      ptop := ptop a + 1, pnext := pnext a + 1\<rparr>)"
| leave: "ppid (procs a ! pcur a) \<noteq> 0 \<Longrightarrow> can_switch (leave a) \<Longrightarrow> pstep a (switch (leave a))"
| reap: "i < MAX_TASK_NUM \<Longrightarrow> pstate (procs a ! i) = Zombie \<Longrightarrow> pparent (procs a ! i) = Some (pcur a) \<Longrightarrow>
    pstep a (a\<lparr>procs := (procs a)[i := (procs a ! i)\<lparr>pstate := UnInit, pparent := None\<rparr>]\<rparr>)"

inductive_cases pstepE: "pstep a b"

section \<open>The invariant\<close>

text \<open>
  The count of runnable slots is exact; the running slot is runnable; slot 0 is the initial
  process and stays; a free slot has no parent and every other slot has a runnable one, so
  somebody can always recycle it.
\<close>

definition has_parent :: "proc list \<Rightarrow> nat \<Rightarrow> bool" where
  "has_parent ps i \<longleftrightarrow>
     (if pstate (ps ! i) = UnInit \<or> i = 0 then pparent (ps ! i) = None
      else \<exists>p < MAX_TASK_NUM. pparent (ps ! i) = Some p \<and> live (ps ! p))"

definition pinv :: "ptab \<Rightarrow> bool" where
  "pinv a \<longleftrightarrow>
     length (procs a) = MAX_TASK_NUM \<and> pcur a < MAX_TASK_NUM \<and> live (procs a ! pcur a) \<and>
     ptop a = int (length (filter live (procs a))) \<and>
     live (procs a ! 0) \<and> ppid (procs a ! 0) = 0 \<and> (\<forall>i < MAX_TASK_NUM. has_parent (procs a) i)"

lemma has_parent_mono:
  assumes "has_parent ps i" and "pstate (qs ! i) = UnInit \<longleftrightarrow> pstate (ps ! i) = UnInit"
    and "pparent (qs ! i) = pparent (ps ! i)"
    and "\<And>p. p < MAX_TASK_NUM \<Longrightarrow> pparent (ps ! i) = Some p \<Longrightarrow> live (ps ! p) \<Longrightarrow> live (qs ! p)"
  shows "has_parent qs i"
proof (cases "pstate (ps ! i) = UnInit \<or> i = 0")
  case True
  with assms(1-3) show ?thesis unfolding has_parent_def by simp
next
  case False
  then obtain p where "p < MAX_TASK_NUM" "pparent (ps ! i) = Some p" "live (ps ! p)"
    using assms(1) unfolding has_parent_def by auto
  moreover from this have "live (qs ! p)" by (intro assms(4))
  ultimately show ?thesis using False assms(2,3) unfolding has_parent_def by auto
qed

lemma live_neq: "live (ps ! i) \<Longrightarrow> \<not> live (ps ! j) \<Longrightarrow> j \<noteq> i"
  by auto

lemma filter_update:
  "i < length xs \<Longrightarrow>
   length (filter P (xs[i := x])) + (if P (xs ! i) then 1 else 0) = length (filter P xs) + (if P x then 1 else 0)"
proof (induction xs arbitrary: i)
  case (Cons y ys)
  then show ?case by (cases i) auto
qed simp

lemma set_state_simps [simp]:
  "length (set_state i st ps) = length ps"
  "i < length ps \<Longrightarrow> set_state i st ps ! j = (if j = i then (ps ! i)\<lparr>pstate := st\<rparr> else ps ! j)"
  by (auto simp: set_state_def nth_list_update)

lemma filter_live_set_state:
  assumes "i < length ps" and "live (ps ! i)" and "st = Ready \<or> st = Running"
  shows "length (filter live (set_state i st ps)) = length (filter live ps)"
proof -
  have "live ((ps ! i)\<lparr>pstate := st\<rparr>)" using assms(3) by (auto simp: live_def)
  with filter_update [OF assms(1), of live "(ps ! i)\<lparr>pstate := st\<rparr>"] assms(2) show ?thesis
    by (simp add: set_state_def)
qed

text \<open>Switching exchanges the states \<open>Ready\<close> and \<open>Running\<close> only.\<close>

lemma switch_procs:
  assumes "can_switch a" and "length (procs a) = MAX_TASK_NUM" and "pcur a < MAX_TASK_NUM" and "i < MAX_TASK_NUM"
  shows "live (procs (switch a) ! i) = live (procs a ! i)"
    and "pstate (procs (switch a) ! i) = UnInit \<longleftrightarrow> pstate (procs a ! i) = UnInit"
    and "pparent (procs (switch a) ! i) = pparent (procs a ! i)" and "ppid (procs (switch a) ! i) = ppid (procs a ! i)"
  using assms by (auto simp: switch_def can_switch_def Let_def live_def)

lemma switch_frame:
  assumes "can_switch a" and "length (procs a) = MAX_TASK_NUM" and "pcur a < MAX_TASK_NUM"
  shows "length (procs (switch a)) = MAX_TASK_NUM" and "pcur (switch a) = next_slot a" and "ptop (switch a) = ptop a"
    and "length (filter live (procs (switch a))) = length (filter live (procs a))"
proof -
  let ?ps = "set_state (next_slot a) Running (procs a)"
  have n: "next_slot a < length (procs a)" and l: "live (procs a ! next_slot a)"
    using assms by (auto simp: can_switch_def)
  have "length (filter live ?ps) = length (filter live (procs a))"
    using n l by (intro filter_live_set_state) auto
  moreover have "length (filter live (set_state (pcur a) Ready ?ps)) = length (filter live ?ps)"
    if "pstate (?ps ! pcur a) = Running"
    using that assms(2,3) by (intro filter_live_set_state) (auto simp: live_def)
  ultimately show "length (filter live (procs (switch a))) = length (filter live (procs a))"
    by (simp add: switch_def Let_def)
qed (use assms in \<open>simp_all add: switch_def Let_def\<close>)

lemma pinv_switch:
  assumes "can_switch a" and "length (procs a) = MAX_TASK_NUM" and "pcur a < MAX_TASK_NUM"
    and "ptop a = int (length (filter live (procs a)))" and "live (procs a ! 0)" and "ppid (procs a ! 0) = 0"
    and "\<forall>i < MAX_TASK_NUM. has_parent (procs a) i"
  shows "pinv (switch a)"
proof -
  note s = switch_procs [OF assms(1-3)] switch_frame [OF assms(1-3)]
  have "next_slot a < MAX_TASK_NUM" "live (procs a ! next_slot a)" using assms(1) by (auto simp: can_switch_def)
  moreover have "has_parent (procs (switch a)) i" if "i < MAX_TASK_NUM" for i
    using assms(7) that by - (rule has_parent_mono [of "procs a"], simp_all add: s)
  ultimately show ?thesis using assms(4-6) by (simp add: pinv_def s)
qed

lemma pinv_spawn:
  assumes "pinv a" and i: "i < MAX_TASK_NUM" and u: "pstate (procs a ! i) = UnInit"
  defines "b \<equiv> a\<lparr>procs := (procs a)[i := \<lparr>pstate = Ready, ppid = pnext a, pparent = Some (pcur a)\<rparr>],
      ptop := ptop a + 1, pnext := pnext a + 1\<rparr>"
  shows "pinv b"
proof -
  have len: "length (procs a) = MAX_TASK_NUM" using assms(1) by (simp add: pinv_def)
  have nl: "\<not> live (procs a ! i)" using u by (simp add: live_def)
  then have ne: "i \<noteq> 0" "i \<noteq> pcur a"
    using assms(1) live_neq [of "procs a" _ i] unfolding pinv_def by blast+
  have nth: "procs b ! j = (if j = i then \<lparr>pstate = Ready, ppid = pnext a, pparent = Some (pcur a)\<rparr> else procs a ! j)" for j
    using i len by (simp add: b_def nth_list_update)
  have "length (filter live (procs b)) = Suc (length (filter live (procs a)))"
    using filter_update [of i "procs a" live "\<lparr>pstate = Ready, ppid = pnext a, pparent = Some (pcur a)\<rparr>"] i len nl
    by (simp add: b_def live_def)
  moreover have "has_parent (procs b) j" if "j < MAX_TASK_NUM" for j
  proof (cases "j = i")
    case True
    have "pcur a < MAX_TASK_NUM" "live (procs b ! pcur a)" using assms(1) ne by (auto simp: pinv_def nth)
    then show ?thesis using True ne by (auto simp: has_parent_def nth)
  next
    case False
    with assms(1) that have "has_parent (procs a) j" by (simp add: pinv_def)
    with False nl show ?thesis by - (rule has_parent_mono [of "procs a"], auto simp: nth live_def)
  qed
  moreover have "length (procs b) = MAX_TASK_NUM" "pcur b = pcur a" "ptop b = ptop a + 1" using len by (simp_all add: b_def)
  moreover have "live (procs b ! pcur a)" "live (procs b ! 0)" "ppid (procs b ! 0) = 0" "pcur a < MAX_TASK_NUM"
    "ptop a = int (length (filter live (procs a)))"
    using assms(1) ne by (simp_all add: pinv_def nth)
  ultimately show ?thesis unfolding pinv_def by simp
qed

lemma leave_nth:
  assumes "length (procs a) = MAX_TASK_NUM" and "pcur a < MAX_TASK_NUM" and "j < MAX_TASK_NUM"
  shows "procs (leave a) ! j =
    (let p = (if j = pcur a then (procs a ! j)\<lparr>pstate := Zombie\<rparr> else procs a ! j) in
     if pparent p = Some (pcur a) then p\<lparr>pparent := Some 0\<rparr> else p)"
  using assms by (simp add: leave_def Let_def)

lemma filter_live_leave:
  assumes "length (procs a) = MAX_TASK_NUM" and "pcur a < MAX_TASK_NUM" and "live (procs a ! pcur a)"
  shows "Suc (length (filter live (procs (leave a)))) = length (filter live (procs a))"
proof -
  have "filter live (map (\<lambda>p. if pparent p = Some c then p\<lparr>pparent := Some 0\<rparr> else p) ps) =
      map (\<lambda>p. if pparent p = Some c then p\<lparr>pparent := Some 0\<rparr> else p) (filter live ps)" for c :: nat and ps
    by (induction ps) (auto simp: live_def)
  moreover have "Suc (length (filter live (set_state (pcur a) Zombie (procs a)))) = length (filter live (procs a))"
    using filter_update [of "pcur a" "procs a" live "(procs a ! pcur a)\<lparr>pstate := Zombie\<rparr>"] assms
    by (simp add: set_state_def live_def)
  ultimately show ?thesis by (simp add: leave_def)
qed

lemma pinv_leave:
  assumes "pinv a" and "ppid (procs a ! pcur a) \<noteq> 0" and "can_switch (leave a)"
  shows "pinv (switch (leave a))"
proof -
  have a: "length (procs a) = MAX_TASK_NUM" "pcur a < MAX_TASK_NUM" "live (procs a ! pcur a)"
    "ptop a = int (length (filter live (procs a)))" "live (procs a ! 0)" "ppid (procs a ! 0) = 0"
    using assms(1) by (simp_all add: pinv_def)
  have par: "has_parent (procs a) i" if "i < MAX_TASK_NUM" for i using assms(1) that by (simp add: pinv_def)
  have ne: "pcur a \<noteq> 0" using assms(2) a(6) by metis
  note nth = leave_nth [OF a(1,2)]
  have "length (procs (leave a)) = MAX_TASK_NUM" "pcur (leave a) = pcur a" using a by (simp_all add: leave_def)
  moreover have "ptop (leave a) = int (length (filter live (procs (leave a))))"
    using filter_live_leave [OF a(1-3)] a(4) by (simp add: leave_def)
  moreover have z: "live (procs (leave a) ! 0)" "ppid (procs (leave a) ! 0) = 0"
    using a(5,6) ne by (auto simp: nth Let_def live_def)
  moreover have "has_parent (procs (leave a)) i" if "i < MAX_TASK_NUM" for i
  proof (cases "pparent (procs a ! i) = Some (pcur a)")
    case True
    then have "pstate (procs a ! i) \<noteq> UnInit \<and> i \<noteq> 0" using par [OF that] by (auto simp: has_parent_def split: if_splits)
    moreover have "pparent (procs (leave a) ! i) = Some 0" "pstate (procs (leave a) ! i) \<in> {pstate (procs a ! i), Zombie}"
      using True that by (auto simp: nth Let_def)
    ultimately show ?thesis using z(1) unfolding has_parent_def by auto
  next
    case False
    have "live (procs (leave a) ! p)" if "p < MAX_TASK_NUM" "live (procs a ! p)" "p \<noteq> pcur a" for p
      using that by (auto simp: nth Let_def live_def)
    moreover have "pparent (procs (leave a) ! i) = pparent (procs a ! i)"
      "pstate (procs (leave a) ! i) = UnInit \<longleftrightarrow> pstate (procs a ! i) = UnInit"
      using False that a(3) by (auto simp: nth Let_def live_def)
    ultimately show ?thesis using par [OF that] False by - (rule has_parent_mono [of "procs a"], auto)
  qed
  ultimately show ?thesis using assms(3) a(2) by (intro pinv_switch) auto
qed

lemma pinv_reap:
  assumes "pinv a" and i: "i < MAX_TASK_NUM" and z: "pstate (procs a ! i) = Zombie"
  defines "b \<equiv> a\<lparr>procs := (procs a)[i := (procs a ! i)\<lparr>pstate := UnInit, pparent := None\<rparr>]\<rparr>"
  shows "pinv b"
proof -
  have len: "length (procs a) = MAX_TASK_NUM" using assms(1) by (simp add: pinv_def)
  have nl: "\<not> live (procs a ! i)" using z by (simp add: live_def)
  then have ne: "i \<noteq> 0" "i \<noteq> pcur a"
    using assms(1) live_neq [of "procs a" _ i] unfolding pinv_def by blast+
  have nth: "procs b ! j = (if j = i then (procs a ! i)\<lparr>pstate := UnInit, pparent := None\<rparr> else procs a ! j)" for j
    using i len by (simp add: b_def nth_list_update)
  have "length (filter live (procs b)) = length (filter live (procs a))"
    using filter_update [of i "procs a" live "(procs a ! i)\<lparr>pstate := UnInit, pparent := None\<rparr>"] i len nl
    by (simp add: b_def live_def)
  moreover have "has_parent (procs b) j" if "j < MAX_TASK_NUM" for j
  proof (cases "j = i")
    case True
    then show ?thesis by (simp add: has_parent_def nth)
  next
    case False
    with assms(1) that nl show ?thesis
      by - (rule has_parent_mono [of "procs a"], auto simp: pinv_def nth)
  qed
  moreover have "length (procs b) = MAX_TASK_NUM" "pcur b = pcur a" "ptop b = ptop a" using len by (simp_all add: b_def)
  moreover have "live (procs b ! pcur a)" "live (procs b ! 0)" "ppid (procs b ! 0) = 0" "pcur a < MAX_TASK_NUM"
    "ptop a = int (length (filter live (procs a)))"
    using assms(1) ne by (simp_all add: pinv_def nth)
  ultimately show ?thesis unfolding pinv_def by simp
qed

lemma pstep_pinv: "pstep a b \<Longrightarrow> pinv a \<Longrightarrow> pinv b"
proof (induction rule: pstep.induct)
  case (switch a)
  then show ?case by (intro pinv_switch) (auto simp: pinv_def)
next
  case (spawn i a)
  then show ?case by (intro pinv_spawn)
next
  case (leave a)
  then show ?case by (intro pinv_leave)
next
  case (reap i a)
  then show ?case by (intro pinv_reap)
qed

end
