(* ===== verification/Kernel.thy ===== *)
theory Kernel
  imports Boot Sched
begin

text \<open>
  The running kernel as a transition system: user code of the current task, a trap (the
  save code \<^verbatim>\<open>__alltraps\<close> of \<^verbatim>\<open>os/src/kerneltrap.S\<close> and then
  \<^verbatim>\<open>trap_handler\<close>), and the kernel going on with the task it has switched to. The
  theory proves the invariants of the task array along every run.
\<close>

section \<open>Saving and restoring the user registers\<close>

text \<open>The stores of \<^verbatim>\<open>__alltraps\<close> in their order; the stack pointer comes last.\<close>

definition saved_fields :: "TrapContext list" where
  "saved_fields = [CX_ra, CX_gp, CX_tp, CX_t0, CX_t1, CX_t2, CX_s0, CX_s1, CX_a0, CX_a1, CX_a2, CX_a3, CX_a4,
     CX_a5, CX_a6, CX_a7, CX_s2, CX_s3, CX_s4, CX_s5, CX_s6, CX_s7, CX_s8, CX_s9, CX_s10, CX_s11,
     CX_t3, CX_t4, CX_t5, CX_t6, CX_sstatus, CX_sepc, CX_sp]"

definition alltraps :: "u64 \<Rightarrow> (TrapContext \<Rightarrow> u64) \<Rightarrow> 'a pmem_scheme \<Rightarrow> 'a pmem_scheme" where
  "alltraps cx r s = fold (\<lambda>f. cx_set cx f (r f)) saved_fields s"

definition restore :: "memory \<Rightarrow> u64 \<Rightarrow> TrapContext \<Rightarrow> u64 option" where
  "restore m cx f = (if f \<in> set saved_fields then Some (cx_get m cx f) else None)"

section \<open>Steps\<close>

text \<open>
  User code may change a byte only where the page table of its task maps a page that is
  writable in user mode.
\<close>

definition user_bytes :: "'a kstate_scheme \<Rightarrow> u64 set" where
  "user_bytes s =
     {a. \<exists>v e. pt_lookup (mem s) (root_ppn (pagetable (task s (cur s)))) v = Some e \<and> v < 0x8000000 \<and>
        e AND ucast (PTE_W OR PTE_U) = ucast (PTE_W OR PTE_U) \<and> frame_of a = entry_frame e}"

inductive kstep :: "linker \<Rightarrow> kmachine \<Rightarrow> kmachine \<Rightarrow> bool" for lk where
  user_code: "user_mode s \<Longrightarrow> (\<And>a. a \<notin> user_bytes s \<Longrightarrow> m a = mem s a) \<Longrightarrow> kstep lk s (s\<lparr>mem := m\<rparr>)"
| user_trap: "user_mode s \<Longrightarrow> trap_handler lk scause now inp (alltraps (get_current_trap_stack s) r s) = Inr t \<Longrightarrow>
    kstep lk s t"
| kernel_run: "\<not> user_mode s \<Longrightarrow> resume now inp s = Inr t \<Longrightarrow> kstep lk s t"

inductive_cases kstepE: "kstep lk s t"

section \<open>Abstraction to the process table\<close>

definition pview :: "TaskControlBlock \<Rightarrow> proc" where
  "pview p = \<lparr>pstate = task_state p, ppid = pid p, pparent = parent p\<rparr>"

definition ptab_of :: "'a kstate_scheme \<Rightarrow> ptab" where
  "ptab_of s = \<lparr>procs = map pview (tasks s), pcur = cur s, ptop = top s, pnext = next_pid s\<rparr>"

text \<open>
  The concrete side conditions: the arrays have their length, the running index is in
  range, and a task that waits for its children waits for its own.
\<close>

definition own_children :: "'a kmachine_scheme \<Rightarrow> nat \<Rightarrow> bool" where
  "own_children s i \<longleftrightarrow> (case conts s ! i of KRecycle cx f \<Rightarrow> f = i | _ \<Rightarrow> True)"

definition kwf :: "'a kmachine_scheme \<Rightarrow> bool" where
  "kwf s \<longleftrightarrow> length (tasks s) = MAX_TASK_NUM \<and> length (conts s) = MAX_TASK_NUM \<and>
     0 \<le> current s \<and> current s < int MAX_TASK_NUM \<and> (\<forall>i < MAX_TASK_NUM. own_children s i)"

text \<open>Code that changes neither the process table nor the suspended tasks.\<close>

definition quiet :: "'a kmachine_scheme \<Rightarrow> 'a kmachine_scheme \<Rightarrow> bool" where
  "quiet s t \<longleftrightarrow> ptab_of t = ptab_of s \<and> length (tasks t) = length (tasks s) \<and> current t = current s \<and> conts t = conts s"

lemma quiet_trans: "quiet s t \<Longrightarrow> quiet t u \<Longrightarrow> quiet s u"
  by (simp add: quiet_def)

lemma quiet_kwf: "quiet s t \<Longrightarrow> kwf s \<Longrightarrow> kwf t"
  by (simp add: quiet_def kwf_def own_children_def)

lemma cont_of_more:
  fixes s t :: "'a kmachine_scheme"
  assumes "kstate.more t = kstate.more s"
  shows "conts t = conts s" "user_mode t = user_mode s" "kmachine.more t = kmachine.more s"
  using assms by (cases s; cases t; simp)+

lemma quiet_more:
  fixes s t :: "'a kmachine_scheme"
  assumes "pmem.more t = pmem.more s"
  shows "quiet s t"
  using more_fields [OF assms] cont_of_more [of t s] by (simp add: quiet_def ptab_of_def cur_def)

lemma nth_upd_task:
  "length (tasks (upd_task i f s)) = length (tasks s)"
  "i < length (tasks s) \<Longrightarrow> task (upd_task i f s) j = (if j = i then f (task s i) else task s j)"
  by (auto simp: upd_task_def task_def nth_list_update)

lemma upd_task_fields [simp]:
  "current (upd_task i f s) = current s" "top (upd_task i f s) = top s" "next_pid (upd_task i f s) = next_pid s"
  "cur (upd_task i f s) = cur s" "mem (upd_task i f s) = mem s"
  "kstate.more (upd_task i f s) = kstate.more s" "memory_allocator (upd_task i f s) = memory_allocator s"
  by (simp_all add: upd_task_def cur_def)

lemma ptab_upd_task:
  "ptab_of (upd_task i f s) = (ptab_of s)\<lparr>procs := (procs (ptab_of s))[i := pview (f (tasks s ! i))]\<rparr>"
  by (simp add: ptab_of_def upd_task_def cur_def map_update)

lemma ptab_upd_task_same:
  assumes "\<And>p. pview (f p) = pview p"
  shows "ptab_of (upd_task i f s) = ptab_of s"
proof (cases "i < length (tasks s)")
  case True
  then show ?thesis unfolding ptab_upd_task assms by (simp add: ptab_of_def flip: map_update)
next
  case False
  then show ?thesis by (simp add: upd_task_def ptab_of_def cur_def not_less list_update_beyond)
qed

lemma quiet_upd_task:
  fixes s :: "'a kmachine_scheme"
  assumes "\<And>p. pview (f p) = pview p"
  shows "quiet s (upd_task i f s)"
  using cont_of_more [of "upd_task i f s" s] by (simp add: quiet_def ptab_upd_task_same [OF assms] nth_upd_task)

section \<open>Each operation against the process table\<close>

lemma live_pview: "live (pview p) \<longleftrightarrow> task_state p = Ready \<or> task_state p = Running"
  by (simp add: live_def pview_def)

lemma procs_nth: "i < length (tasks s) \<Longrightarrow> procs (ptab_of s) ! i = pview (task s i)"
  by (simp add: ptab_of_def task_def)

lemma ptab_fields [simp]: "pcur (ptab_of s) = cur s" "ptop (ptab_of s) = top s" "pnext (ptab_of s) = next_pid s"
  "length (procs (ptab_of s)) = length (tasks s)"
  by (simp_all add: ptab_of_def)

lemma ptab_set_state:
  "i < length (tasks s) \<Longrightarrow>
   ptab_of (upd_task i (\<lambda>p. p\<lparr>task_state := st\<rparr>) s) = (ptab_of s)\<lparr>procs := set_state i st (procs (ptab_of s))\<rparr>"
  by (simp add: set_state_def ptab_of_def pview_def upd_task_def map_update cur_def)

text \<open>\<^verbatim>\<open>__sys_yield\<close> switches exactly when the specification can.\<close>

lemma sys_yield_spec:
  fixes s :: "'a kstate_scheme"
  assumes len: "length (tasks s) = MAX_TASK_NUM" and c: "0 \<le> current s" "current s < int MAX_TASK_NUM"
    and y: "sys_yield s = Inr (sw, t)"
  shows "(if sw then can_switch (ptab_of s) \<and> ptab_of t = switch (ptab_of s) \<and> length (tasks t) = MAX_TASK_NUM \<and>
      0 \<le> current t \<and> current t < int MAX_TASK_NUM else t = s) \<and> kstate.more t = kstate.more s \<and>
      mem t = mem s \<and> memory_allocator t = memory_allocator s"
proof -
  let ?n = "next_slot (ptab_of s)"
  have n: "nat ((current s + 1) mod top s) = ?n" using c by (simp add: next_slot_def cur_def)
  have cur: "cur s < length (tasks s)" using c len by (simp add: cur_def)
  show ?thesis
  proof (cases sw)
    case False
    with y show ?thesis by (auto simp: sys_yield_def Let_def split: if_splits)
  next
    case True
    with y n have t: "top s > 0" "?n < MAX_TASK_NUM" "live (pview (task s ?n))"
        "t = (let u = upd_task ?n (\<lambda>p. p\<lparr>task_state := Running\<rparr>) s;
             u = (if task_state (task u (cur u)) = Running then upd_task (cur u) (\<lambda>p. p\<lparr>task_state := Ready\<rparr>) u else u)
           in u\<lparr>current := int ?n\<rparr>)"
      by (auto simp: sys_yield_def Let_def live_pview split: if_splits)
    let ?u = "upd_task ?n (\<lambda>p. p\<lparr>task_state := Running\<rparr>) s"
    have u: "ptab_of ?u = (ptab_of s)\<lparr>procs := set_state ?n Running (procs (ptab_of s))\<rparr>" "length (tasks ?u) = MAX_TASK_NUM"
      using t(2) len by (simp_all add: ptab_set_state nth_upd_task)
    have st: "task_state (task ?u (cur s)) = pstate (set_state ?n Running (procs (ptab_of s)) ! cur s)"
      using procs_nth [of "cur s" ?u] u cur len by (simp add: pview_def)
    have cp: "ptab_of (x\<lparr>current := int k\<rparr>) = (ptab_of x)\<lparr>pcur := k\<rparr>" for x :: "'a kstate_scheme" and k
      by (simp add: ptab_of_def cur_def)
    have "ptab_of t = switch (ptab_of s)"
      unfolding t(4) switch_def Let_def cp using u cur len by (simp add: st ptab_set_state)
    moreover have "can_switch (ptab_of s)" using t len by (simp add: can_switch_def procs_nth)
    ultimately show ?thesis using True t(2,4) u by (simp add: Let_def nth_upd_task)
  qed
qed

lemma yield_at_spec:
  fixes s :: "'a kmachine_scheme"
  assumes "kwf s" and "yield_at c s = Inr t" and "\<And>cx f. c = KRecycle cx f \<Longrightarrow> f = cur s"
  shows "kwf t \<and> (ptab_of t = ptab_of s \<or> pstep (ptab_of s) (ptab_of t))"
proof -
  from assms(2) obtain sw u where u: "sys_yield s = Inr (sw, u)"
    and t: "t = u\<lparr>conts := (conts u)[cur s := c], user_mode := False\<rparr>"
    by (auto simp: yield_at_def res_simps)
  note y = sys_yield_spec [OF _ _ _ u]
  have "kwf u" "conts u = conts s" "ptab_of u = ptab_of s \<or> pstep (ptab_of s) (ptab_of u)"
    using y assms(1) cont_of_more [of u s] pstep.switch [of "ptab_of s"]
    by (auto simp: kwf_def own_children_def split: if_splits)
  moreover have "ptab_of t = ptab_of u" by (simp add: t ptab_of_def cur_def)
  moreover have "own_children t i" if "i < MAX_TASK_NUM" for i
    using that assms(3) \<open>kwf u\<close> by (cases "i = cur s") (auto simp: t kwf_def own_children_def split: kcont.splits)
  ultimately show ?thesis by (simp add: t kwf_def)
qed

named_theorems quiet_simps \<open>code that keeps the process table and the suspended tasks\<close>

lemma quiet_pmem [quiet_simps]:
  "quiet s (t\<lparr>mem := m\<rparr>) = quiet s t" "quiet s (t\<lparr>console := out\<rparr>) = quiet s t"
  "quiet s (cx_set cx f v t) = quiet s t" "quiet s (kprintf fmt xs t) = quiet s t"
  "quiet s (set_next_trigger now t) = quiet s t"
  by (simp_all add: quiet_def ptab_of_def cur_def cx_set_def kprintf_def set_next_trigger_def sbi_set_timer_def)

lemma quiet_trap [quiet_simps]:
  "quiet s (trap_return t) = quiet s t" "quiet s (syscall_return cx v t) = quiet s t"
  "quiet s (set_kernel_trap_entry lk t) = quiet s t"
  by (simp_all add: quiet_def ptab_of_def cur_def trap_return_def syscall_return_def cx_set_def Let_def
      set_user_trap_entry_def set_kernel_trap_entry_def)

lemma quiet_refl [quiet_simps]: "quiet s s"
  by (simp add: quiet_def)

lemma alltraps_keeps: "pmem.more (alltraps cx r s) = pmem.more s"
proof -
  have "pmem.more (fold (\<lambda>f. cx_set cx f (r f)) fs s) = pmem.more s" for fs
    by (induction fs arbitrary: s) (simp_all add: cx_set_def)
  then show ?thesis by (simp add: alltraps_def)
qed

lemma quiet_proc_pagetable:
  fixes s :: "'a kmachine_scheme"
  assumes "proc_pagetable lk i s = Inr t"
  shows "quiet s t"
proof -
  obtain r a b u where k: "kalloc s = Inr (r, a)"
    "PageTable_map a \<lparr>root_ppn = r\<rparr> (virt_addr_from_size_t TRAMPOLINE) (phys_addr_from_size_t (trampoline lk))
      PAGE_SIZE (PTE_R OR PTE_X) = Inr b"
    "PageTable_map b \<lparr>root_ppn = r\<rparr> (virt_addr_from_size_t TRAPFRAME)
      (phys_addr_from_size_t (trap_cx_ppn (task b i))) PAGE_SIZE (PTE_R OR PTE_W) = Inr u"
    and t: "t = upd_task i (\<lambda>p. p\<lparr>pagetable := \<lparr>root_ppn = r\<rparr>\<rparr>) u"
    using assms by (rule proc_pagetable_parts)
  have u: "pmem.more u = pmem.more s" using k by (simp add: keeps)
  show ?thesis unfolding t by (rule quiet_trans [OF quiet_more [OF u] quiet_upd_task]) (simp add: pview_def)
qed

lemma load_phdr_quiet:
  fixes s :: "'a kmachine_scheme"
  assumes "load_phdr ehdr proc phdr s = Inr t"
  shows "quiet s t"
proof (cases "p_type (phdr_at (mem s) phdr) = PT_LOAD")
  case True
  let ?u = "upd_task proc (\<lambda>p. p\<lparr>ustack := p_vaddr (phdr_at (mem s) phdr) + p_memsz (phdr_at (mem s) phdr)\<rparr>) s"
  have "pmem.more t = pmem.more ?u"
    by (rule foldE_invariant [OF assms [unfolded load_phdr_def if_P [OF True] Let_def], where P = "\<lambda>x. pmem.more x = pmem.more ?u"])
      (auto simp: load_page_def Let_def res_simps keeps)
  moreover have "quiet s ?u" by (rule quiet_upd_task) (simp add: pview_def)
  ultimately show ?thesis by (metis quiet_more quiet_trans)
next
  case False
  with assms show ?thesis by (simp add: load_phdr_def quiet_refl)
qed

lemma load_segment_loop_quiet:
  fixes s :: "'a kmachine_scheme"
  shows "load_segment_loop ehdr proc i s = Inr t \<Longrightarrow> quiet s t"
proof (induction ehdr proc i s rule: load_segment_loop.induct)
  case (1 ehdr proc i s)
  show ?case
  proof (cases "i < unat (e_phnum (ehdr_at (mem s) ehdr))")
    case True
    with "1.prems" obtain u where u: "load_phdr ehdr proc (e_phoff (ehdr_at (mem s) ehdr) +
        ucast (e_phentsize (ehdr_at (mem s) ehdr)) * word_of_nat i + ehdr) s = Inr u" "load_segment_loop ehdr proc (i + 1) u = Inr t"
      by (subst (asm) load_segment_loop.simps) (auto simp: res_simps)
    show ?thesis using "1.IH" [OF True refl u] load_phdr_quiet [OF u(1)] by (metis quiet_trans)
  next
    case False
    with "1.prems" show ?thesis by (subst (asm) load_segment_loop.simps) (simp add: quiet_refl)
  qed
qed

lemma quiet_load_segment:
  fixes s :: "'a kmachine_scheme"
  assumes "load_segment ehdr proc s = Inr t"
  shows "quiet s t"
proof -
  from assms obtain u v where u: "load_segment_loop ehdr proc 0 s = Inr u"
    and v: "v = upd_task proc (\<lambda>p. p\<lparr>base_size := ustack p\<rparr>) (upd_task proc (\<lambda>p. p\<lparr>ustack := 2 * PAGE_SIZE + PGROUNDUP (ustack p)\<rparr>) u)"
      "pmem.more t = pmem.more v"
    by (auto simp: load_segment_def Let_def res_simps keeps)
  have "quiet u v" unfolding v(1) by (rule quiet_trans [OF quiet_upd_task quiet_upd_task]) (simp_all add: pview_def)
  with load_segment_loop_quiet [OF u] quiet_more [OF v(2)] show ?thesis by (metis quiet_trans)
qed

lemma app_by_name_out:
  "app_by_name_loop lk path n i ns s = Inr (md, t) \<Longrightarrow> \<exists>out. t = s\<lparr>console := out\<rparr>"
proof (induction lk path n i ns s rule: app_by_name_loop.induct)
  case (1 lk path n i ns s)
  from "1.prems" show ?case
    by (subst (asm) app_by_name_loop.simps)
      (auto simp: res_simps kprintf_def dest!: "1.IH" split: if_splits list.splits option.splits)
qed

lemma quiet_exec:
  fixes s :: "'a kmachine_scheme"
  assumes "sys_exec lk name s = Inr t"
  shows "quiet s t"
proof -
  from assms obtain md a b c ctrap v w pt sz where a: "get_app_data_by_name lk name s = Inr (md, a)"
    and b: "proc_pagetable lk (cur a) a = Inr b" "load_segment (app_start md) (cur a) b = Inr c"
    and t: "free_proc_memory (cx_set ctrap CX_sp v (cx_set ctrap CX_sepc w c)) pt sz = Inr t"
    by (auto simp: sys_exec_def Let_def res_simps)
  from a obtain out where "a = s\<lparr>console := out\<rparr>"
    using app_by_name_out unfolding get_app_data_by_name_def Let_def by blast
  then have "quiet s a" by (simp add: quiet_simps)
  moreover have "quiet c t"
    by (rule quiet_trans [OF _ quiet_more [OF free_proc_memory_keeps [OF t]]]) (simp add: quiet_simps)
  ultimately show ?thesis using quiet_proc_pagetable [OF b(1)] quiet_load_segment [OF b(2)] by (metis quiet_trans)
qed

lemma find_slot:
  assumes "find P [0..<n] = Some i"
  shows "i < n" and "P i" and "\<And>j. j < i \<Longrightarrow> \<not> P j"
proof -
  from assms obtain k where k: "k < n" "P ([0..<n] ! k)" "i = [0..<n] ! k" "\<forall>j < k. \<not> P ([0..<n] ! j)"
    by (auto simp: find_Some_iff)
  then have "i = k" by simp
  with k show "i < n" "P i" "\<And>j. j < i \<Longrightarrow> \<not> P j" by auto
qed

text \<open>A new process: everything of its slot but the process-table part is left open here.\<close>

lemma alloc_proc_spec:
  fixes s :: "'a kmachine_scheme"
  assumes "alloc_proc lk s = Inr (Some i, t)" and "length (tasks s) = MAX_TASK_NUM"
  shows "i < MAX_TASK_NUM" and "task_state (task s i) = UnInit"
    and "ptab_of t = (ptab_of s)\<lparr>procs := (procs (ptab_of s))[i := \<lparr>pstate = Ready, ppid = next_pid s, pparent = parent (task s i)\<rparr>],
        ptop := top s + 1, pnext := next_pid s + 1\<rparr>"
    and "length (tasks t) = length (tasks s)" and "current t = current s" and "conts t = conts s"
proof -
  from assms(1) have i: "find (\<lambda>i. task_state (task s i) = UnInit) [0..<MAX_TASK_NUM] = Some i"
    by (auto simp: alloc_proc_def alloc_pid_def Let_def res_simps split: option.splits)
  then show i': "i < MAX_TASK_NUM" and "task_state (task s i) = UnInit" by (rule find_slot)+
  let ?u = "upd_task i (\<lambda>p. p\<lparr>pid := next_pid s, task_state := Ready\<rparr>) (s\<lparr>next_pid := next_pid s + 1\<rparr>)"
  from assms(1) i obtain v w where v: "proc_trap i ?u = Inr v" "proc_pagetable lk i v = Inr w" "t = w\<lparr>top := top w + 1\<rparr>"
    by (auto simp: alloc_proc_def alloc_pid_def Let_def res_simps)
  obtain a pa where a: "pmem.more a = pmem.more ?u"
      "v = upd_task i (\<lambda>p. p\<lparr>trap_cx_ppn := pa, task_context := \<lparr>tc_ra = 0, tc_sp = 0, tc_s = replicate 12 0\<rparr>\<rparr>) a"
    using v(1) unfolding proc_trap_def by (auto simp: res_simps dest!: kalloc_keeps)
  have "quiet a v" unfolding a(2) by (rule quiet_upd_task) (simp add: pview_def)
  with quiet_more [OF a(1)] quiet_proc_pagetable [OF v(2)] have q: "quiet ?u w" by (metis quiet_trans)
  have u: "ptab_of ?u = (ptab_of s)\<lparr>procs := (procs (ptab_of s))[i := \<lparr>pstate = Ready, ppid = next_pid s, pparent = parent (task s i)\<rparr>],
      pnext := next_pid s + 1\<rparr>" "length (tasks ?u) = length (tasks s)" "current ?u = current s" "conts ?u = conts s" "top ?u = top s"
    by (simp_all add: upd_task_def ptab_of_def cur_def map_update pview_def task_def)
  have w: "ptab_of t = (ptab_of w)\<lparr>ptop := top w + 1\<rparr>" "top w = top s"
    using q u by (auto simp: v(3) quiet_def ptab_of_def cur_def)
  show "ptab_of t = (ptab_of s)\<lparr>procs := (procs (ptab_of s))[i := \<lparr>pstate = Ready, ppid = next_pid s, pparent = parent (task s i)\<rparr>],
        ptop := top s + 1, pnext := next_pid s + 1\<rparr>"
    using q u(1) unfolding w by (simp add: quiet_def)
  show "length (tasks t) = length (tasks s)" "current t = current s" "conts t = conts s"
    using q u v(3) by (auto simp: quiet_def)
qed

definition sim :: "'a kmachine_scheme \<Rightarrow> 'a kmachine_scheme \<Rightarrow> bool" where
  "sim s t \<longleftrightarrow> kwf t \<and> (ptab_of t = ptab_of s \<or> pstep (ptab_of s) (ptab_of t))"

lemma sim_quiet: "kwf s \<Longrightarrow> quiet s t \<Longrightarrow> sim s t"
  by (simp add: sim_def quiet_kwf) (simp add: quiet_def)

lemma sim_after: "sim s t \<Longrightarrow> quiet t u \<Longrightarrow> sim s u"
  by (auto simp: sim_def quiet_kwf) (auto simp: quiet_def)

lemma sim_before: "quiet s t \<Longrightarrow> sim t u \<Longrightarrow> sim s u"
  by (auto simp: sim_def quiet_def)

lemma sim_yield_at: "kwf s \<Longrightarrow> yield_at c s = Inr t \<Longrightarrow> (\<And>cx f. c = KRecycle cx f \<Longrightarrow> f = cur s) \<Longrightarrow> sim s t"
  unfolding sim_def by (rule yield_at_spec)

lemma sys_fork_parts:
  assumes "sys_fork lk s = Inr (r, t)"
  obtains u where "alloc_proc lk s = Inr (None, u)" "r = - 1" "t = kprintf ''child_proc failed!'' [] u"
  | ch u v where "alloc_proc lk s = Inr (Some ch, u)"
      "uvm_copy (pagetable (task u (cur s))) (pagetable (task u ch)) (base_size (task u (cur s))) u = Inr v"
      "t = fork_child lk (cur s) ch v" "r = pid (task t ch)"
proof -
  from assms obtain c u where a: "alloc_proc lk s = Inr (c, u)"
    and k: "(case c of None \<Rightarrow> Inr (- 1, kprintf ''child_proc failed!'' [] u)
      | Some ch \<Rightarrow> bindE (uvm_copy (pagetable (task u (cur s))) (pagetable (task u ch)) (base_size (task u (cur s))) u)
          (\<lambda>s'. let s = fork_child lk (cur s) ch s' in Inr (pid (task s ch), s))) = Inr (r, t)"
    unfolding sys_fork_def Let_def by (auto elim!: bindE_InrE)
  show ?thesis
  proof (cases c)
    case None
    with a k that(1) show ?thesis by simp
  next
    case (Some ch)
    with k obtain v where "uvm_copy (pagetable (task u (cur s))) (pagetable (task u ch)) (base_size (task u (cur s))) u = Inr v"
      "t = fork_child lk (cur s) ch v" "r = pid (task t ch)"
      by (auto simp: Let_def elim!: bindE_InrE)
    with a Some show ?thesis by (intro that(2)) simp_all
  qed
qed

lemma ptab_of_conts: "ptab_of (s\<lparr>conts := cs\<rparr>) = ptab_of s"
  by (simp add: ptab_of_def cur_def)

lemma ptab_mem [simp]: "ptab_of (s\<lparr>mem := m\<rparr>) = ptab_of s" "ptab_of (cx_set cx f v s) = ptab_of s"
  "ptab_of (kprintf fmt xs s) = ptab_of s"
  by (simp_all add: ptab_of_def cur_def cx_set_def kprintf_def)

lemma sim_fork:
  assumes wf: "kwf s" and f: "sys_fork lk s = Inr (r, t)"
  shows "sim s t"
  using f
proof (cases rule: sys_fork_parts)
  case (1 u)
  then have "u = s" by (auto simp: alloc_proc_def alloc_pid_def Let_def res_simps split: option.splits)
  with 1 wf show ?thesis by (intro sim_quiet) (auto simp: quiet_simps)
next
  case (2 ch u v)
  have len: "length (tasks s) = MAX_TASK_NUM" using wf by (simp add: kwf_def)
  note a = alloc_proc_spec [OF 2(1) len]
  have q: "quiet u v" using 2(2) by (intro quiet_more) (simp add: keeps)
  let ?new = "\<lparr>pstate = Ready, ppid = next_pid s, pparent = Some (cur s)\<rparr>"
  have old: "tasks v ! ch = task v ch" "pview (task v ch) = \<lparr>pstate = Ready, ppid = next_pid s, pparent = parent (task s ch)\<rparr>"
    using q a len procs_nth [of ch v] by (auto simp: quiet_def task_def)
  let ?s3 = "let s1 = v\<lparr>mem := memcpy (mem v) (trap_cx_ppn (task v ch)) (trap_cx_ppn (task v (cur s))) PAGE_SIZE\<rparr>;
           s2 = cx_set (trap_cx_ppn (task s1 ch)) CX_a0 0 s1
       in cx_set (trap_cx_ppn (task s2 ch)) CX_kernel_sp (kstack (task s2 ch)) s2"
  have s3: "pmem.more ?s3 = pmem.more v" by (simp add: Let_def cx_set_def)
  let ?s4 = "upd_task ch (\<lambda>p. p\<lparr>entry := entry (task ?s3 (cur s)), base_size := base_size (task ?s3 (cur s)),
                    parent := Some (cur s), ustack := ustack (task ?s3 (cur s))\<rparr>) ?s3"
  let ?s5 = "kprintf (''running task num:%d'' @ NL) [word_of_int (top ?s4)] ?s4"
  let ?s6 = "upd_task ch (\<lambda>p. p\<lparr>task_context := task_context_init (kstack p) (trap_return_addr lk)\<rparr>) ?s5"
  have t: "t = ?s6\<lparr>conts := (conts ?s6)[ch := KReturn]\<rparr>" unfolding 2(3) fork_child_def Let_def by simp
  have p3: "ptab_of ?s3 = ptab_of u" "tasks ?s3 = tasks v" "length (tasks ?s3) = MAX_TASK_NUM"
    using q quiet_more [OF s3] a(4) len more_fields(1) [OF s3] by (simp_all add: quiet_def)
  have p4: "ptab_of ?s4 = (ptab_of u)\<lparr>procs := (procs (ptab_of u))[ch := ?new]\<rparr>"
    unfolding ptab_upd_task p3 using old by (simp add: pview_def)
  have p6: "ptab_of t = ptab_of ?s4"
    unfolding t ptab_of_conts by (subst ptab_upd_task_same) (simp_all add: pview_def)
  have "pstep (ptab_of s) (ptab_of t)"
  proof -
    have "ptab_of t = (ptab_of s)\<lparr>procs := (procs (ptab_of s))[ch := ?new], ptop := top s + 1, pnext := next_pid s + 1\<rparr>"
      unfolding p6 p4 a(3) by (cases "ptab_of s") simp
    then show ?thesis using pstep.spawn [of ch "ptab_of s"] a(1,2) len by (simp add: procs_nth pview_def)
  qed
  moreover have "kwf t"
  proof -
    have c: "conts ?s6 = conts s" "current t = current s" "length (tasks t) = MAX_TASK_NUM"
      using quiet_more [OF s3] q a(4,5,6) len cont_of_more(1) [of ?s6 ?s3]
      by (simp_all add: t quiet_def nth_upd_task kprintf_def)
    then show ?thesis using wf a(1)
      by (auto simp: kwf_def t own_children_def nth_list_update)
  qed
  ultimately show ?thesis by (simp add: sim_def)
qed

lemma child_proc_mv_ptab:
  "ptab_of (child_proc_mv c s) =
     (ptab_of s)\<lparr>procs := map (\<lambda>p. if pparent p = Some c then p\<lparr>pparent := Some 0\<rparr> else p) (procs (ptab_of s))\<rparr>"
  by (simp add: child_proc_mv_def ptab_of_def cur_def pview_def)

lemma sim_exit:
  fixes s :: "'a kmachine_scheme"
  assumes wf: "kwf s" and x: "sys_exit code s = Inr t"
  shows "sim s t"
proof -
  let ?u = "child_proc_mv (cur s) (upd_task (cur s) (\<lambda>t. t\<lparr>exit_code := code, task_state := Zombie\<rparr>) s)"
  let ?v = "?u\<lparr>top := top ?u - 1\<rparr>"
  from x obtain w where y: "sys_yield ?v = Inr (True, w)" and t: "t = w\<lparr>user_mode := False\<rparr>"
    and p: "pid (task s (cur s)) \<noteq> 0"
    by (auto simp: sys_exit_def exit_current_and_run_next_def Let_def res_simps split: if_splits)
  have c: "cur s < length (tasks s)" "length (tasks s) = MAX_TASK_NUM" using wf by (auto simp: kwf_def cur_def)
  have v: "ptab_of ?v = leave (ptab_of s)"
  proof -
    have "ptab_of ?v = (ptab_of ?u)\<lparr>ptop := top ?u - 1\<rparr>" by (simp add: ptab_of_def cur_def)
    then show ?thesis using c
      by (simp add: child_proc_mv_ptab ptab_upd_task leave_def set_state_def)
        (simp add: ptab_of_def pview_def child_proc_mv_def)
  qed
  have l: "length (tasks ?v) = MAX_TASK_NUM" "current ?v = current s" "kstate.more ?v = kstate.more s"
    using c by (simp_all add: child_proc_mv_def nth_upd_task)
  have y': "can_switch (leave (ptab_of s))" "ptab_of w = switch (leave (ptab_of s))" "length (tasks w) = MAX_TASK_NUM"
      "0 \<le> current w" "current w < int MAX_TASK_NUM" "kstate.more w = kstate.more s"
    using sys_yield_spec [OF _ _ _ y] l wf by (auto simp: kwf_def v)
  have "pstep (ptab_of s) (ptab_of w)"
    unfolding y'(2) using p c y'(1) by (intro pstep.leave) (simp_all add: procs_nth pview_def)
  moreover have "conts w = conts s" using y'(6) cont_of_more(1) by blast
  ultimately show ?thesis using wf y' by (simp add: sim_def t kwf_def own_children_def ptab_of_def cur_def)
qed

lemma sim_recycle:
  fixes s :: "'a kmachine_scheme"
  assumes wf: "kwf s" and x: "recycle_round cx (cur s) h s = Inr t"
  shows "sim s t"
proof (cases "find (\<lambda>i. parent (task s i) = Some (cur s) \<and> task_state (task s i) = Zombie) [0..<MAX_TASK_NUM]")
  case None
  with x consider "yield_at (KRecycle cx (cur s)) s = Inr t" | "quiet s t"
    by (auto simp: recycle_round_def quiet_simps split: if_splits)
  then show ?thesis by cases (rule sim_yield_at [OF wf], assumption, simp, rule sim_quiet [OF wf])
next
  case (Some i)
  note i = find_slot [OF Some]
  from x Some obtain u where u: "free_child i s = Inr u"
    and t: "t = syscall_return cx (scast (pid (task s i))) (kprintf (''free pid:%d'' @ NL) [scast (pid (task s i))] u)"
    by (auto simp: recycle_round_def Let_def res_simps)
  from u obtain v1 v2 v where vs: "page_unmap_free s (pagetable (task s i)) (floor_virts (virt_addr_from_size_t TRAMPOLINE)) 1 False = Inr v1"
      "page_unmap_free v1 (pagetable (task s i)) (floor_virts (virt_addr_from_size_t TRAPFRAME)) 1 True = Inr v2"
      "exec_free_lowhalf v2 (pagetable (task s i)) (base_size (task s i)) = Inr v" and u': "u = upd_task i (\<lambda>p. p\<lparr>pagetable := \<lparr>root_ppn = 0\<rparr>,
      trap_cx_ppn := 0, base_size := 0, parent := None, ustack := 0, entry := 0, task_state := UnInit, exit_code := 0\<rparr>) v"
    by (rule free_child_parts)
  have v: "pmem.more v = pmem.more s" using vs by (simp add: keeps)
  have len: "length (tasks s) = MAX_TASK_NUM" using wf by (simp add: kwf_def)
  note vq = quiet_more [OF v] more_fields(1) [OF v]
  have "ptab_of u = (ptab_of s)\<lparr>procs := (procs (ptab_of s))[i := (procs (ptab_of s) ! i)\<lparr>pstate := UnInit, pparent := None\<rparr>]\<rparr>"
    unfolding u' ptab_upd_task using vq i(1) len by (simp add: quiet_def procs_nth pview_def task_def)
  then have "pstep (ptab_of s) (ptab_of u)"
    using pstep.reap [of i "ptab_of s"] i(1,2) len by (simp add: procs_nth pview_def)
  moreover have "kwf u"
    using quiet_kwf [OF vq(1) wf] cont_of_more(1) [of u v] by (simp add: u' kwf_def nth_upd_task own_children_def)
  ultimately have "sim s u" by (simp add: sim_def)
  then show ?thesis by (rule sim_after) (simp add: t quiet_simps)
qed

lemma sim_getchar_round:
  assumes wf: "kwf s" and x: "getchar_round inp cx data s = Inr t"
  shows "sim s t"
proof -
  from x consider "yield_at (KGetchar cx data) s = Inr t" | "quiet s t"
    by (auto simp: getchar_round_def Let_def res_simps quiet_simps split: if_splits)
  then show ?thesis by cases (rule sim_yield_at [OF wf], assumption, simp, rule sim_quiet [OF wf])
qed

lemma sim_SYSCALL:
  fixes s :: "'a kmachine_scheme"
  assumes wf: "kwf s" and x: "SYSCALL lk now inp cx n a1 a2 a3 s = Inr t"
  shows "sim s t"
proof -
  consider "n = 2" | "n = 5" | "n = 6" | "n = 7" | "n = 8" | "n = 9" | "n = 1 \<or> n = 3 \<or> n = 4"
    using x unfolding SYSCALL_def by (auto split: if_splits)
  then show ?thesis
  proof cases
    case 1
    then have "yield_at (KSyscall cx 0) s = Inr t" using x by (simp add: SYSCALL_def)
    then show ?thesis by (rule sim_yield_at [OF wf]) simp
  next
    case 2
    with x wf show ?thesis
      by (auto simp: SYSCALL_def sys_getchar_def sim_getchar_round quiet_simps intro!: sim_quiet split: if_splits)
  next
    case 3
    with x obtain r u where "sys_fork lk s = Inr (r, u)" "t = syscall_return cx (scast r) u"
      by (auto simp: SYSCALL_def res_simps)
    with wf show ?thesis by (intro sim_after [OF sim_fork]) (auto simp: quiet_simps)
  next
    case 4
    with x obtain nm u where u: "sys_exec lk nm (kprintf (''exec app_name:%s'' @ NL) [nm] s) = Inr u" "t = syscall_return cx 0 u"
      unfolding SYSCALL_def by (auto simp: res_simps)
    have "quiet s u" using quiet_exec [OF u(1)] by (intro quiet_trans [OF _ quiet_exec [OF u(1)]]) (simp add: quiet_simps)
    with wf u(2) show ?thesis by (intro sim_quiet) (simp_all add: quiet_simps)
  next
    case 5
    with x wf show ?thesis by (intro sim_exit) (simp_all add: SYSCALL_def)
  next
    case 6
    with x wf show ?thesis by (intro sim_recycle) (auto simp: SYSCALL_def sys_recycle_def)
  next
    case 7
    with x wf show ?thesis
      unfolding SYSCALL_def by (auto simp: res_simps quiet_simps intro!: sim_quiet split: option.splits)
  qed
qed

lemma sim_trap_handler:
  fixes s :: "'a kmachine_scheme"
  assumes wf: "kwf s" and x: "trap_handler lk scause now inp s = Inr t"
  shows "sim s t"
proof -
  let ?s = "set_kernel_trap_entry lk s"
  let ?cx = "get_current_trap_stack ?s"
  have q: "quiet s ?s" by (simp add: quiet_simps)
  have wf': "kwf ?s" by (rule quiet_kwf [OF q wf])
  consider "yield_at KTimer ?s = Inr t"
    | "quiet ?s t"
    | v a b c d where "SYSCALL lk now inp ?cx a b c d (cx_set ?cx CX_sepc v ?s) = Inr t"
    using x unfolding trap_handler_def Let_def by (auto simp: quiet_simps split: if_splits)
  then show ?thesis
  proof cases
    case 1
    show ?thesis by (rule sim_before [OF q sim_yield_at [OF wf' 1]]) simp
  next
    case 2
    then show ?thesis by (rule sim_before [OF q sim_quiet [OF wf']])
  next
    case 3
    have q': "quiet s (cx_set ?cx CX_sepc v ?s)" by (simp add: quiet_simps)
    show ?thesis by (rule sim_before [OF q' sim_SYSCALL [OF quiet_kwf [OF q' wf] 3]])
  qed
qed

lemma sim_resume:
  assumes wf: "kwf s" and x: "resume now inp s = Inr t"
  shows "sim s t"
proof -
  have "cur s < MAX_TASK_NUM" using wf by (auto simp: kwf_def cur_def)
  then have own: "own_children s (cur s)" using wf by (simp add: kwf_def)
  show ?thesis
  proof (cases "conts s ! cur s")
    case (KRecycle cx f)
    with x own have "recycle_round cx (cur s) True s = Inr t" by (simp add: resume_def own_children_def)
    then show ?thesis by (rule sim_recycle [OF wf])
  qed (use x wf in \<open>auto simp: resume_def quiet_simps sim_getchar_round intro!: sim_quiet\<close>)
qed

lemma kstep_sim: "kstep lk s t \<Longrightarrow> kwf s \<Longrightarrow> sim s t"
proof (induction rule: kstep.induct)
  case (user_code s m)
  then show ?case by (intro sim_quiet) (simp_all add: quiet_simps)
next
  case (user_trap s scause now inp r t)
  have q: "quiet s (alltraps (get_current_trap_stack s) r s)" by (rule quiet_more [OF alltraps_keeps])
  show ?case by (rule sim_before [OF q sim_trap_handler [OF quiet_kwf [OF q user_trap(3)] user_trap(2)]])
next
  case (kernel_run s now inp t)
  then show ?case by (intro sim_resume)
qed

section \<open>The register save area\<close>

lemma cx_index_less: "cx_index f < 37"
  by (cases f) simp_all

lemma cx_index_inj: "cx_index f = cx_index g \<Longrightarrow> f = g"
  by (cases f; cases g) simp_all

lemma cx_apart:
  assumes "f \<noteq> g"
  shows "8 \<le> unat (cx_addr cx f - cx_addr cx g)"
proof -
  let ?i = "cx_index f" and ?j = "cx_index g"
  have ij: "?i < 37" "?j < 37" "?i \<noteq> ?j" using cx_index_less cx_index_inj assms by auto
  have "cx_addr cx f - cx_addr cx g = (word_of_int (8 * (int ?i - int ?j)) :: u64)"
    by (simp add: cx_addr_def algebra_simps)
  moreover have "unat (word_of_int k :: u64) = nat (k mod 2 ^ 64)" for k
    by (simp add: unsigned_of_int take_bit_eq_mod)
  ultimately have "unat (cx_addr cx f - cx_addr cx g) = nat (8 * (int ?i - int ?j) mod 2 ^ 64)" by metis
  also have "\<dots> \<ge> 8"
  proof (cases "?j < ?i")
    case True
    then have "8 * (int ?i - int ?j) mod 2 ^ 64 = 8 * (int ?i - int ?j)" using ij by (intro mod_pos_pos_trivial) auto
    then show ?thesis using True by simp
  next
    case False
    have "8 * (int ?i - int ?j) mod 2 ^ 64 = (8 * (int ?i - int ?j) + 2 ^ 64) mod 2 ^ 64" by simp
    also have "\<dots> = 8 * (int ?i - int ?j) + 2 ^ 64" using False ij by (intro mod_pos_pos_trivial) auto
    finally show ?thesis using ij by simp
  qed
  finally show ?thesis .
qed

lemma cx_get_set: "cx_get (mem (cx_set cx g v s)) cx f = (if f = g then v else cx_get (mem s) cx f)"
  by (simp add: cx_get_def cx_set_def read64_write64_disjoint cx_apart)

lemma cx_get_alltraps:
  "cx_get (mem (alltraps cx r s)) cx f = (if f \<in> set saved_fields then r f else cx_get (mem s) cx f)"
proof -
  have "cx_get (mem (fold (\<lambda>f. cx_set cx f (r f)) fs s)) cx f = (if f \<in> set fs then r f else cx_get (mem s) cx f)" for fs
    by (induction fs arbitrary: s) (auto simp: cx_get_set)
  then show ?thesis by (simp add: alltraps_def)
qed

section \<open>Main results\<close>

text \<open>
  A sample machine for the concrete instances: three runnable processes, the first one about
  to return to user mode.
\<close>

definition sample_task :: "TaskState \<Rightarrow> u32 \<Rightarrow> nat option \<Rightarrow> TaskControlBlock" where
  "sample_task st n par =
     \<lparr>task_state = st, pid = n, parent = par, task_context = task_context_init 0 0, trap_cx_ppn = 0x80500000,
      base_size = 0, kstack = 0, ustack = 0, entry = 0, pagetable = \<lparr>root_ppn = 0x80400\<rparr>, exit_code = 0\<rparr>"

definition sample_kernel :: "TaskControlBlock list \<Rightarrow> int \<Rightarrow> int \<Rightarrow> kmachine" where
  "sample_kernel ts c n =
     \<lparr>mem = (\<lambda>_. 0), memory_allocator = memory_allocator sample_pmem, console = [],
      tasks = ts @ replicate (10 - length ts) (sample_task UnInit 0 None), current = c, top = n, next_pid = 3,
      kernel_pagetable = \<lparr>root_ppn = 0x80401\<rparr>, sstatus = 0, sie = 0, stvec = 0, satp = 0, app_names = replicate 10 0,
      conts = replicate 10 KReturn, user_mode = False\<rparr>"

abbreviation three_tasks :: "TaskControlBlock list" where
  "three_tasks \<equiv> [sample_task Ready 0 None, sample_task Running 1 (Some 0), sample_task Ready 2 (Some 0)]"

abbreviation sample_linker :: linker where
  "sample_linker \<equiv> \<lparr>kernelend = 0x80300000, etext = 0x80210000, trampoline = 0x80208000, alltraps_addr = 0x80208000,
     restore_addr = 0x80208100, trap_return_addr = 0x80204000, trap_handler_addr = 0x80204100,
     trap_from_kernel_addr = 0x80204200, num_app_addr = 0x80220000, app_names_addr = 0x80220100\<rparr>"

lemma sample_kwf: "length ts \<le> 10 \<Longrightarrow> 0 \<le> c \<Longrightarrow> c < 10 \<Longrightarrow> kwf (sample_kernel ts c n)"
  by (simp add: kwf_def sample_kernel_def own_children_def)

text \<open>
  C1: The kernel implements the process-table specification: every step of the running
  kernel (user code, a trap with the whole trap handler and system call, the continuation of
  a suspended task) is either invisible in the process table or one of the steps of the
  specification: a switch to the next slot, a fork into a free slot, an exit with the
  children handed to process 0, or the recycling of one of the running process's own zombies.
\<close>

theorem kernel_refines_process_table:
  assumes "kwf s" and "kstep lk s t"
  shows "kwf t \<and> (ptab_of t = ptab_of s \<or> pstep (ptab_of s) (ptab_of t))"
  using kstep_sim [OF assms(2,1)] by (simp add: sim_def)

lemma sample_timer_step:
  "kstep sample_linker ((sample_kernel three_tasks 1 3)\<lparr>user_mode := True\<rparr>)
     (case trap_handler sample_linker 0x8000000000000005 0 0
        (alltraps 0x80500000 (\<lambda>_. 0) ((sample_kernel three_tasks 1 3)\<lparr>user_mode := True\<rparr>)) of Inr t \<Rightarrow> t)"
  (is "kstep _ ?s (case ?r of Inr t \<Rightarrow> t)")
proof -
  have m: "tasks x = tasks ?s" "current x = 1" "top x = 3" if "x = alltraps 0x80500000 (\<lambda>_. 0) ?s" for x
    using more_fields [OF alltraps_keeps, of "0x80500000" "\<lambda>_. 0" ?s] by (simp_all add: that sample_kernel_def)
  obtain t where t: "?r = Inr t"
    unfolding trap_handler_def yield_at_def sys_yield_def Let_def
    by (simp add: set_kernel_trap_entry_def task_def m [OF refl]) (simp add: sample_kernel_def sample_task_def cur_def)
  have cx: "get_current_trap_stack ?s = 0x80500000"
    by (simp add: get_current_trap_stack_def task_def cur_def sample_kernel_def sample_task_def)
  have "kstep sample_linker ?s t" using t by (intro kstep.user_trap [where r = "\<lambda>_. 0"]) (simp_all add: cx)
  then show ?thesis by (simp add: t)
qed

theorem kernel_refines_process_table_witness:
  "\<exists>t. kstep sample_linker ((sample_kernel three_tasks 1 3)\<lparr>user_mode := True\<rparr>) t \<and> kwf t \<and>
     (ptab_of t = ptab_of (sample_kernel three_tasks 1 3) \<or> pstep (ptab_of (sample_kernel three_tasks 1 3)) (ptab_of t))"
proof -
  have "kwf ((sample_kernel three_tasks 1 3)\<lparr>user_mode := True\<rparr>)"
    using sample_kwf [of three_tasks 1 3] by (simp add: kwf_def own_children_def)
  from kernel_refines_process_table [OF this sample_timer_step]
  have "kwf t \<and> (ptab_of t = ptab_of (sample_kernel three_tasks 1 3) \<or> pstep (ptab_of (sample_kernel three_tasks 1 3)) (ptab_of t))"
    if "t = (case trap_handler sample_linker 0x8000000000000005 0 0
        (alltraps 0x80500000 (\<lambda>_. 0) ((sample_kernel three_tasks 1 3)\<lparr>user_mode := True\<rparr>)) of Inr t \<Rightarrow> t)" for t
    by (simp add: that ptab_of_def cur_def)
  with sample_timer_step show ?thesis by blast
qed

text \<open>
  C2: Along every run of the kernel, whatever the user programs do, the process table is
  consistent: \<^verbatim>\<open>_top\<close> is the number of runnable slots, the running slot is runnable,
  slot 0 is the initial process and stays runnable, free slots have no parent, and every
  other process has a runnable parent that can recycle it.
\<close>

theorem kernel_task_invariant:
  assumes "(kstep lk)\<^sup>*\<^sup>* s t" and "kwf s" and "pinv (ptab_of s)"
  shows "kwf t \<and> pinv (ptab_of t)"
  using assms
proof (induction rule: rtranclp_induct)
  case (step u v)
  with kstep_sim [OF step(2)] pstep_pinv show ?case by (auto simp: sim_def)
qed simp

lemma sample_pinv: "pinv (ptab_of (sample_kernel three_tasks 1 3))"
proof -
  have ps: "procs (ptab_of (sample_kernel three_tasks 1 3)) =
      [\<lparr>pstate = Ready, ppid = 0, pparent = None\<rparr>, \<lparr>pstate = Running, ppid = 1, pparent = Some 0\<rparr>,
       \<lparr>pstate = Ready, ppid = 2, pparent = Some 0\<rparr>] @ replicate 7 \<lparr>pstate = UnInit, ppid = 0, pparent = None\<rparr>"
    by (simp add: ptab_of_def sample_kernel_def sample_task_def pview_def)
  have "has_parent (procs (ptab_of (sample_kernel three_tasks 1 3))) i" if "i < 10" for i
  proof -
    have "i \<in> {0, 1, 2} \<or> 3 \<le> i" by auto
    then show ?thesis using that unfolding ps
      by (auto simp: has_parent_def live_def nth_append intro!: exI [of _ 0])
  qed
  moreover have "pcur (ptab_of (sample_kernel three_tasks 1 3)) = 1" "ptop (ptab_of (sample_kernel three_tasks 1 3)) = 3"
    by (simp_all add: sample_kernel_def cur_def)
  ultimately show ?thesis unfolding pinv_def by (simp add: ps live_def)
qed

theorem kernel_task_invariant_witness:
  "\<exists>t. kstep sample_linker ((sample_kernel three_tasks 1 3)\<lparr>user_mode := True\<rparr>) t \<and> pinv (ptab_of t)"
proof -
  have "kwf ((sample_kernel three_tasks 1 3)\<lparr>user_mode := True\<rparr>)"
    using sample_kwf [of three_tasks 1 3] by (simp add: kwf_def own_children_def)
  moreover have "pinv (ptab_of ((sample_kernel three_tasks 1 3)\<lparr>user_mode := True\<rparr>))"
    using sample_pinv by (simp add: ptab_of_def cur_def)
  ultimately show ?thesis
    using kernel_task_invariant [OF r_into_rtranclp [of "kstep sample_linker", OF sample_timer_step]] sample_timer_step by blast
qed

subsection \<open>Round-robin scheduling\<close>

fun yields :: "nat \<Rightarrow> 'a kstate_scheme \<Rightarrow> 'a kstate_scheme res" where
  "yields 0 s = Inr s"
| "yields (Suc n) s = bindE (sys_yield s) (\<lambda>(_, s). yields n s)"

definition runnable :: "'a kstate_scheme \<Rightarrow> nat \<Rightarrow> bool" where
  "runnable s i \<longleftrightarrow> live (pview (task s i))"

definition front_runnable :: "'a kstate_scheme \<Rightarrow> bool" where
  "front_runnable s \<longleftrightarrow> length (tasks s) = MAX_TASK_NUM \<and> 0 < top s \<and> top s \<le> int MAX_TASK_NUM \<and>
     0 \<le> current s \<and> current s < top s \<and> (\<forall>i. int i < top s \<longrightarrow> runnable s i)"

lemma sys_yield_front:
  fixes s :: "'a kstate_scheme"
  assumes "front_runnable s"
  obtains t where "sys_yield s = Inr (True, t)" "front_runnable t" "top t = top s" "current t = (current s + 1) mod top s"
proof -
  let ?n = "nat ((current s + 1) mod top s)"
  have f: "length (tasks s) = MAX_TASK_NUM" "0 < top s" "top s \<le> 10" "0 \<le> current s" "current s < top s"
    using assms by (auto simp: front_runnable_def)
  have n: "int ?n = (current s + 1) mod top s" "int ?n < top s" using f by simp_all
  have "(current s + 1) mod top s < 10" using f(3) pos_mod_bound [OF f(2), of "current s + 1"] by linarith
  then have "?n < MAX_TASK_NUM" "runnable s ?n" using assms n by (auto simp: front_runnable_def)
  then obtain t where t: "sys_yield s = Inr (True, t)" "current t = int ?n" "top t = top s"
    using f(2) by (auto simp: sys_yield_def Let_def runnable_def live_pview)
  have sp: "can_switch (ptab_of s)" "ptab_of t = switch (ptab_of s)" "length (tasks t) = MAX_TASK_NUM"
    using sys_yield_spec [OF f(1) _ _ t(1)] f by auto
  have "runnable t i" if "int i < top s" for i
  proof -
    have i: "i < MAX_TASK_NUM" "runnable s i" using that f(3) assms by (auto simp: front_runnable_def)
    have "live (procs (ptab_of t) ! i) = live (procs (ptab_of s) ! i)"
      unfolding sp(2) using sp(1) f i(1) by (intro switch_procs) (auto simp: cur_def)
    then show ?thesis using i f(1) sp(3) by (simp add: procs_nth runnable_def)
  qed
  then have "front_runnable t" using f sp(3) t(2,3) n by (auto simp: front_runnable_def)
  with t n that show ?thesis by simp
qed

lemma yields_front:
  "front_runnable s \<Longrightarrow> \<exists>t. yields n s = Inr t \<and> front_runnable t \<and> top t = top s \<and> current t = (current s + int n) mod top s"
proof (induction n arbitrary: s)
  case 0
  then show ?case by (auto simp: front_runnable_def)
next
  case (Suc n)
  obtain u where u: "sys_yield s = Inr (True, u)" "front_runnable u" "top u = top s" "current u = (current s + 1) mod top s"
    using sys_yield_front [OF Suc.prems] .
  from Suc.IH [OF u(2)] obtain t where "yields n u = Inr t" "front_runnable t" "top t = top s"
      "current t = ((current s + 1) mod top s + int n) mod top s"
    unfolding u(3,4) by blast
  then show ?case using u(1) by (simp add: mod_simps add.assoc)
qed

text \<open>
  C24: Round-robin scheduling is fair while the runnable processes fill the first slots: every
  one of the \<^verbatim>\<open>_top\<close> processes gets the processor within \<^verbatim>\<open>_top\<close> yields, and no
  yield fails.
\<close>

theorem yield_round_robin:
  assumes "front_runnable s" and "int i < top s"
  shows "\<exists>n t. int n \<le> top s \<and> yields n s = Inr t \<and> current t = int i \<and> front_runnable t"
proof -
  let ?n = "nat ((int i - current s) mod top s)"
  have s: "0 < top s" "0 \<le> current s" "current s < top s" using assms by (auto simp: front_runnable_def)
  have n: "int ?n = (int i - current s) mod top s" "int ?n \<le> top s"
    using s(1) pos_mod_bound [OF s(1), of "int i - current s"] by (simp, linarith)
  have "(current s + (int i - current s) mod top s) mod top s = int i" using assms(2) by (simp add: mod_simps)
  with yields_front [OF assms(1), of ?n] n show ?thesis by metis
qed

theorem yield_round_robin_witness:
  "\<exists>n t. int n \<le> 3 \<and> yields n (sample_kernel three_tasks 1 3) = Inr t \<and> current t = 0 \<and> front_runnable t"
proof -
  have "runnable (sample_kernel three_tasks 1 3) i" if "int i < 3" for i
  proof -
    have "i \<in> {0, 1, 2}" using that by auto
    then show ?thesis by (auto simp: runnable_def live_pview task_def sample_kernel_def sample_task_def)
  qed
  then have "front_runnable (sample_kernel three_tasks 1 3)"
    by (simp add: front_runnable_def) (simp add: sample_kernel_def)
  moreover have "top (sample_kernel three_tasks 1 3) = 3" by (simp add: sample_kernel_def)
  ultimately show ?thesis using yield_round_robin [of "sample_kernel three_tasks 1 3" 0] by simp
qed

lemma yields_below_top:
  fixes s :: "'a kstate_scheme"
  assumes "yields n s = Inr t" and "length (tasks s) = MAX_TASK_NUM" and "0 \<le> current s" "current s < int MAX_TASK_NUM"
  shows "top t = top s \<and> (current t = current s \<or> current t < top s)"
  using assms
proof (induction n arbitrary: s)
  case (Suc n)
  then obtain sw u where u: "sys_yield s = Inr (sw, u)" "yields n u = Inr t" by (auto simp: res_simps)
  note y = sys_yield_spec [OF Suc.prems(2-4) u(1)]
  have l: "length (tasks u) = MAX_TASK_NUM" "0 \<le> current u" "current u < int MAX_TASK_NUM"
    using y Suc.prems(2-4) by (auto split: if_splits)
  have "top u = top s \<and> (current u = current s \<or> current u < top s)"
    using u(1) by (auto simp: sys_yield_def Let_def split: if_splits)
  then show ?case using Suc.IH [OF u(2) l] by auto
qed simp

text \<open>
  C27: A runnable process in a slot at or beyond \<^verbatim>\<open>_top\<close> never runs, however often the
  others yield: \<^verbatim>\<open>__sys_yield\<close> picks the next slot modulo the number of runnable
  processes, not modulo the size of the array. The exit of a process in the middle brings
  this about.
\<close>

theorem yield_starves:
  fixes s :: "'a kstate_scheme"
  assumes "length (tasks s) = MAX_TASK_NUM" and "0 \<le> current s" and "current s < top s" and "top s \<le> int i"
    and "i < MAX_TASK_NUM" and "yields n s = Inr t"
  shows "current t \<noteq> int i"
  using yields_below_top [OF assms(6,1,2)] assms by auto

theorem yield_starves_witness:
  "\<exists>s. exit_current_and_run_next 0 (sample_kernel three_tasks 1 3) = Inr (True, s) \<and>
     runnable s 2 \<and> (\<forall>n t. yields n s = Inr t \<longrightarrow> current t \<noteq> 2)"
proof -
  obtain s where s: "exit_current_and_run_next 0 (sample_kernel three_tasks 1 3) = Inr (True, s)"
    "runnable s 2" "length (tasks s) = MAX_TASK_NUM" "current s = 0" "top s = 2"
    by (simp add: exit_current_and_run_next_def Let_def sys_yield_def child_proc_mv_def upd_task_def task_def cur_def
        sample_kernel_def sample_task_def runnable_def live_pview)
  have "current t \<noteq> 2" if "yields n s = Inr t" for n t
    using yield_starves [OF s(3) _ _ _ _ that, of 2] s(4,5) by simp
  with s(1,2) show ?thesis by blast
qed

lemma exit_slot_ne:
  fixes c k :: int
  assumes "0 < c" and "0 < k"
  shows "(c + 1) mod k \<noteq> c"
proof
  assume *: "(c + 1) mod k = c"
  then have "c < k" using assms(2) pos_mod_bound by metis
  show False
  proof (cases "c + 1 = k")
    case True
    with * assms show False by simp
  next
    case False
    with \<open>c < k\<close> have "(c + 1) mod k = c + 1" using assms by (intro mod_pos_pos_trivial) auto
    with * show False by simp
  qed
qed

text \<open>
  C25: When a process other than the first exits, the kernel stops with the panic
  \<^verbatim>\<open>Zombie exit failed\<close> exactly when the one slot it tries next, counted modulo the
  number of processes left, is not runnable, although other slots are. Otherwise it goes on
  with that slot. Two exits in a row in the middle of the table are enough to stop it.
\<close>

theorem exit_needs_next_slot:
  fixes s :: "'a kmachine_scheme"
  assumes wf: "kwf s" and inv: "pinv (ptab_of s)" and p: "pid (task s (cur s)) \<noteq> 0"
  defines "n \<equiv> nat ((current s + 1) mod (top s - 1))"
  shows "if runnable s n then \<exists>t. exit_current_and_run_next code s = Inr (True, t) \<and> current t = int n
    else exit_current_and_run_next code s = Inl (Panic ''Zombie exit failed'')"
proof -
  let ?u = "child_proc_mv (cur s) (upd_task (cur s) (\<lambda>t. t\<lparr>exit_code := code, task_state := Zombie\<rparr>) s)"
  let ?v = "?u\<lparr>top := top ?u - 1\<rparr>"
  have len: "length (tasks s) = MAX_TASK_NUM" and c: "0 \<le> current s" "current s < 10" "cur s < MAX_TASK_NUM"
    using wf by (auto simp: kwf_def cur_def)
  have live: "live (procs (ptab_of s) ! 0)" "live (procs (ptab_of s) ! cur s)" "pid (task s 0) = 0"
    and top: "top s = int (length (filter live (procs (ptab_of s))))"
    using inv len by (auto simp: pinv_def procs_nth pview_def)
  have ne: "cur s \<noteq> 0" using p live(3) by metis
  have "card {0, cur s} \<le> card {i. i < length (procs (ptab_of s)) \<and> live (procs (ptab_of s) ! i)}"
    using live len c(3) by (intro card_mono) auto
  then have k: "1 \<le> top s - 1" using ne by (simp add: top length_filter_conv_card)
  have "length (filter live (procs (ptab_of s))) \<le> 10"
    using length_filter_le [of live "procs (ptab_of s)"] len by simp
  then have k': "top s - 1 < 10" by (simp add: top)
  have b: "0 \<le> (current s + 1) mod (top s - 1)" "(current s + 1) mod (top s - 1) < top s - 1"
    using k by (simp_all add: pos_mod_bound)
  then have n: "int n = (current s + 1) mod (top s - 1)" "n < MAX_TASK_NUM" using k' by (simp_all add: n_def)
  have "n \<noteq> cur s" using exit_slot_ne [of "current s" "top s - 1"] k c(1) ne n(1) by (auto simp: cur_def)
  then have st: "task_state (task ?v n) = task_state (task s n)" "current ?v = current s" "top ?v = top s - 1"
    using n(2) len by (simp_all add: child_proc_mv_def task_def upd_task_def)
  have "exit_current_and_run_next code s = bindE (sys_yield ?v) (\<lambda>(sw, s).
      if sw then Inr (True, s) else Inl (Panic ''Zombie exit failed''))"
    using p by (simp add: exit_current_and_run_next_def Let_def)
  also have "\<dots> = (if runnable s n then bindE (sys_yield ?v) (\<lambda>(sw, s). Inr (True, s)) else Inl (Panic ''Zombie exit failed''))"
    using k n st by (simp add: sys_yield_def Let_def n_def runnable_def live_pview)
  finally show ?thesis
    using k n st by (auto simp: sys_yield_def Let_def n_def runnable_def live_pview)
qed

lemma sample_exit_pinv: "pinv (ptab_of (sample_kernel [sample_task Ready 0 None, sample_task Zombie 1 (Some 0),
    sample_task Running 2 (Some 0), sample_task Ready 3 (Some 2)] 2 3))" (is "pinv (ptab_of ?s)")
proof -
  have ps: "procs (ptab_of ?s) =
      [\<lparr>pstate = Ready, ppid = 0, pparent = None\<rparr>, \<lparr>pstate = Zombie, ppid = 1, pparent = Some 0\<rparr>,
       \<lparr>pstate = Running, ppid = 2, pparent = Some 0\<rparr>, \<lparr>pstate = Ready, ppid = 3, pparent = Some 2\<rparr>] @
      replicate 6 \<lparr>pstate = UnInit, ppid = 0, pparent = None\<rparr>"
    by (simp add: ptab_of_def sample_kernel_def sample_task_def pview_def)
  have "has_parent (procs (ptab_of ?s)) i" if "i < 10" for i
  proof -
    have "i \<in> {0, 1, 2} \<or> i = 3 \<or> 4 \<le> i" by auto
    then show ?thesis using that unfolding ps by (auto simp: has_parent_def live_def nth_append)
  qed
  moreover have "pcur (ptab_of ?s) = 2" "ptop (ptab_of ?s) = 3" by (simp_all add: sample_kernel_def cur_def)
  ultimately show ?thesis unfolding pinv_def by (simp add: ps live_def)
qed

theorem exit_needs_next_slot_witness:
  "exit_current_and_run_next 7 (sample_kernel [sample_task Ready 0 None, sample_task Zombie 1 (Some 0),
      sample_task Running 2 (Some 0), sample_task Ready 3 (Some 2)] 2 3) = Inl (Panic ''Zombie exit failed'')"
  (is "exit_current_and_run_next 7 ?s = _")
proof -
  have s: "pid (task ?s (cur ?s)) = 2" "current ?s = 2" "top ?s = 3" "\<not> runnable ?s (Suc 0)"
    by (simp_all add: sample_kernel_def sample_task_def task_def cur_def runnable_def live_pview)
  show ?thesis using exit_needs_next_slot [OF sample_kwf sample_exit_pinv, of 7] s by simp
qed

subsection \<open>Traps keep the registers of the user\<close>



end
