(* ===== verification/UserCopy.thy ===== *)
theory UserCopy
  imports PageFree Task
begin

text \<open>
  What \<^verbatim>\<open>uvm_copy\<close> of \<^verbatim>\<open>os/src/task.c\<close> gives the child of a fork: for every
  mapped page of the father below the size, a page of its own with the same access flags and
  the same bytes. The father's address space and every other frame handed out before are
  untouched.
\<close>

section \<open>Copying one frame\<close>

lemma frame_base: "PTE_PA e = phys_addr_from_phys_page_num (PageTableEntry_ppn e)"
  by (simp add: addr_simps phys_addr_from_phys_page_num_def)

lemma frame_of_base:
  assumes "p < 0x100000000000" and "k < 4096"
  shows "frame_of (phys_addr_from_phys_page_num p + k) = p"
proof -
  have "p < 0x10000000000000" using assms(1) by (rule order.strict_trans) simp
  from in_frame_iff [OF this, of "phys_addr_from_phys_page_num p + k"] assms(2) show ?thesis by simp
qed

lemma frames_apart:
  assumes "p < 0x100000000000" "q < 0x100000000000" "p \<noteq> q"
  shows "PAGE_SIZE \<le> phys_addr_from_phys_page_num p - phys_addr_from_phys_page_num q"
proof -
  let ?d = "phys_addr_from_phys_page_num p - phys_addr_from_phys_page_num q"
  have "p < 0x10000000000000" "q < 0x10000000000000"
    using assms(1,2) by (auto elim!: order.strict_trans)
  have "\<not> ?d < PAGE_SIZE"
  proof
    assume "?d < PAGE_SIZE"
    then have "frame_of (phys_addr_from_phys_page_num p) = q"
      using in_frame_iff [OF \<open>q < 0x10000000000000\<close>] by simp
    with frame_of_base [OF assms(1), of 0] assms(3) show False by simp
  qed
  then show ?thesis by simp
qed

lemma memcpy_frame:
  assumes "p < 0x100000000000" "q < 0x100000000000" "p \<noteq> q"
  shows "memcpy m (phys_addr_from_phys_page_num p) (phys_addr_from_phys_page_num q) PAGE_SIZE x =
    (if frame_of x = p then m (phys_addr_from_phys_page_num q + (x - phys_addr_from_phys_page_num p)) else m x)"
proof -
  have "p < 0x10000000000000" using assms(1) by (rule order.strict_trans) simp
  from in_frame_iff [OF this] show ?thesis
    using frames_apart [OF assms] frames_apart [OF assms(2,1)] assms(3) by (simp add: memcpy_apply)
qed

section \<open>Copies\<close>

text \<open>
  Page \<open>u\<close> of the table \<open>c\<close> in \<open>s\<close> is a private copy of that page of the table
  \<open>f\<close> in \<open>s0\<close>: absent if the page was, otherwise in a frame that was not handed out in
  \<open>s0\<close> and is no table, with the flags and the bytes of the original.
\<close>

definition private_copy :: "u64 \<Rightarrow> u64 \<Rightarrow> u64 \<Rightarrow> 'a pmem_scheme \<Rightarrow> 'b pmem_scheme \<Rightarrow> u64 \<Rightarrow> bool" where
  "private_copy lo f c s0 s u \<longleftrightarrow>
     (case pt_lookup (mem s0) f u of
        None \<Rightarrow> pt_lookup (mem s) c u = None
      | Some e \<Rightarrow> (case pt_lookup (mem s) c u of
          None \<Rightarrow> False
        | Some e' \<Rightarrow> PageTableEntry_flags e' = PageTableEntry_flags e \<and>
            PageTableEntry_ppn e' \<in> owned lo s - owned lo s0 - tables (mem s) c \<and>
            (\<forall>k < 4096. mem s (PTE_PA e' + k) = mem s0 (PTE_PA e + k))))"

definition copied :: "u64 \<Rightarrow> u64 \<Rightarrow> u64 \<Rightarrow> nat \<Rightarrow> 'a pmem_scheme \<Rightarrow> 'a pmem_scheme \<Rightarrow> bool" where
  "copied lo f c n s0 s \<longleftrightarrow>
     pt_ok lo s f \<and> pt_ok lo s c \<and> tables (mem s) f \<inter> tables (mem s) c = {} \<and>
     owned lo s0 \<subseteq> owned lo s \<and>
     tables (mem s) c \<subseteq> tables (mem s0) c \<union> (owned lo s - owned lo s0) \<and>
     (\<forall>v. pt_lookup (mem s) f v = pt_lookup (mem s0) f v) \<and>
     (\<forall>x. frame_of x \<in> owned lo s0 - tables (mem s0) c \<longrightarrow> mem s x = mem s0 x) \<and>
     (\<forall>u \<in> vrange 0 n. private_copy lo f c s0 s u) \<and>
     (\<forall>u < 0x8000000. u \<notin> vrange 0 n \<longrightarrow> pt_lookup (mem s) c u = pt_lookup (mem s0) c u) \<and>
     inj_on (frame_at (mem s) c) (mapped (mem s) c (vrange 0 n))"

lemma entry_frame_ppn: "entry_frame e = PageTableEntry_ppn e"
  unfolding entry_frame_def addr_simps by (rule bit_word_eqI) (auto simp: bit_simps)

lemma fresh_frame_copy:
  assumes inv: "pool_inv lo s" and al: "kalloc s = Inr (p, s1)" and q: "q \<in> owned lo s"
    and s2: "s2 = s1\<lparr>mem := memcpy (mem s1) (phys_addr_from_phys_page_num p) (phys_addr_from_phys_page_num q) PAGE_SIZE\<rparr>"
  shows "p \<notin> owned lo s" and "owned lo s2 = insert p (owned lo s)" and "p < 0x100000000000"
    and "frame_of x \<noteq> p \<Longrightarrow> mem s2 x = mem s x"
    and "k < 4096 \<Longrightarrow> mem s2 (phys_addr_from_phys_page_num p + k) = mem s (phys_addr_from_phys_page_num q + k)"
    and "pt_ok lo s r \<Longrightarrow> pt_ok lo s2 r \<and> tables (mem s2) r = tables (mem s) r \<and>
      (\<forall>v. pt_lookup (mem s2) r v = pt_lookup (mem s) r v)"
proof -
  note al' = al [unfolded kalloc_def]
  show fresh: "p \<notin> owned lo s" using pool.alloc_fresh [OF inv al'] .
  show own: "owned lo s2 = insert p (owned lo s)" using pool.alloc_own [OF inv al'] s2 by simp
  show small: "p < 0x100000000000" using pool.alloc_small [OF inv al'] .
  have qs: "q < 0x100000000000" "p \<noteq> q" using pool.own_small [OF inv q] q fresh by auto
  have bytes: "mem s2 x = (if frame_of x = p
      then mem s1 (phys_addr_from_phys_page_num q + (x - phys_addr_from_phys_page_num p)) else mem s1 x)" for x
    using memcpy_frame [OF small qs] s2 by simp
  show same: "mem s2 x = mem s x" if "frame_of x \<noteq> p" for x
    using that by (simp add: bytes pool.alloc_bytes [OF inv al'])
  show "mem s2 (phys_addr_from_phys_page_num p + k) = mem s (phys_addr_from_phys_page_num q + k)" if "k < 4096"
    using that small qs by (simp add: bytes frame_of_base pool.alloc_bytes [OF inv al'])
  show "pt_ok lo s2 r \<and> tables (mem s2) r = tables (mem s) r \<and>
      (\<forall>v. pt_lookup (mem s2) r v = pt_lookup (mem s) r v)" if ok: "pt_ok lo s r"
  proof -
    have wf: "pt_wf (mem s) r" using ok by (simp add: pt_ok_def)
    have "mem s2 x = mem s x" if "frame_of x \<in> tables (mem s) r" for x
      using ok that fresh by (intro same) (auto simp: pt_ok_def)
    note tree = tree_frame [OF wf this]
    have "pool_inv lo s2" using pool.alloc_inv [OF inv al'] s2 by simp
    then show ?thesis using ok tree(2,3,4,5) own by (auto simp: pt_ok_def)
  qed
qed

lemma low_page:
  assumes "v < 0x8000000"
  shows "virt_addr_from_size_t (push_bit 12 v) = push_bit 12 v" and "floor_virts (push_bit 12 v) = v"
proof -
  have u: "unat (push_bit 12 v) = 4096 * unat v" and v: "unat v < 134217728"
    using assms by (simp_all add: push_bit_eq_mult unat_word_ariths word_less_nat_alt)
  show "virt_addr_from_size_t (push_bit 12 v) = push_bit 12 v"
    using u v by (simp add: addr_simps word_unat_eq_iff unsigned_take_bit_eq take_bit_eq_mod unat_mod_distrib)
  show "floor_virts (push_bit 12 v) = v"
    using u by (simp add: floor_virts_def word_unat_eq_iff unat_div_distrib)
qed

lemma PageTable_map_one:
  assumes "v < 0x8000000"
  shows "PageTable_map s pt (push_bit 12 v) pa PAGE_SIZE flags = PageTable_map_per_page s pt v (floor_phys pa) flags"
proof -
  have u: "unat (push_bit 12 v) = 4096 * unat v" and v: "unat v < 134217728"
    using assms by (simp_all add: push_bit_eq_mult unat_word_ariths word_less_nat_alt)
  have "push_bit 12 v div 4096 = v" using u by (simp add: word_unat_eq_iff unat_div_distrib)
  moreover have "(4096 * unat v + 4095) div 4096 = unat v" by simp
  ultimately show ?thesis
    using PageTable_map_range(1) [of PAGE_SIZE "push_bit 12 v" s pt pa flags] u v
    by (cases "PageTable_map_per_page s pt v (floor_phys pa) flags") (simp_all add: kmap.map_range_Suc)
qed

text \<open>One round of the copy, on a page with entry \<open>e\<close>, into the fresh frame \<open>p\<close>.\<close>

definition page_copied ::
    "u64 \<Rightarrow> u64 \<Rightarrow> u64 \<Rightarrow> u64 \<Rightarrow> u64 \<Rightarrow> u64 \<Rightarrow> 'a pmem_scheme \<Rightarrow> 'a pmem_scheme \<Rightarrow> bool" where
  "page_copied lo f c v e p s s' \<longleftrightarrow>
     pt_ok lo s' f \<and> pt_ok lo s' c \<and> tables (mem s') f \<inter> tables (mem s') c = {} \<and>
     p \<notin> owned lo s \<and> p < 0x100000000000 \<and> insert p (owned lo s) \<subseteq> owned lo s' \<and>
     tables (mem s') c = tables (mem s) c \<union> (owned lo s' - insert p (owned lo s)) \<and>
     (\<forall>u. pt_lookup (mem s') f u = pt_lookup (mem s) f u) \<and>
     (\<forall>u < 0x8000000. pt_lookup (mem s') c u =
       (if u = v then Some (PageTableEntry_new p (PTE_V OR ucast (PTE_FLAGS e))) else pt_lookup (mem s) c u)) \<and>
     (\<forall>x. frame_of x \<in> owned lo s - tables (mem s) c \<longrightarrow> mem s' x = mem s x) \<and>
     (\<forall>k < 4096. mem s' (phys_addr_from_phys_page_num p + k) = mem s (PTE_PA e + k))"

lemma copy_page_effect:
  assumes ok: "pt_ok lo s (root_ppn fa)" "pt_ok lo s (root_ppn ch)"
    and apart: "tables (mem s) (root_ppn fa) \<inter> tables (mem s) (root_ppn ch) = {}"
    and v: "v < 0x8000000" and e: "pt_lookup (mem s) (root_ppn fa) v = Some e"
    and q: "PageTableEntry_ppn e \<in> owned lo s"
    and page: "uvm_copy_page fa ch (push_bit 12 v) s = Inr s'"
  shows "\<exists>p. page_copied lo (root_ppn fa) (root_ppn ch) v e p s s'"
proof -
  let ?f = "root_ppn fa" and ?c = "root_ppn ch" and ?flags = "ucast (PTE_FLAGS e) :: u8"
  have inv: "pool_inv lo s" using ok(1) by (simp add: pt_ok_def)
  have va: "virt_addr_from_size_t (push_bit 12 v) = push_bit 12 v" "floor_virts (push_bit 12 v) = v"
    using v low_page [OF v] by simp_all
  obtain pte where pte: "find_pte (mem s) fa v = Some pte" "read64 (mem s) pte = e"
    using e find_pte_lookup [of "mem s" fa v] by (cases "find_pte (mem s) fa v") auto
  obtain p s1 where al: "kalloc s = Inr (p, s1)"
    using page pte by (auto simp: uvm_copy_page_def va res_simps Let_def)
  define s2 where "s2 = s1\<lparr>mem := memcpy (mem s1) (phys_addr_from_phys_page_num p)
    (phys_addr_from_phys_page_num (PageTableEntry_ppn e)) PAGE_SIZE\<rparr>"
  note c = fresh_frame_copy [OF inv al q s2_def]
  have "floor_phys (phys_addr_from_phys_page_num p) = p"
    using frame_of_base [OF c(3), of 0] by (simp add: addr_simps)
  then have m: "PageTable_map_per_page s2 ch v p ?flags = Inr s'"
    using page pte al PageTable_map_one [OF v, of s2 ch "phys_addr_from_phys_page_num p" ?flags]
    by (simp add: uvm_copy_page_def va Let_def frame_base [of e] s2_def)
  have ok2: "pt_ok lo s2 ?c" "pt_ok lo s2 ?f" using c(6) ok by blast+
  have tabs: "tables (mem s2) ?c = tables (mem s) ?c" "tables (mem s2) ?f = tables (mem s) ?f"
    using c(6) ok by blast+
  note r = map_per_page_result [OF ok2(1) v m]
  have apart2: "tables (mem s2) ?c \<inter> tables (mem s2) ?f = {}" using apart tabs by auto
  note o = pt_step_other [OF r(1) ok2(2) apart2]
  have tab': "tables (mem s') ?c = tables (mem s) ?c \<union> (owned lo s' - insert p (owned lo s))"
    and own': "insert p (owned lo s) \<subseteq> owned lo s'"
    and same: "\<And>x. frame_of x \<notin> tables (mem s') ?c \<Longrightarrow> mem s' x = mem s2 x"
    using r(1) tabs c(2) by (auto simp: pt_step_def)
  have pc: "p \<notin> tables (mem s') ?c" using tab' c(1) ok(2) by (auto simp: pt_ok_def)
  have look: "pt_lookup (mem s') ?f u = pt_lookup (mem s) ?f u" for u using o(4) c(6) ok(1) by simp
  have look': "pt_lookup (mem s') ?c u =
      (if u = v then Some (PageTableEntry_new p (PTE_V OR ?flags)) else pt_lookup (mem s) ?c u)"
    if "u < 0x8000000" for u using r(3) [OF that] c(6) ok(2) by simp
  have rest: "mem s' x = mem s x" if "frame_of x \<in> owned lo s - tables (mem s) ?c" for x
    using that same [of x] c(1) c(4) [of x] tab' by auto
  have copy: "mem s' (phys_addr_from_phys_page_num p + k) = mem s (PTE_PA e + k)" if "k < 4096" for k
    using same [of "phys_addr_from_phys_page_num p + k"] pc c(5) [OF that]
    by (simp add: frame_of_base [OF c(3) that] frame_base)
  have "pt_ok lo s' ?c" using r(1) by (simp add: pt_step_def)
  then show ?thesis
    unfolding page_copied_def
    by (intro exI [of _ p] conjI allI impI)
      (use look look' rest copy o(1,3) c(1,3) tab' own' in \<open>simp_all add: Int_commute\<close>)
qed

section \<open>The loop\<close>

lemma vrange_0_Suc: "unat v = n \<Longrightarrow> vrange 0 (Suc n) = insert v (vrange 0 n)"
  by (auto simp: vrange_def word_unat_eq_iff)

lemma copy_flags:
  assumes "PageTableEntry_is_valid e"
  shows "PageTableEntry_flags (PageTableEntry_new p (PTE_V OR ucast (PTE_FLAGS e))) = PageTableEntry_flags e"
proof -
  have "bit e 0" using assms by (simp add: addr_simps)
  then have "1 OR (ucast (take_bit 10 e) :: u8) = ucast e"
    by (intro bit_word_eqI) (auto simp: bit_simps bit_1_iff)
  then show ?thesis
    by (simp only: PageTableEntry_new_flags) (simp add: PageTableEntry_flags_ucast PTE_FLAGS_take)
qed

lemma pt_lookup_valid: "pt_lookup m r v = Some e \<Longrightarrow> PageTableEntry_is_valid e"
  by (auto simp: pt_lookup_def Let_def split: option.splits if_splits)

lemma private_copy_mono:
  assumes pc: "private_copy lo f c s0 s u"
    and look: "pt_lookup (mem s') c u = pt_lookup (mem s) c u"
    and own: "owned lo s \<subseteq> owned lo s'" and tab: "tables (mem s') c \<inter> owned lo s \<subseteq> tables (mem s) c"
    and same: "\<And>x. frame_of x \<in> owned lo s - tables (mem s) c \<Longrightarrow> mem s' x = mem s x"
  shows "private_copy lo f c s0 s' u"
proof (cases "pt_lookup (mem s0) f u")
  case None
  with pc look show ?thesis by (simp add: private_copy_def)
next
  case (Some e)
  then obtain e' where e': "pt_lookup (mem s) c u = Some e'" "PageTableEntry_flags e' = PageTableEntry_flags e"
    "PageTableEntry_ppn e' \<in> owned lo s - owned lo s0 - tables (mem s) c"
    "\<And>k. k < 4096 \<Longrightarrow> mem s (PTE_PA e' + k) = mem s0 (PTE_PA e + k)"
    using pc by (auto simp: private_copy_def split: option.splits)
  have "mem s' (PTE_PA e' + k) = mem s (PTE_PA e' + k)" if "k < 4096" for k
    using e'(3) by (intro same) (simp add: frame_base frame_of_base [OF PageTableEntry_ppn_less that])
  with Some e' look own tab show ?thesis by (auto simp: private_copy_def)
qed

lemma page_copied_ppn:
  "page_copied lo f c v e p s s' \<Longrightarrow> PageTableEntry_ppn (PageTableEntry_new p fl) = p"
  by (simp add: page_copied_def PageTableEntry_new_ppn take_bit_eq_mask less_mask_eq)

lemma page_copied_new:
  assumes pc: "page_copied lo f c v e p s s'" and v: "v < 0x8000000"
    and e: "pt_lookup (mem s0) f v = Some e" and own: "owned lo s0 \<subseteq> owned lo s"
    and tabs: "tables (mem s) c \<subseteq> owned lo s"
    and src: "\<And>k. k < 4096 \<Longrightarrow> mem s (PTE_PA e + k) = mem s0 (PTE_PA e + k)"
  shows "private_copy lo f c s0 s' v"
proof -
  let ?e = "PageTableEntry_new p (PTE_V OR ucast (PTE_FLAGS e))"
  have look: "pt_lookup (mem s') c v = Some ?e" using pc v by (simp add: page_copied_def)
  have "p \<in> owned lo s' - owned lo s0 - tables (mem s') c" using pc own tabs by (auto simp: page_copied_def)
  moreover have "mem s' (PTE_PA ?e + k) = mem s0 (PTE_PA e + k)" if "k < 4096" for k
    using pc src [OF that] that unfolding frame_base [of ?e] page_copied_ppn [OF pc] by (simp add: page_copied_def)
  ultimately show ?thesis
    using e look copy_flags [OF pt_lookup_valid [OF e], of p] page_copied_ppn [OF pc]
    by (simp add: private_copy_def)
qed

text \<open>The frames of the copied pages stay pairwise distinct.\<close>

lemma page_copied_inj:
  assumes pc: "page_copied lo f c v e p s s'" and v: "v < 0x8000000" and n: "unat v = n"
    and old: "\<And>u. u \<in> vrange 0 n \<Longrightarrow> private_copy lo f c s0 s u"
    and inj: "inj_on (frame_at (mem s) c) (mapped (mem s) c (vrange 0 n))"
  shows "inj_on (frame_at (mem s') c) (mapped (mem s') c (vrange 0 (Suc n)))"
proof -
  have same: "pt_lookup (mem s') c u = pt_lookup (mem s) c u" if "u \<in> vrange 0 n" for u
    using pc that n v by (auto simp: page_copied_def vrange_def word_less_nat_alt)
  then have m: "mapped (mem s') c (vrange 0 n) = mapped (mem s) c (vrange 0 n)"
    and fr: "\<And>u. u \<in> vrange 0 n \<Longrightarrow> frame_at (mem s') c u = frame_at (mem s) c u"
    by (auto simp: mapped_def frame_at_def)
  have "frame_at (mem s') c v = p"
    using pc v page_copied_ppn [OF pc] by (simp add: page_copied_def frame_at_def entry_frame_ppn)
  moreover have "frame_at (mem s) c u \<in> owned lo s" if "u \<in> mapped (mem s) c (vrange 0 n)" for u
    using old [of u] that
    by (auto simp: private_copy_def mapped_def frame_at_def entry_frame_ppn split: option.splits)
  moreover have "p \<notin> owned lo s" using pc by (simp add: page_copied_def)
  moreover have "inj_on (frame_at (mem s') c) (mapped (mem s) c (vrange 0 n))"
    using inj fr by (auto simp: inj_on_def mapped_def)
  moreover have "mapped (mem s') c (vrange 0 (Suc n)) \<subseteq> insert v (mapped (mem s) c (vrange 0 n))"
    using m by (auto simp: mapped_def vrange_0_Suc [OF n])
  moreover have "v \<notin> vrange 0 n" using n by (simp add: vrange_def)
  ultimately have "inj_on (frame_at (mem s') c) (insert v (mapped (mem s) c (vrange 0 n)))"
    using fr by (auto simp: mapped_def)
  then show ?thesis by (rule inj_on_subset) fact
qed

lemma copied_mapped_step:
  assumes inv: "copied lo (root_ppn fa) (root_ppn ch) n s0 s" and n: "unat v = n" and v: "v < 0x8000000"
    and src: "frames (mem s0) (root_ppn fa) {v} \<subseteq> owned lo s0 - tables (mem s0) (root_ppn ch)"
    and e: "pt_lookup (mem s0) (root_ppn fa) v = Some e"
    and page: "uvm_copy_page fa ch (push_bit 12 v) s = Inr s'"
  shows "copied lo (root_ppn fa) (root_ppn ch) (Suc n) s0 s'"
proof -
  let ?f = "root_ppn fa" and ?c = "root_ppn ch"
  have ok: "pt_ok lo s ?f" "pt_ok lo s ?c" and apart: "tables (mem s) ?f \<inter> tables (mem s) ?c = {}"
    and own: "owned lo s0 \<subseteq> owned lo s"
    and ctab: "tables (mem s) ?c \<subseteq> tables (mem s0) ?c \<union> (owned lo s - owned lo s0)"
    and flook: "\<And>v. pt_lookup (mem s) ?f v = pt_lookup (mem s0) ?f v"
    and keep: "\<And>x. frame_of x \<in> owned lo s0 - tables (mem s0) ?c \<Longrightarrow> mem s x = mem s0 x"
    and priv: "\<And>u. u \<in> vrange 0 n \<Longrightarrow> private_copy lo ?f ?c s0 s u"
    and rest: "\<And>u. u < 0x8000000 \<Longrightarrow> u \<notin> vrange 0 n \<Longrightarrow> pt_lookup (mem s) ?c u = pt_lookup (mem s0) ?c u"
    and inj: "inj_on (frame_at (mem s) ?c) (mapped (mem s) ?c (vrange 0 n))"
    using inv unfolding copied_def by blast+
  have es: "pt_lookup (mem s) ?f v = Some e" using flook e by simp
  have q0: "PageTableEntry_ppn e \<in> owned lo s0 - tables (mem s0) ?c"
    using src e by (auto simp: frames_def mapped_def frame_at_def entry_frame_ppn)
  then have q: "PageTableEntry_ppn e \<in> owned lo s" using own by auto
  obtain p where p: "page_copied lo ?f ?c v e p s s'" using copy_page_effect [OF ok apart v es q page] by blast
  note p' = p [unfolded page_copied_def]
  have tabs: "tables (mem s) ?c \<subseteq> owned lo s" using ok(2) by (simp add: pt_ok_def)
  have "private_copy lo ?f ?c s0 s' u" if "u \<in> vrange 0 n" for u
  proof (rule private_copy_mono [OF priv [OF that]])
    show "pt_lookup (mem s') ?c u = pt_lookup (mem s) ?c u"
      using p' that n v by (auto simp: vrange_def word_less_nat_alt)
  qed (use p' in auto)
  moreover have "mem s (PTE_PA e + k) = mem s0 (PTE_PA e + k)" if "k < 4096" for k
    using q0 frame_of_base [OF PageTableEntry_ppn_less that, of e] by (intro keep) (simp add: frame_base)
  then have "private_copy lo ?f ?c s0 s' v" by (rule page_copied_new [OF p v e own tabs])
  ultimately have copies: "private_copy lo ?f ?c s0 s' u" if "u \<in> vrange 0 (Suc n)" for u
    using that by (auto simp: vrange_0_Suc [OF n])
  have keep': "mem s' x = mem s0 x" if "frame_of x \<in> owned lo s0 - tables (mem s0) ?c" for x
    using keep [OF that] p' that own ctab by auto
  have rest': "pt_lookup (mem s') ?c u = pt_lookup (mem s0) ?c u"
    if "u < 0x8000000" "u \<notin> vrange 0 (Suc n)" for u
    using p' rest [of u] that by (auto simp: vrange_0_Suc [OF n])
  have "tables (mem s') ?c \<subseteq> tables (mem s0) ?c \<union> (owned lo s' - owned lo s0)"
    using p' ctab own by auto
  with p' own copies keep' rest' page_copied_inj [OF p v n priv inj] flook show ?thesis
    unfolding copied_def by (intro conjI) auto
qed

lemma copy_page_unmapped:
  assumes "pt_lookup (mem s) (root_ppn fa) v = None" and "v < 0x8000000"
  shows "uvm_copy_page fa ch (push_bit 12 v) s = Inr s"
proof -
  have "find_pte (mem s) fa v = None" using assms(1) find_pte_lookup [of "mem s" fa v] by simp
  then show ?thesis using low_page [OF assms(2)] by (simp add: uvm_copy_page_def)
qed

text \<open>
  The father's pages below the limit lie in frames handed out, apart from the child's tables,
  and the child maps none of them yet.
\<close>

definition can_copy :: "u64 \<Rightarrow> u64 \<Rightarrow> u64 \<Rightarrow> nat \<Rightarrow> 'a pmem_scheme \<Rightarrow> bool" where
  "can_copy lo f c n s \<longleftrightarrow> pt_ok lo s f \<and> pt_ok lo s c \<and> tables (mem s) f \<inter> tables (mem s) c = {} \<and>
     frames (mem s) f (vrange 0 n) \<subseteq> owned lo s - tables (mem s) c \<and>
     (\<forall>u \<in> vrange 0 n. pt_lookup (mem s) c u = None)"

lemma copied_0: "can_copy lo f c n s \<Longrightarrow> copied lo f c 0 s s"
  by (auto simp: copied_def can_copy_def vrange_def mapped_def)

lemma copied_step:
  assumes inv: "copied lo (root_ppn fa) (root_ppn ch) n s0 s" and can: "can_copy lo (root_ppn fa) (root_ppn ch) m s0"
    and n: "unat v = n" "n < m" and v: "v < 0x8000000" and page: "uvm_copy_page fa ch (push_bit 12 v) s = Inr s'"
  shows "copied lo (root_ppn fa) (root_ppn ch) (Suc n) s0 s'"
proof (cases "pt_lookup (mem s0) (root_ppn fa) v")
  case None
  have vm: "v \<in> vrange 0 m" "v \<notin> vrange 0 n" using n by (auto simp: vrange_def)
  have "pt_lookup (mem s) (root_ppn fa) v = None" using inv None by (simp add: copied_def)
  with page v have s': "s' = s" by (simp add: copy_page_unmapped)
  have new: "pt_lookup (mem s) (root_ppn ch) v = None"
    using inv can vm v by (auto simp: copied_def can_copy_def)
  then have "mapped (mem s) (root_ppn ch) (vrange 0 (Suc n)) = mapped (mem s) (root_ppn ch) (vrange 0 n)"
    by (auto simp: mapped_def vrange_0_Suc [OF n(1)])
  with inv new None show ?thesis
    unfolding s' copied_def by (simp add: vrange_0_Suc [OF n(1)] private_copy_def)
next
  case (Some e)
  have "v \<in> vrange 0 m" using n by (auto simp: vrange_def)
  then have "frames (mem s0) (root_ppn fa) {v} \<subseteq> owned lo s0 - tables (mem s0) (root_ppn ch)"
    using can by (auto simp: can_copy_def frames_def mapped_def)
  from copied_mapped_step [OF inv n(1) v this Some page] show ?thesis .
qed

lemma copy_page_total:
  assumes inv: "copied lo (root_ppn fa) (root_ppn ch) n s0 s" and can: "can_copy lo (root_ppn fa) (root_ppn ch) m s0"
    and n: "unat v = n" "n < m" and v: "v < 0x8000000" and room: "3 \<le> free_frames (memory_allocator s)"
  shows "\<exists>s'. uvm_copy_page fa ch (push_bit 12 v) s = Inr s' \<and>
    free_frames (memory_allocator s) \<le> free_frames (memory_allocator s') + 3"
proof (cases "pt_lookup (mem s) (root_ppn fa) v")
  case None
  then show ?thesis using v by (simp add: copy_page_unmapped)
next
  case (Some e)
  have vm: "v \<in> vrange 0 m" "v \<notin> vrange 0 n" using n by (auto simp: vrange_def)
  have ok: "pt_ok lo s (root_ppn ch)" and "owned lo s0 \<subseteq> owned lo s"
    and look: "pt_lookup (mem s0) (root_ppn fa) v = Some e"
    and free: "pt_lookup (mem s) (root_ppn ch) v = None"
    using inv can Some vm v by (auto simp: copied_def can_copy_def)
  have inv': "pool_inv lo s" using ok by (simp add: pt_ok_def)
  have q: "PageTableEntry_ppn e \<in> owned lo s"
    using can look vm(1) \<open>owned lo s0 \<subseteq> owned lo s\<close>
    by (force simp: can_copy_def frames_def mapped_def frame_at_def entry_frame_ppn)
  obtain p s1 where al: "kalloc s = Inr (p, s1)"
    and less: "free_frames (memory_allocator s) = Suc (free_frames (memory_allocator s1))"
    using room by (auto simp: kalloc_def intro: alloc_available [OF inv'])
  define s2 where "s2 = s1\<lparr>mem := memcpy (mem s1) (phys_addr_from_phys_page_num p)
    (phys_addr_from_phys_page_num (PageTableEntry_ppn e)) PAGE_SIZE\<rparr>"
  note c = fresh_frame_copy(6) [OF inv' al q s2_def ok]
  obtain pte where pte: "find_pte (mem s) fa v = Some pte" "read64 (mem s) pte = e"
    using Some find_pte_lookup [of "mem s" fa v] by (cases "find_pte (mem s) fa v") auto
  have "uvm_copy_page fa ch (push_bit 12 v) s =
      PageTable_map_per_page s2 ch v (floor_phys (phys_addr_from_phys_page_num p)) (ucast (PTE_FLAGS e))"
    using pte al PageTable_map_one [OF v, of s2 ch "phys_addr_from_phys_page_num p" "ucast (PTE_FLAGS e)"]
      low_page [OF v] by (simp add: uvm_copy_page_def Let_def frame_base [of e] s2_def)
  moreover have "free_frames (memory_allocator s) = Suc (free_frames (memory_allocator s2))"
    using less by (simp add: s2_def)
  moreover have "\<exists>s'. PageTable_map_per_page s2 ch v q fl = Inr s' \<and>
      free_frames (memory_allocator s2) \<le> free_frames (memory_allocator s') + 2" for q fl
    using c free room calculation(2) by (intro map_per_page_total [of lo]) simp_all
  ultimately show ?thesis by simp
qed

lemma copy_loop_guard:
  assumes "unat sz \<le> 0x8000000000" and "unat v \<le> (unat sz + 4095) div 4096"
  shows "push_bit 12 v < sz \<longleftrightarrow> unat v < (unat sz + 4095) div 4096"
    and "push_bit 12 v < push_bit 12 v + PAGE_SIZE" and "push_bit 12 v + PAGE_SIZE = push_bit 12 (v + 1)"
    and "unat v < (unat sz + 4095) div 4096 \<Longrightarrow> v < 0x8000000"
proof -
  have v: "unat v \<le> 134217728" using assms by linarith
  then have u: "unat (push_bit 12 v) = 4096 * unat v"
    by (simp add: push_bit_eq_mult unat_word_ariths)
  show "push_bit 12 v < sz \<longleftrightarrow> unat v < (unat sz + 4095) div 4096"
    unfolding word_less_nat_alt u by linarith
  show "push_bit 12 v < push_bit 12 v + PAGE_SIZE"
    using u v by (simp add: word_less_nat_alt unat_word_ariths)
  show "push_bit 12 v + PAGE_SIZE = push_bit 12 (v + 1)"
    by (simp add: push_bit_eq_mult algebra_simps)
  show "v < 0x8000000" if "unat v < (unat sz + 4095) div 4096"
    using that assms(1) unfolding word_less_nat_alt by simp
qed

lemma copy_loop:
  assumes "copied lo (root_ppn fa) (root_ppn ch) (unat v) s0 s"
    and "can_copy lo (root_ppn fa) (root_ppn ch) ((unat sz + 4095) div 4096) s0"
    and "unat sz \<le> 0x8000000000" and "unat v \<le> (unat sz + 4095) div 4096"
    and "uvm_copy_loop fa ch (push_bit 12 v) sz s = Inr s'"
  shows "copied lo (root_ppn fa) (root_ppn ch) ((unat sz + 4095) div 4096) s0 s'"
  using assms
proof (induction "(unat sz + 4095) div 4096 - unat v" arbitrary: v s)
  case 0
  note g = copy_loop_guard [OF 0(4,5)]
  from 0(1,5) have "unat v = (unat sz + 4095) div 4096" by simp
  with g(1) 0(6) have "s' = s" by (simp add: uvm_copy_loop.simps [of _ _ "push_bit 12 v"])
  with 0(2) \<open>unat v = _\<close> show ?case by simp
next
  case (Suc k)
  note g = copy_loop_guard [OF Suc(5,6)]
  have less: "unat v < (unat sz + 4095) div 4096" using Suc(2) by simp
  have v: "v < 0x8000000" using g(4) less .
  have suc: "unat (v + 1) = Suc (unat v)" using v by (rule unat_plus_one64)
  obtain t where t: "uvm_copy_page fa ch (push_bit 12 v) s = Inr t"
    and rest: "uvm_copy_loop fa ch (push_bit 12 (v + 1)) sz t = Inr s'"
    using Suc(7) g(1,2,3) less by (auto simp: uvm_copy_loop.simps [of _ _ "push_bit 12 v"] res_simps)
  have "copied lo (root_ppn fa) (root_ppn ch) (unat (v + 1)) s0 t"
    using copied_step [OF Suc(3,4) refl less v t] suc by simp
  from Suc(1) [OF _ this Suc(4,5) _ rest] Suc(2) less suc show ?case by simp
qed

lemma copy_loop_total:
  assumes "copied lo (root_ppn fa) (root_ppn ch) (unat v) s0 s"
    and "can_copy lo (root_ppn fa) (root_ppn ch) ((unat sz + 4095) div 4096) s0"
    and "unat sz \<le> 0x8000000000" and "unat v \<le> (unat sz + 4095) div 4096"
    and "3 * ((unat sz + 4095) div 4096 - unat v) \<le> free_frames (memory_allocator s)"
  shows "\<exists>s'. uvm_copy_loop fa ch (push_bit 12 v) sz s = Inr s'"
  using assms
proof (induction "(unat sz + 4095) div 4096 - unat v" arbitrary: v s)
  case 0
  then show ?case using copy_loop_guard(1) [OF 0(4,5)] by (simp add: uvm_copy_loop.simps [of _ _ "push_bit 12 v"])
next
  case (Suc k)
  note g = copy_loop_guard [OF Suc(5,6)]
  have less: "unat v < (unat sz + 4095) div 4096" using Suc(2) by simp
  have v: "v < 0x8000000" using g(4) less .
  have suc: "unat (v + 1) = Suc (unat v)" using v by (rule unat_plus_one64)
  have room: "3 \<le> free_frames (memory_allocator s)" using Suc(7) less by linarith
  obtain t where t: "uvm_copy_page fa ch (push_bit 12 v) s = Inr t"
    and left: "free_frames (memory_allocator s) \<le> free_frames (memory_allocator t) + 3"
    using copy_page_total [OF Suc(3,4) refl less v room] by blast
  have "copied lo (root_ppn fa) (root_ppn ch) (unat (v + 1)) s0 t"
    using copied_step [OF Suc(3,4) refl less v t] suc by simp
  from Suc(1) [OF _ this Suc(4,5)] Suc(2,7) less suc left
  have "\<exists>s'. uvm_copy_loop fa ch (push_bit 12 (v + 1)) sz t = Inr s'" by simp
  with t g(1,2,3) less show ?case by (simp add: uvm_copy_loop.simps [of _ _ "push_bit 12 v"])
qed

text \<open>The copied pages can be given back later: each has a frame of its own that is no table.\<close>

lemma copied_releasable:
  assumes "copied lo f c n s0 s"
  shows "releasable lo s c (vrange 0 n)"
proof -
  have "private_copy lo f c s0 s u" if "u \<in> vrange 0 n" for u using assms that by (simp add: copied_def)
  then have "frame_at (mem s) c u \<in> owned lo s - tables (mem s) c" if "u \<in> mapped (mem s) c (vrange 0 n)" for u
    using that by (fastforce simp: private_copy_def mapped_def frame_at_def entry_frame_ppn split: option.splits)
  then show ?thesis using assms by (auto simp: releasable_def copied_def frames_def)
qed

section \<open>Properties\<close>

text \<open>
  C5: A fork gives the child a private copy of the father's memory. For every page below the
  size: the child has it exactly when the father has it, with the same access flags and the
  same bytes, in a frame that was free before and that no other page of the child uses. The
  father's table, its pages and every other frame handed out before (the child's own tables
  apart) are unchanged, the child's other pages too, and the child's pages can later be
  released one by one. The copy returns when three frames per page are left.
\<close>

theorem uvm_copy_private:
  assumes "can_copy lo (root_ppn father) (root_ppn child) n s"
    and "n = (unat sz + 4095) div 4096" and "unat sz \<le> 0x8000000000"
  shows "(3 * n \<le> free_frames (memory_allocator s) \<longrightarrow> (\<exists>s'. uvm_copy father child sz s = Inr s')) \<and>
    (\<forall>s'. uvm_copy father child sz s = Inr s' \<longrightarrow>
      (\<forall>u \<in> vrange 0 n. private_copy lo (root_ppn father) (root_ppn child) s s' u) \<and>
      releasable lo s' (root_ppn child) (vrange 0 n) \<and>
      (\<forall>u < 0x8000000. u \<notin> vrange 0 n \<longrightarrow>
        pt_lookup (mem s') (root_ppn child) u = pt_lookup (mem s) (root_ppn child) u) \<and>
      (\<forall>u. pt_lookup (mem s') (root_ppn father) u = pt_lookup (mem s) (root_ppn father) u) \<and>
      (\<forall>x. frame_of x \<in> owned lo s - tables (mem s) (root_ppn child) \<longrightarrow> mem s' x = mem s x))"
proof -
  note start = copied_0 [OF assms(1)]
  have fin: "copied lo (root_ppn father) (root_ppn child) n s s'" if "uvm_copy father child sz s = Inr s'" for s'
    using copy_loop [of lo father child 0 s s sz s'] start assms that by (simp add: uvm_copy_def)
  have total: "\<exists>s'. uvm_copy father child sz s = Inr s'" if "3 * n \<le> free_frames (memory_allocator s)"
    using copy_loop_total [of lo father child 0 s s sz] start assms that by (simp add: uvm_copy_def)
  show ?thesis
  proof (intro conjI impI allI)
    fix s' assume "uvm_copy father child sz s = Inr s'"
    note r = fin [OF this]
    show "releasable lo s' (root_ppn child) (vrange 0 n)" using copied_releasable [OF r] .
  qed (use total fin in \<open>auto simp: copied_def\<close>)
qed

text \<open>Two empty root tables and a page of data.\<close>

definition sample_pair :: pmem where
  "sample_pair = \<lparr>mem = (\<lambda>_. 0), memory_allocator =
     \<lparr>current_ppn = 0x80403, end_ppn = 0x80800, recycled = empty_stack\<rparr>, console = []\<rparr>"

lemma sample_pair_ok:
  "pt_ok 0x80400 sample_pair 0x80400" "pt_ok 0x80400 sample_pair 0x80401" "0x80402 \<in> owned 0x80400 sample_pair"
  "\<And>r. tables (mem sample_pair) r = {r}" "\<And>r v. pt_lookup (mem sample_pair) r v = None"
  "free_frames (memory_allocator sample_pair) = 1021"
proof -
  show tab: "tables (mem sample_pair) r = {r}" for r
    by (auto simp: sample_pair_def zero_memory_lookup tables_def split: if_splits)
  have inv: "pool_inv 0x80400 sample_pair"
    and own: "0x80400 \<in> owned 0x80400 sample_pair" "0x80401 \<in> owned 0x80400 sample_pair"
    and data: "0x80402 \<in> owned 0x80400 sample_pair"
    by (simp_all add: sample_pair_def allocator_inv_def allocated_def stack_wf_def stack_items_def
        empty_stack_def MAX_SIZE_def)
  from data show "0x80402 \<in> owned 0x80400 sample_pair" .
  have "pt_wf (mem sample_pair) r" "pt_inner (mem sample_pair) r" if "r < 0x100000000000" for r
    using that by (auto simp: pt_wf_def sample_pair_def zero_memory_lookup split: if_splits)
  with inv own tab show "pt_ok 0x80400 sample_pair 0x80400" "pt_ok 0x80400 sample_pair 0x80401"
    by (simp_all add: pt_ok_def)
qed (simp_all add: sample_pair_def zero_memory_lookup free_frames_def empty_stack_def)

theorem uvm_copy_private_witness:
  "\<exists>(s :: pmem) s'. pt_lookup (mem s) 0x80400 0 \<noteq> None \<and>
     uvm_copy \<lparr>root_ppn = 0x80400\<rparr> \<lparr>root_ppn = 0x80401\<rparr> 0x1000 s = Inr s' \<and>
     private_copy 0x80400 0x80400 0x80401 s s' 0"
proof -
  let ?f = "\<lparr>root_ppn = 0x80400\<rparr>" and ?c = "\<lparr>root_ppn = 0x80401\<rparr>"
  obtain s where s: "PageTable_map_per_page sample_pair ?f 0 0x80402 PTE_R = Inr s"
    and room: "1019 \<le> free_frames (memory_allocator s)"
    using map_per_page_total [of "0x80400" sample_pair ?f 0 "0x80402" PTE_R] sample_pair_ok by auto
  have ok: "pt_ok 0x80400 sample_pair (root_ppn ?f)" "(0 :: u64) < 0x8000000" using sample_pair_ok(1) by simp_all
  note r = map_per_page_result [OF ok s, unfolded PageTable.simps]
  have other: "pt_ok 0x80400 s 0x80401" "tables (mem s) 0x80401 = {0x80401}"
    "tables (mem s) 0x80400 \<inter> tables (mem s) 0x80401 = {}" "\<And>v. pt_lookup (mem s) 0x80401 v = None"
    using pt_step_other [OF r(1) sample_pair_ok(2)] by (simp_all add: sample_pair_ok(4,5))
  let ?e = "PageTableEntry_new 0x80402 (PTE_V OR PTE_R)"
  have e: "pt_lookup (mem s) 0x80400 0 = Some ?e" using r(3) [of 0] by simp
  have "entry_frame ?e = 0x80402" by (simp add: entry_frame_ppn PageTableEntry_new_ppn take_bit_eq_mod)
  then have fr: "frames (mem s) 0x80400 (vrange 0 1) = {0x80402}"
    using e by (auto simp: frames_def mapped_def frame_at_def vrange_def unat_eq_0)
  have "0x80402 \<in> owned 0x80400 s" using r(1) sample_pair_ok(3) by (auto simp: pt_step_def)
  then have "can_copy 0x80400 0x80400 0x80401 1 s"
    using r(1) other fr by (auto simp: can_copy_def pt_step_def)
  then have can: "can_copy 0x80400 (root_ppn ?f) (root_ppn ?c) 1 s" by simp
  have n: "1 = (unat (0x1000 :: u64) + 4095) div 4096" "unat (0x1000 :: u64) \<le> 0x8000000000" by simp_all
  note copy = uvm_copy_private [OF can n]
  obtain s' where s': "uvm_copy ?f ?c 0x1000 s = Inr s'" using conjunct1 [OF copy] room by auto
  have "(0 :: u64) \<in> vrange 0 1" by (simp add: vrange_def)
  with conjunct2 [OF copy] s' e show ?thesis by (intro exI [of _ s] exI [of _ s']) auto
qed

end
