(* ===== verification/Kprintf.thy ===== *)
theory Kprintf
  imports Kstring "HOL-Library.Signed_Division"
begin

text \<open>
  Formatted output: \<^verbatim>\<open>_vsnprintf\<close>, \<^verbatim>\<open>_vprintf\<close> and \<^verbatim>\<open>printf\<close> of
  \<^verbatim>\<open>os/src/printf.c\<close>, and \<^verbatim>\<open>_user_vprintf\<close> and \<^verbatim>\<open>user_printf\<close> of
  \<^verbatim>\<open>os/lib/user_print.c\<close>, whose \<^verbatim>\<open>_vsnprintf\<close> is the same text. A
  \<^verbatim>\<open>va_list\<close> is a position in an array of 64-bit slots and is copied by value, as on
  RISC-V. The formatter is compared with \<open>render\<close>, which lists the bytes a format stands
  for.
\<close>

section \<open>The formatter\<close>

text \<open>
  State of the loop over the format: \<^verbatim>\<open>format\<close>, \<^verbatim>\<open>longarg\<close>, \<^verbatim>\<open>pos\<close>,
  the position in the argument slots, and the buffer (\<open>None\<close> for a \<^verbatim>\<open>NULL\<close>
  \<^verbatim>\<open>out\<close>). A store outside the buffer is the error \<open>OutOfRange\<close>.
\<close>

record vsn =
  format :: bool
  longarg :: bool
  pos :: nat
  vl :: nat
  out :: "u8 list option"

definition store :: "nat \<Rightarrow> nat \<Rightarrow> u8 \<Rightarrow> vsn \<Rightarrow> vsn res" where
  "store n i c st =
     (case out st of
        None \<Rightarrow> Inr st
      | Some buf \<Rightarrow>
          if i < n then if i < length buf then Inr (st\<lparr>out := Some (buf[i := c])\<rparr>) else Inl OutOfRange
          else Inr st)"

definition putc :: "nat \<Rightarrow> u8 \<Rightarrow> vsn \<Rightarrow> vsn res" where
  "putc n c st = bindE (store n (pos st) c st) (\<lambda>st. Inr (st\<lparr>pos := pos st + 1\<rparr>))"

text \<open>\<^verbatim>\<open>va_arg(vl, long)\<close> or \<^verbatim>\<open>va_arg(vl, int)\<close>, widened to \<^verbatim>\<open>long\<close>.\<close>

definition arg_num :: "bool \<Rightarrow> u64 \<Rightarrow> u64" where
  "arg_num long v = (if long then v else scast (ucast v :: u32))"

definition hex_digit :: "u64 \<Rightarrow> nat \<Rightarrow> u8" where
  "hex_digit num i =
     (let d = drop_bit (4 * i) num AND 0xF
      in if d < 10 then 0x30 + ucast d else 0x61 + ucast d - 10)"

text \<open>
  \<^verbatim>\<open>num\<close> is a signed \<^verbatim>\<open>long\<close>: its division truncates, and the negation of the
  smallest value wraps to itself.
\<close>

definition wrap64 :: "int \<Rightarrow> int" where
  "wrap64 x = sint (word_of_int x :: u64)"

function count_digits :: "int \<Rightarrow> nat \<Rightarrow> nat" where
  "count_digits nn digits =
     (let nn = nn sdiv 10 in if nn \<noteq> 0 then count_digits nn (digits + 1) else digits)"
  by pat_completeness auto
termination
  by (relation "measure (\<lambda>(nn, digits). nat \<bar>nn\<bar>)") (auto simp: signed_divide_int_def abs_mult)

declare count_digits.simps [simp del]

fun put_digits :: "nat \<Rightarrow> nat \<Rightarrow> int \<Rightarrow> vsn \<Rightarrow> vsn res" where
  "put_digits n 0 num st = Inr st"
| "put_digits n (Suc i) num st =
     bindE (store n (pos st + i) (word_of_int (0x30 + num smod 10)) st) (put_digits n i (num sdiv 10))"

fun puts :: "nat \<Rightarrow> u8 list \<Rightarrow> vsn \<Rightarrow> vsn res" where
  "puts n [] st = Inr st"
| "puts n (c # cs) st = bindE (putc n c st) (puts n cs)"

definition end_format :: "vsn \<Rightarrow> vsn" where
  "end_format st = st\<lparr>longarg := False, format := False\<rparr>"

definition fmt_x :: "(nat \<Rightarrow> u64) \<Rightarrow> nat \<Rightarrow> vsn \<Rightarrow> vsn res" where
  "fmt_x va n st =
     (let num = arg_num (longarg st) (va (vl st));
          hexdigits = 2 * (if longarg st then 8 else 4)
      in bindE (puts n (map (hex_digit num) (rev [0..<hexdigits])) (st\<lparr>vl := vl st + 1\<rparr>))
           (\<lambda>st. Inr (end_format st)))"

definition fmt_d :: "(nat \<Rightarrow> u64) \<Rightarrow> nat \<Rightarrow> vsn \<Rightarrow> vsn res" where
  "fmt_d va n st =
     (let num = sint (arg_num (longarg st) (va (vl st))); st = st\<lparr>vl := vl st + 1\<rparr>
      in bindE (if num < 0 then putc n 0x2D st else Inr st) (\<lambda>st.
         let num = (if num < 0 then wrap64 (- num) else num); digits = count_digits num 1
         in bindE (put_digits n digits num st) (\<lambda>st. Inr (end_format (st\<lparr>pos := pos st + digits\<rparr>)))))"

definition fmt_s :: "memory \<Rightarrow> (nat \<Rightarrow> u64) \<Rightarrow> nat \<Rightarrow> vsn \<Rightarrow> vsn res" where
  "fmt_s m va n st =
     (case cstr m (va (vl st)) of
        None \<Rightarrow> Inl OutOfFuel
      | Some s2 \<Rightarrow> bindE (puts n s2 (st\<lparr>vl := vl st + 1\<rparr>)) (\<lambda>st. Inr (end_format st)))"

text \<open>\<^verbatim>\<open>%c\<close> fetches its argument only when the byte is stored.\<close>

definition fmt_c :: "(nat \<Rightarrow> u64) \<Rightarrow> nat \<Rightarrow> vsn \<Rightarrow> vsn res" where
  "fmt_c va n st =
     bindE
       (if out st \<noteq> None \<and> pos st < n
        then store n (pos st) (ucast (va (vl st))) (st\<lparr>vl := vl st + 1\<rparr>) else Inr st)
       (\<lambda>st. Inr (end_format (st\<lparr>pos := pos st + 1\<rparr>)))"

definition vsn_step :: "memory \<Rightarrow> (nat \<Rightarrow> u64) \<Rightarrow> nat \<Rightarrow> u8 \<Rightarrow> vsn \<Rightarrow> vsn res" where
  "vsn_step m va n c st =
     (if format st then
        if c = 0x6C then Inr (st\<lparr>longarg := True\<rparr>)
        else if c = 0x70 then
          bindE (puts n [0x30, 0x78] (st\<lparr>longarg := True\<rparr>)) (fmt_x va n)
        else if c = 0x78 then fmt_x va n st
        else if c = 0x64 then fmt_d va n st
        else if c = 0x73 then fmt_s m va n st
        else if c = 0x63 then fmt_c va n st
        else Inr st
      else if c = 0x25 then Inr (st\<lparr>format := True\<rparr>)
      else putc n c st)"

definition vsnprintf :: "memory \<Rightarrow> u8 list option \<Rightarrow> nat \<Rightarrow> u8 list \<Rightarrow> (nat \<Rightarrow> u64) \<Rightarrow> (nat \<times> u8 list option) res" where
  "vsnprintf m outbuf n s va =
     bindE (foldE (vsn_step m va n) s \<lparr>format = False, longarg = False, pos = 0, vl = 0, out = outbuf\<rparr>) (\<lambda>st.
     bindE
       (if pos st < n then store n (pos st) 0 st
        else if n \<noteq> 0 then store n (n - 1) 0 st else Inr st)
       (\<lambda>st. Inr (pos st, out st)))"

section \<open>printf\<close>

text \<open>
  The two passes of \<^verbatim>\<open>_vprintf\<close>: the first measures with \<^verbatim>\<open>out = NULL\<close> and
  \<^verbatim>\<open>n = -1\<close>, the second formats into \<^verbatim>\<open>out_buf\<close>, and \<^verbatim>\<open>uart_puts\<close>
  sends the bytes before the first zero. The length is an \<^verbatim>\<open>int\<close>, compared as an
  unsigned \<^verbatim>\<open>long\<close>; a text that does not fit makes the kernel spin.
\<close>

definition OUT_BUF_SIZE :: u64 where "OUT_BUF_SIZE = 1000"

definition vprintf :: "memory \<Rightarrow> u8 list \<Rightarrow> u8 list \<Rightarrow> (nat \<Rightarrow> u64) \<Rightarrow> (u8 list \<times> u8 list) res" where
  "vprintf m out_buf s va =
     bindE (vsnprintf m None (2 ^ 64 - 1) s va) (\<lambda>(len, _).
     let res = word_of_nat len :: u32; n = scast (res + 1) :: u64 in
     if n \<ge> OUT_BUF_SIZE then Inl OutputOverflow
     else bindE (vsnprintf m (Some out_buf) (unat n) s va) (\<lambda>(_, buf).
       case buf of None \<Rightarrow> Inl NullDeref
       | Some buf \<Rightarrow> Inr (takeWhile (\<lambda>c. c \<noteq> 0) buf, buf)))"

text \<open>
  The user side sends the same text with one \<^verbatim>\<open>__SYS_PRINTF\<close> system call on the
  buffer instead of \<^verbatim>\<open>uart_puts\<close>; its buffer has the same size.
\<close>

definition user_vprintf :: "memory \<Rightarrow> u8 list \<Rightarrow> u8 list \<Rightarrow> (nat \<Rightarrow> u64) \<Rightarrow> (u8 list \<times> u8 list) res" where
  "user_vprintf m user_print_buf s va = vprintf m user_print_buf s va"

section \<open>What a format stands for\<close>

fun dec_text :: "nat \<Rightarrow> u8 list" where
  "dec_text k = (if k < 10 then [0x30 + word_of_nat k] else dec_text (k div 10) @ [0x30 + word_of_nat (k mod 10)])"

declare dec_text.simps [simp del]

definition dec_signed :: "int \<Rightarrow> u8 list" where
  "dec_signed x = (if x < 0 then 0x2D # dec_text (nat (- x)) else dec_text (nat x))"

definition hex_text :: "bool \<Rightarrow> u64 \<Rightarrow> u8 list" where
  "hex_text long v = map (hex_digit (arg_num long v)) (rev [0..<2 * (if long then 8 else 4)])"

fun render :: "memory \<Rightarrow> (nat \<Rightarrow> u64) \<Rightarrow> bool \<Rightarrow> bool \<Rightarrow> nat \<Rightarrow> u8 list \<Rightarrow> u8 list option" where
  "render m va f l k [] = Some []"
| "render m va f l k (c # cs) =
     (if f then
        if c = 0x6C then render m va True True k cs
        else if c = 0x70 then map_option (\<lambda>t. [0x30, 0x78] @ hex_text True (va k) @ t) (render m va False False (k + 1) cs)
        else if c = 0x78 then map_option (\<lambda>t. hex_text l (va k) @ t) (render m va False False (k + 1) cs)
        else if c = 0x64 then
          map_option (\<lambda>t. dec_signed (sint (arg_num l (va k))) @ t) (render m va False False (k + 1) cs)
        else if c = 0x73 then
          Option.bind (cstr m (va k)) (\<lambda>s2. map_option (\<lambda>t. s2 @ t) (render m va False False (k + 1) cs))
        else if c = 0x63 then map_option (\<lambda>t. ucast (va k) # t) (render m va False False (k + 1) cs)
        else render m va True l k cs
      else if c = 0x25 then render m va True l k cs
      else map_option (\<lambda>t. c # t) (render m va False l k cs))"

text \<open>Formats without a \<^verbatim>\<open>%c\<close> directive.\<close>

fun no_c :: "bool \<Rightarrow> u8 list \<Rightarrow> bool" where
  "no_c f [] = True"
| "no_c f (c # cs) =
     (if f then c \<noteq> 0x63 \<and> no_c (c \<notin> {0x70, 0x78, 0x64, 0x73}) cs
      else no_c (c = 0x25) cs)"

section \<open>Stores into the buffer\<close>

definition wr :: "nat \<Rightarrow> u8 list \<Rightarrow> u8 list \<Rightarrow> u8 list" where
  "wr n t buf = take n t @ drop (min n (length t)) buf"

lemma length_wr [simp]: "n \<le> length buf \<Longrightarrow> length (wr n t buf) = length buf"
  by (simp add: wr_def)

lemma nth_wr:
  "n \<le> length buf \<Longrightarrow> i < length buf \<Longrightarrow> wr n t buf ! i = (if i < n \<and> i < length t then t ! i else buf ! i)"
  by (auto simp: wr_def nth_append min.commute)

lemma wr_snoc:
  assumes "n \<le> length buf"
  shows "wr n (t @ [c]) buf = (if length t < n then (wr n t buf)[length t := c] else wr n t buf)"
  using assms by (intro nth_equalityI) (auto simp: nth_wr nth_list_update nth_append)

text \<open>The states of the loop: the text so far has been stored as far as it fits.\<close>

definition at :: "nat \<Rightarrow> u8 list option \<Rightarrow> bool \<Rightarrow> bool \<Rightarrow> nat \<Rightarrow> u8 list \<Rightarrow> vsn" where
  "at n o0 f l k t = \<lparr>format = f, longarg = l, pos = length t, vl = k, out = map_option (wr n t) o0\<rparr>"

definition fits :: "nat \<Rightarrow> u8 list option \<Rightarrow> bool" where
  "fits n o0 \<longleftrightarrow> (\<forall>b. o0 = Some b \<longrightarrow> n \<le> length b)"

lemma putc_at: "fits n o0 \<Longrightarrow> putc n c (at n o0 f l k t) = Inr (at n o0 f l k (t @ [c]))"
  by (cases o0) (auto simp: putc_def store_def at_def fits_def wr_snoc)

lemma puts_at: "fits n o0 \<Longrightarrow> puts n cs (at n o0 f l k t) = Inr (at n o0 f l k (t @ cs))"
  by (induction cs arbitrary: t) (auto simp: putc_at)

text \<open>Decimal digits are stored from the last to the first.\<close>

fun digs :: "nat \<Rightarrow> nat \<Rightarrow> u8 list" where
  "digs 0 k = []"
| "digs (Suc i) k = digs i (k div 10) @ [0x30 + word_of_nat (k mod 10)]"

lemma length_digs [simp]: "length (digs i k) = i"
  by (induction i arbitrary: k) auto

lemma put_digits_result:
  assumes "out st = Some b" and "n \<le> length b"
  shows "\<exists>b'. put_digits n i (int k) st = Inr (st\<lparr>out := Some b'\<rparr>) \<and> length b' = length b \<and>
    (\<forall>j < length b. b' ! j = (if pos st \<le> j \<and> j < pos st + i \<and> j < n then digs i k ! (j - pos st) else b ! j))"
  using assms
proof (induction i arbitrary: k b st)
  case 0
  then show ?case by (intro exI [of _ b]) auto
next
  case (Suc i)
  let ?c = "0x30 + word_of_nat (k mod 10) :: u8"
  define b1 where "b1 = (if pos st + i < n then b[pos st + i := ?c] else b)"
  have len: "length b1 = length b" by (simp add: b1_def)
  have c: "word_of_int (0x30 + int k smod 10) = ?c"
  proof -
    have "int k smod 10 = int (k mod 10)" by (simp add: smod_int_alt_def zmod_int sgn_if)
    then show ?thesis by (simp only: of_int_add of_int_of_nat_eq of_int_numeral)
  qed
  have d: "int k sdiv 10 = int (k div 10)" by (simp add: signed_divide_int_def zdiv_int sgn_if)
  have "store n (pos st + i) ?c st = Inr (st\<lparr>out := Some b1\<rparr>)"
    using Suc.prems by (simp add: store_def b1_def)
  moreover obtain b' where b': "put_digits n i (int (k div 10)) (st\<lparr>out := Some b1\<rparr>) = Inr (st\<lparr>out := Some b'\<rparr>)"
    "length b' = length b" "\<forall>j < length b. b' ! j =
      (if pos st \<le> j \<and> j < pos st + i \<and> j < n then digs i (k div 10) ! (j - pos st) else b1 ! j)"
    using Suc.IH [of "st\<lparr>out := Some b1\<rparr>" b1 "k div 10"] Suc.prems len by auto
  moreover have "b' ! j = (if pos st \<le> j \<and> j < pos st + Suc i \<and> j < n then digs (Suc i) k ! (j - pos st) else b ! j)"
    if "j < length b" for j
    using b'(3) that by (cases "j = pos st + i") (auto simp: nth_append nth_list_update b1_def)
  ultimately show ?case using c d by (intro exI [of _ b']) simp
qed

lemma count_digits_dec: "count_digits (int k) (Suc d) = d + length (dec_text k)"
proof (induction k arbitrary: d rule: dec_text.induct)
  case (1 k)
  have div: "int k sdiv 10 = int (k div 10)" by (simp add: signed_divide_int_def zdiv_int sgn_if)
  have "count_digits (int k) (Suc d) =
      (if int (k div 10) \<noteq> 0 then count_digits (int (k div 10)) (Suc (Suc d)) else Suc d)"
    by (subst count_digits.simps) (simp add: div Let_def)
  also have "\<dots> = d + length (dec_text k)"
    using 1 [of "Suc d"] by (cases "k < 10") (simp_all add: dec_text.simps [of k] div_eq_0_iff)
  finally show ?case .
qed

lemma digs_dec: "digs (length (dec_text k)) k = dec_text k"
proof (induction k rule: dec_text.induct)
  case (1 k)
  show ?case
    using 1 by (cases "k < 10") (simp_all add: dec_text.simps [of k])
qed

lemma put_digits_null: "out st = None \<Longrightarrow> put_digits n i num st = Inr st"
  by (induction i arbitrary: num) (simp_all add: store_def)

lemma put_digits_at:
  assumes "fits n o0"
  shows "put_digits n (length (dec_text k)) (int k) (at n o0 f l j t) =
    Inr ((at n o0 f l j t)\<lparr>out := map_option (wr n (t @ dec_text k)) o0\<rparr>)"
proof (cases o0)
  case None
  then show ?thesis by (simp add: put_digits_null at_def)
next
  case (Some b)
  with assms have n: "n \<le> length b" by (simp add: fits_def)
  obtain b' where b': "put_digits n (length (dec_text k)) (int k) (at n o0 f l j t) =
      Inr ((at n o0 f l j t)\<lparr>out := Some b'\<rparr>)" "length b' = length b"
    "\<forall>i < length b. b' ! i = (if length t \<le> i \<and> i < length t + length (dec_text k) \<and> i < n
      then dec_text k ! (i - length t) else wr n t b ! i)"
    using put_digits_result [of "at n o0 f l j t" "wr n t b" n "length (dec_text k)" k] n Some
    by (auto simp: at_def digs_dec)
  have "b' = wr n (t @ dec_text k) b"
    using b'(2,3) n by (intro nth_equalityI) (auto simp: nth_wr nth_append)
  with b'(1) Some show ?thesis by simp
qed

section \<open>The directives\<close>

lemma fmt_x_at:
  "fits n o0 \<Longrightarrow> fmt_x va n (at n o0 f l k t) = Inr (at n o0 False False (k + 1) (t @ hex_text l (va k)))"
  using puts_at [of n o0 "hex_text l (va k)" f l "Suc k" t]
  by (simp add: fmt_x_def at_def Let_def hex_text_def end_format_def)

lemma wrap64_id: "- (2 ^ 63) \<le> y \<Longrightarrow> y < 2 ^ 63 \<Longrightarrow> wrap64 y = y"
  unfolding wrap64_def by (subst sint_sbintrunc') (simp add: signed_take_bit_int_eq_self)

lemma fmt_d_at:
  assumes "fits n o0" and "va k \<noteq> 0x8000000000000000"
  shows "fmt_d va n (at n o0 f l k t) =
    Inr (at n o0 False False (k + 1) (t @ dec_signed (sint (arg_num l (va k)))))"
proof -
  define x where "x = sint (arg_num l (va k))"
  have "- (2 ^ 63) < x"
  proof (cases l)
    case True
    have "x \<noteq> sint (0x8000000000000000 :: u64)"
    proof
      assume "x = sint (0x8000000000000000 :: u64)"
      then have "(word_of_int (sint (va k)) :: u64) = word_of_int (sint (0x8000000000000000 :: u64))"
        using True by (simp only: x_def arg_num_def if_True)
      with assms(2) show False by (simp only: of_int_sint scast_id)
    qed
    moreover have "- (2 ^ 63) \<le> x" using sint_ge [of "arg_num l (va k)"] by (simp add: x_def)
    ultimately show ?thesis by simp
  next
    case False
    have "sint (scast w :: u64) = sint w" for w :: u32 by (rule sint_up_scast) (simp add: is_up)
    with sint_ge [of "ucast (va k) :: u32"] False show ?thesis by (simp add: x_def arg_num_def)
  qed
  moreover have "x < 2 ^ 63" using sint_lt [of "arg_num l (va k)"] by (simp add: x_def)
  ultimately have neg: "(if x < 0 then wrap64 (- x) else x) = int (nat \<bar>x\<bar>)"
    by (auto simp: wrap64_id)
  have count: "count_digits (int (nat \<bar>x\<bar>)) 1 = length (dec_text (nat \<bar>x\<bar>))"
    using count_digits_dec [of "nat \<bar>x\<bar>" 0] by simp
  let ?p = "if x < 0 then [0x2D] else []"
  have "(if x < 0 then putc n 0x2D ((at n o0 f l k t)\<lparr>vl := vl (at n o0 f l k t) + 1\<rparr>)
      else Inr ((at n o0 f l k t)\<lparr>vl := vl (at n o0 f l k t) + 1\<rparr>)) = Inr (at n o0 f l (k + 1) (t @ ?p))"
    using putc_at [OF assms(1), of "0x2D" f l "k + 1" t] by (simp add: at_def)
  then have "fmt_d va n (at n o0 f l k t) =
      bindE (put_digits n (length (dec_text (nat \<bar>x\<bar>))) (int (nat \<bar>x\<bar>)) (at n o0 f l (k + 1) (t @ ?p)))
        (\<lambda>st. Inr (end_format (st\<lparr>pos := pos st + length (dec_text (nat \<bar>x\<bar>))\<rparr>)))"
    using neg count unfolding fmt_d_def Let_def by (simp only: at_def vsn.simps x_def bindE.simps)
  then show ?thesis
    using put_digits_at [OF assms(1), of "nat \<bar>x\<bar>" f l "k + 1" "t @ ?p"]
    by (simp add: at_def end_format_def dec_signed_def flip: x_def)
qed

lemma fmt_s_at:
  "fits n o0 \<Longrightarrow> cstr m (va k) = Some s2 \<Longrightarrow>
    fmt_s m va n (at n o0 f l k t) = Inr (at n o0 False False (k + 1) (t @ s2))"
  using puts_at [of n o0 s2 f l "Suc k" t] by (simp add: fmt_s_def at_def end_format_def)

lemma fmt_c_at:
  "n \<le> length b \<Longrightarrow> length t < n \<Longrightarrow>
    fmt_c va n (at n (Some b) f l k t) = Inr (at n (Some b) False False (k + 1) (t @ [ucast (va k)]))"
  by (simp add: fmt_c_def at_def store_def wr_snoc end_format_def)

text \<open>
  The formatter appends, round by round, what the format stands for. A \<^verbatim>\<open>%c\<close> is
  covered when the text fits into the buffer; other directives always.
\<close>

lemma vsn_step_render:
  assumes r: "render m va f l k (c # s) = Some bs" and va: "\<forall>j. va j \<noteq> 0x8000000000000000" and fit: "fits n o0"
    and c: "no_c f (c # s) \<or> (o0 \<noteq> None \<and> length t + length bs < n)"
  shows "\<exists>f1 l1 k1 t1 bs1. vsn_step m va n c (at n o0 f l k t) = Inr (at n o0 f1 l1 k1 (t @ t1)) \<and>
    render m va f1 l1 k1 s = Some bs1 \<and> bs = t1 @ bs1 \<and>
    (no_c f1 s \<or> (o0 \<noteq> None \<and> length t + length bs < n))"
proof -
  have sel: "\<And>f. format (at n o0 f l k t) = f" "\<And>b f. format (at n (Some b) f l k t) = f"
    "\<And>f. (at n o0 f l k t)\<lparr>longarg := True\<rparr> = at n o0 f True k t"
    "\<And>f. (at n o0 f l k t)\<lparr>format := True\<rparr> = at n o0 True l k t" by (simp_all add: at_def)
  note step = vsn_step_def sel
  have res: ?thesis if "vsn_step m va n c (at n o0 f l k t) = Inr (at n o0 f1 l1 k1 (t @ t1))"
    "render m va f1 l1 k1 s = Some bs1" "bs = t1 @ bs1" "no_c f1 s \<or> (o0 \<noteq> None \<and> length t + length bs < n)"
    for f1 l1 k1 t1 bs1 using that by blast
  consider "\<not> f" "c = 0x25" | "\<not> f" "c \<noteq> 0x25" | "f" "c = 0x6C" | "f" "c = 0x70" | "f" "c = 0x78" | "f" "c = 0x64"
    | "f" "c = 0x73" | "f" "c = 0x63" | "f" "c \<notin> {0x6C, 0x70, 0x78, 0x64, 0x73, 0x63}" by auto
  then show ?thesis
  proof cases
    case 1
    then show ?thesis using r c by (intro res [of True l k "[]" "drop (length ([])) bs"]) (auto simp: step)
  next
    case 2
    then show ?thesis using r c putc_at [OF fit, of c False l k t]
      by (intro res [of False l k "[c]" "drop (length ([c])) bs"]) (auto simp: step split: if_splits)
  next
    case 3
    then show ?thesis using r c by (intro res [of True True k "[]" "drop (length ([])) bs"]) (auto simp: step)
  next
    case 4
    then show ?thesis
      using r c puts_at [OF fit, of "[0x30, 0x78]" True True k t] fmt_x_at [OF fit, of va True True k "t @ [0x30, 0x78]"]
      by (intro res [of False False "k + 1" "[0x30, 0x78] @ hex_text True (va k)" "drop (length ([0x30, 0x78] @ hex_text True (va k))) bs"])
        (auto simp: step)
  next
    case 5
    then show ?thesis using r c fmt_x_at [OF fit, of va True l k t]
      by (intro res [of False False "k + 1" "hex_text l (va k)" "drop (length (hex_text l (va k))) bs"]) (auto simp: step)
  next
    case 6
    then show ?thesis using r c fmt_d_at [of n o0 va k True l t] fit va
      by (intro res [of False False "k + 1" "dec_signed (sint (arg_num l (va k)))" "drop (length (dec_signed (sint (arg_num l (va k))))) bs"])
        (auto simp: step)
  next
    case 7
    then obtain s2 where "cstr m (va k) = Some s2" using r by (auto simp: bind_eq_Some_conv)
    then show ?thesis using 7 r c fmt_s_at [OF fit, of m va k s2 True l t]
      by (intro res [of False False "k + 1" s2 "drop (length (s2)) bs"]) (auto simp: step)
  next
    case 8
    then obtain b where b: "o0 = Some b" "length t + length bs < n" using c by auto
    then have "n \<le> length b" using fit by (simp add: fits_def)
    then show ?thesis using b r 8 fmt_c_at [of n b t va True l k]
      by (intro res [of False False "k + 1" "[ucast (va k)]" "drop (length ([ucast (va k)])) bs"]) (auto simp: step)
  next
    case 9
    then show ?thesis using r c
      by (intro res [of True l k "[]" "drop (length ([])) bs"]) (auto simp: step)
  qed
qed

lemma vsn_loop_render:
  assumes "render m va f l k s = Some bs" and "\<forall>j. va j \<noteq> 0x8000000000000000" and "fits n o0"
    and "no_c f s \<or> (o0 \<noteq> None \<and> length t + length bs < n)"
  shows "\<exists>f' l' k'. foldE (vsn_step m va n) s (at n o0 f l k t) = Inr (at n o0 f' l' k' (t @ bs))"
  using assms
proof (induction s arbitrary: f l k t bs)
  case Nil
  then show ?case by auto
next
  case (Cons c s)
  obtain f1 l1 k1 t1 bs1 where step: "vsn_step m va n c (at n o0 f l k t) = Inr (at n o0 f1 l1 k1 (t @ t1))"
    and rest: "render m va f1 l1 k1 s = Some bs1" "bs = t1 @ bs1"
    and c: "no_c f1 s \<or> (o0 \<noteq> None \<and> length t + length bs < n)"
    using vsn_step_render [OF Cons.prems] by blast
  have "\<exists>f' l' k'. foldE (vsn_step m va n) s (at n o0 f1 l1 k1 (t @ t1)) = Inr (at n o0 f' l' k' ((t @ t1) @ bs1))"
    using Cons.prems(2,3) rest c by (intro Cons.IH) auto
  with step rest(2) show ?case by simp
qed

section \<open>Properties\<close>

lemma vsn_start: "\<lparr>format = False, longarg = False, pos = 0, vl = 0, out = o0\<rparr> = at n o0 False False 0 []"
proof -
  have "wr n [] b = b" for b by (simp add: wr_def)
  then show ?thesis by (cases o0) (simp_all add: at_def)
qed

lemma vsnprintf_result:
  assumes "render m va False False 0 s = Some bs" and "\<forall>j. va j \<noteq> 0x8000000000000000"
    and "no_c False s \<or> length bs < n" and "0 < n" and "n \<le> length buf"
  shows "vsnprintf m (Some buf) n s va =
    Inr (length bs, Some (take (n - 1) bs @ [0] @ drop (Suc (min (n - 1) (length bs))) buf))"
proof -
  have fit: "fits n (Some buf)" using assms(5) by (simp add: fits_def)
  obtain f l k where run: "foldE (vsn_step m va n) s (at n (Some buf) False False 0 []) = Inr (at n (Some buf) f l k bs)"
    using vsn_loop_render [OF assms(1,2) fit, of "[]"] assms(3) by auto
  define i where "i = (if length bs < n then length bs else n - 1)"
  have i: "i < length buf" "i < n" using assms(4,5) by (auto simp: i_def)
  have buf': "(wr n bs buf)[i := 0] = take (n - 1) bs @ [0] @ drop (Suc (min (n - 1) (length bs))) buf"
    using assms(4,5) unfolding i_def
    by (intro nth_equalityI) (auto simp: nth_wr nth_list_update nth_append nth_Cons')
  have st: "store n i 0 (at n (Some buf) f l k bs) =
      Inr ((at n (Some buf) f l k bs)\<lparr>out := Some ((wr n bs buf)[i := 0])\<rparr>)"
    using i assms(5) by (simp add: store_def at_def)
  have "pos (at n (Some buf) f l k bs) = length bs" by (simp add: at_def)
  moreover have "(if length bs < n then store n (length bs) 0 (at n (Some buf) f l k bs)
      else if n \<noteq> 0 then store n (n - 1) 0 (at n (Some buf) f l k bs) else Inr (at n (Some buf) f l k bs)) =
      store n i 0 (at n (Some buf) f l k bs)"
    using assms(4) by (simp add: i_def)
  ultimately show ?thesis
    unfolding vsnprintf_def vsn_start [of _ n] run bindE.simps by (simp only: st bindE.simps buf') simp
qed

lemma vsnprintf_measures:
  assumes "render m va False False 0 s = Some bs" and "\<forall>j. va j \<noteq> 0x8000000000000000" and "no_c False s"
  shows "vsnprintf m None n s va = Inr (length bs, None)"
proof -
  obtain f l k where "foldE (vsn_step m va n) s (at n None False False 0 []) = Inr (at n None f l k bs)"
    using vsn_loop_render [OF assms(1,2), of n None "[]"] assms(3) by (auto simp: fits_def)
  then show ?thesis by (simp add: vsnprintf_def vsn_start [of _ n]) (simp add: at_def store_def)
qed



text \<open>
  C21: \<^verbatim>\<open>printf\<close> of a format without \<^verbatim>\<open>%c\<close> sends exactly the text the format
  stands for: the measuring pass returns its length, and the second pass fills the buffer
  with it. A text of 999 bytes or more makes the kernel spin before anything is printed.
\<close>

theorem printf_prints:
  assumes "render m va False False 0 s = Some bs" and "\<forall>j. va j \<noteq> 0x8000000000000000" and "no_c False s"
    and "length out_buf = 1000" and "0 \<notin> set bs" and "length bs < 0x7FFFFFFF"
  shows "if length bs < 999 then \<exists>buf'. vprintf m out_buf s va = Inr (bs, buf')
    else vprintf m out_buf s va = Inl OutputOverflow"
proof -
  define n where "n = (scast ((word_of_nat (length bs) :: u32) + 1) :: u64)"
  have "(word_of_nat (length bs) :: u32) + 1 = word_of_int (int (length bs) + 1)" by simp
  then have "sint ((word_of_nat (length bs) :: u32) + 1) = int (length bs) + 1"
    using assms(6) by (simp only: sint_sbintrunc') (simp add: signed_take_bit_int_eq_self)
  then have "n = word_of_nat (length bs + 1)" by (simp add: n_def scast_eq)
  then have n: "unat n = length bs + 1" using assms(6) by (simp only: unat_word_of_nat64)
  have big: "OUT_BUF_SIZE \<le> n \<longleftrightarrow> \<not> length bs < 999"
    using n by (auto simp: OUT_BUF_SIZE_def word_le_nat_alt)
  have run: "vprintf m out_buf s va =
    (if length bs < 999 then bindE (vsnprintf m (Some out_buf) (length bs + 1) s va) (\<lambda>(_, buf).
       case buf of None \<Rightarrow> Inl NullDeref | Some buf \<Rightarrow> Inr (takeWhile (\<lambda>c. c \<noteq> 0) buf, buf))
     else Inl OutputOverflow)"
    unfolding vprintf_def vsnprintf_measures [OF assms(1-3)] by (simp add: Let_def n_def [symmetric] big n)
  show ?thesis
  proof (cases "length bs < 999")
    case True
    have "takeWhile (\<lambda>c. c \<noteq> 0) (bs @ 0 # rest) = bs" for rest
      using assms(5) by (induction bs) auto
    with True show ?thesis
      using vsnprintf_result [OF assms(1,2), of "length bs + 1" out_buf] assms(3,4) by (simp add: run)
  qed (simp add: run)
qed

theorem printf_prints_witness:
  "\<exists>buf'. vprintf (\<lambda>_. 0) (replicate 1000 0) [0x70, 0x25, 0x64] (\<lambda>_. 7) = Inr ([0x70, 0x37], buf')"
proof -
  have r: "render (\<lambda>_. 0) (\<lambda>_. 7) False False 0 [0x70, 0x25, 0x64] = Some [0x70, 0x37]"
    by (simp add: arg_num_def dec_signed_def dec_text.simps)
  from printf_prints [OF r, of "replicate 1000 0"] show ?thesis by simp
qed


end
