(* ===== verification/SbiBits.thy ===== *)
theory SbiBits
  imports Prelude
begin

text \<open>
  Bit operations of the firmware: \<^verbatim>\<open>opensbi-1.2/include/sbi/sbi_bitops.h\<close> and
  \<^verbatim>\<open>lib/sbi/sbi_bitops.c\<close>, the bitmaps of \<^verbatim>\<open>sbi_bitmap.h\<close>,
  \<^verbatim>\<open>sbi_bitmap.c\<close> and the hart masks of \<^verbatim>\<open>sbi_hartmask.h\<close>, and
  \<^verbatim>\<open>log2roundup\<close> of \<^verbatim>\<open>sbi_math.c\<close>. An array of \<^verbatim>\<open>unsigned long\<close> is a list of
  64-bit words; bit numbers and sizes are natural numbers, since an array that fits into the
  address space has fewer than \<open>2 ^ 64\<close> bits.
\<close>

section \<open>Words\<close>

abbreviation BITS_PER_LONG :: nat where "BITS_PER_LONG \<equiv> 64"

definition BITS_TO_LONGS :: "nat \<Rightarrow> nat" where "BITS_TO_LONGS nbits = (nbits + BITS_PER_LONG - 1) div BITS_PER_LONG"
definition BIT_MASK :: "nat \<Rightarrow> u64" where "BIT_MASK nr = push_bit (nr mod BITS_PER_LONG) 1"
definition BIT_WORD :: "nat \<Rightarrow> nat" where "BIT_WORD nr = nr div BITS_PER_LONG"

text \<open>
  One halving of \<^verbatim>\<open>sbi_ffs\<close>, \<^verbatim>\<open>if ((word & m) == 0) { num += n; word >>= n; }\<close> on the
  pair \<open>(num, word)\<close>, and of \<^verbatim>\<open>sbi_fls\<close>, where the mask covers the \<open>n\<close> top bits.
\<close>

definition ffs_half :: "u64 \<Rightarrow> nat \<Rightarrow> nat \<times> u64 \<Rightarrow> nat \<times> u64" where
  "ffs_half m n p = (case p of (num, word) \<Rightarrow> if word AND m = 0 then (num + n, drop_bit n word) else (num, word))"

definition sbi_ffs :: "u64 \<Rightarrow> nat" where
  "sbi_ffs word =
     (let p = (0, word);
          p = ffs_half 0xffffffff 32 p;
          p = ffs_half 0xffff 16 p;
          p = ffs_half 0xff 8 p;
          p = ffs_half 0xf 4 p;
          (num, word) = ffs_half 0x3 2 p
      in if word AND 0x1 = 0 then num + 1 else num)"

definition sbi_ffz :: "u64 \<Rightarrow> nat" where "sbi_ffz x = sbi_ffs (NOT x)"

definition fls_half :: "nat \<Rightarrow> nat \<times> u64 \<Rightarrow> nat \<times> u64" where
  "fls_half n p =
     (case p of (num, word) \<Rightarrow>
        if word AND push_bit (BITS_PER_LONG - n) (NOT 0) = 0 then (num - n, push_bit n word) else (num, word))"

definition sbi_fls :: "u64 \<Rightarrow> nat" where
  "sbi_fls word =
     (let p = (BITS_PER_LONG - 1, word);
          p = fls_half 32 p;
          p = fls_half 16 p;
          p = fls_half 8 p;
          p = fls_half 4 p;
          (num, word) = fls_half 2 p
      in if word AND push_bit (BITS_PER_LONG - 1) (NOT 0) = 0 then num - 1 else num)"

text \<open>\<^verbatim>\<open>log2roundup\<close>; the loop runs at most \<^verbatim>\<open>__riscv_xlen\<close> times.\<close>

function log2roundup_loop :: "u64 \<Rightarrow> nat \<Rightarrow> nat" where
  "log2roundup_loop x ret =
     (if ret < 64 then if x \<le> push_bit ret 1 then ret else log2roundup_loop x (ret + 1) else ret)"
  by pat_completeness auto
termination by (relation "measure (\<lambda>(x, ret). 64 - ret)") auto

declare log2roundup_loop.simps [simp del]

definition log2roundup :: "u64 \<Rightarrow> nat" where "log2roundup x = log2roundup_loop x 0"

section \<open>Searching a bitmap\<close>

text \<open>
  The common end of the searches (label \<^verbatim>\<open>found_first\<close>) for the final partial word, and
  the loop over whole words; \<open>i\<close> is the index of the word at \<^verbatim>\<open>p\<close>.
\<close>

definition found_first :: "nat \<Rightarrow> nat \<Rightarrow> u64 \<Rightarrow> nat" where
  "found_first result sz tmp =
     (let tmp = tmp AND drop_bit (BITS_PER_LONG - sz) (NOT 0) in
      if tmp = 0 then result + sz else result + sbi_ffs tmp)"

function find_bit_loop :: "u64 list \<Rightarrow> nat \<Rightarrow> nat \<Rightarrow> nat \<Rightarrow> nat" where
  "find_bit_loop addr i result sz =
     (if sz \<ge> BITS_PER_LONG then
        if addr ! i \<noteq> 0 then result + sbi_ffs (addr ! i)
        else find_bit_loop addr (i + 1) (result + BITS_PER_LONG) (sz - BITS_PER_LONG)
      else if sz = 0 then result
      else found_first result sz (addr ! i))"
  by pat_completeness auto
termination by (relation "measure (\<lambda>(addr, i, result, sz). sz)") auto

definition find_first_bit :: "u64 list \<Rightarrow> nat \<Rightarrow> nat" where
  "find_first_bit addr sz = find_bit_loop addr 0 0 sz"

definition find_next_bit :: "u64 list \<Rightarrow> nat \<Rightarrow> nat \<Rightarrow> nat" where
  "find_next_bit addr sz offset =
     (let i = offset div BITS_PER_LONG; result = BITS_PER_LONG * (offset div BITS_PER_LONG) in
      if offset \<ge> sz then sz
      else
        let sz = sz - result; offset = offset mod BITS_PER_LONG in
        if offset \<noteq> 0 then
          let tmp = addr ! i AND push_bit offset (NOT 0) in
          if sz < BITS_PER_LONG then found_first result sz tmp
          else if tmp \<noteq> 0 then result + sbi_ffs tmp
          else find_bit_loop addr (i + 1) (result + BITS_PER_LONG) (sz - BITS_PER_LONG)
        else find_bit_loop addr i result sz)"

definition found_first_zero :: "nat \<Rightarrow> nat \<Rightarrow> u64 \<Rightarrow> nat" where
  "found_first_zero result sz tmp =
     (let tmp = tmp OR push_bit sz (NOT 0) in
      if tmp = NOT 0 then result + sz else result + sbi_ffz tmp)"

function find_zero_bit_loop :: "u64 list \<Rightarrow> nat \<Rightarrow> nat \<Rightarrow> nat \<Rightarrow> nat" where
  "find_zero_bit_loop addr i result sz =
     (if sz \<ge> BITS_PER_LONG then
        if NOT (addr ! i) \<noteq> 0 then result + sbi_ffz (addr ! i)
        else find_zero_bit_loop addr (i + 1) (result + BITS_PER_LONG) (sz - BITS_PER_LONG)
      else if sz = 0 then result
      else found_first_zero result sz (addr ! i))"
  by pat_completeness auto
termination by (relation "measure (\<lambda>(addr, i, result, sz). sz)") auto

definition find_first_zero_bit :: "u64 list \<Rightarrow> nat \<Rightarrow> nat" where
  "find_first_zero_bit addr sz = find_zero_bit_loop addr 0 0 sz"

definition find_next_zero_bit :: "u64 list \<Rightarrow> nat \<Rightarrow> nat \<Rightarrow> nat" where
  "find_next_zero_bit addr sz offset =
     (let i = offset div BITS_PER_LONG; result = BITS_PER_LONG * (offset div BITS_PER_LONG) in
      if offset \<ge> sz then sz
      else
        let sz = sz - result; offset = offset mod BITS_PER_LONG in
        if offset \<noteq> 0 then
          let tmp = addr ! i OR drop_bit (BITS_PER_LONG - offset) (NOT 0) in
          if sz < BITS_PER_LONG then found_first_zero result sz tmp
          else if NOT tmp \<noteq> 0 then result + sbi_ffz tmp
          else find_zero_bit_loop addr (i + 1) (result + BITS_PER_LONG) (sz - BITS_PER_LONG)
        else find_zero_bit_loop addr i result sz)"

primrec find_last_bit_loop :: "u64 list \<Rightarrow> nat \<Rightarrow> nat \<Rightarrow> nat" where
  "find_last_bit_loop addr sz 0 = sz"
| "find_last_bit_loop addr sz (Suc words) =
     (let tmp = addr ! words in
      if tmp \<noteq> 0 then words * BITS_PER_LONG + sbi_fls tmp else find_last_bit_loop addr sz words)"

definition find_last_bit :: "u64 list \<Rightarrow> nat \<Rightarrow> nat" where
  "find_last_bit addr sz =
     (let words = sz div BITS_PER_LONG in
      if sz mod BITS_PER_LONG \<noteq> 0 then
        let tmp = addr ! words AND drop_bit (BITS_PER_LONG - sz mod BITS_PER_LONG) (NOT 0) in
        if tmp \<noteq> 0 then words * BITS_PER_LONG + sbi_fls tmp else find_last_bit_loop addr sz words
      else find_last_bit_loop addr sz words)"

declare find_bit_loop.simps [simp del] find_zero_bit_loop.simps [simp del]

section \<open>Changing a bitmap\<close>

definition sbi_set_bit :: "nat \<Rightarrow> u64 list \<Rightarrow> u64 list" where
  "sbi_set_bit nr addr = addr[BIT_WORD nr := addr ! BIT_WORD nr OR BIT_MASK nr]"

definition sbi_clear_bit :: "nat \<Rightarrow> u64 list \<Rightarrow> u64 list" where
  "sbi_clear_bit nr addr = addr[BIT_WORD nr := addr ! BIT_WORD nr AND NOT (BIT_MASK nr)]"

definition sbi_change_bit :: "nat \<Rightarrow> u64 list \<Rightarrow> u64 list" where
  "sbi_change_bit nr addr = addr[BIT_WORD nr := addr ! BIT_WORD nr XOR BIT_MASK nr]"

definition sbi_test_and_set_bit :: "nat \<Rightarrow> u64 list \<Rightarrow> bool \<times> u64 list" where
  "sbi_test_and_set_bit nr addr =
     (let old = addr ! BIT_WORD nr in
      (old AND BIT_MASK nr \<noteq> 0, addr[BIT_WORD nr := old OR BIT_MASK nr]))"

definition sbi_test_and_clear_bit :: "nat \<Rightarrow> u64 list \<Rightarrow> bool \<times> u64 list" where
  "sbi_test_and_clear_bit nr addr =
     (let old = addr ! BIT_WORD nr in
      (old AND BIT_MASK nr \<noteq> 0, addr[BIT_WORD nr := old AND NOT (BIT_MASK nr)]))"

definition sbi_test_bit :: "nat \<Rightarrow> u64 list \<Rightarrow> bool" where
  "sbi_test_bit nr addr \<longleftrightarrow> 1 AND drop_bit (nr mod BITS_PER_LONG) (addr ! BIT_WORD nr) \<noteq> 0"

definition bitmap_set :: "u64 list \<Rightarrow> nat \<Rightarrow> nat \<Rightarrow> u64 list" where
  "bitmap_set bmap start len = fold sbi_set_bit [start..<start + len] bmap"

definition bitmap_clear :: "u64 list \<Rightarrow> nat \<Rightarrow> nat \<Rightarrow> u64 list" where
  "bitmap_clear bmap start len = fold sbi_clear_bit [start..<start + len] bmap"

definition bitmap_zero :: "u64 list \<Rightarrow> nat \<Rightarrow> u64 list" where
  "bitmap_zero dst nbits = fold (\<lambda>i d. d[i := 0]) [0..<BITS_TO_LONGS nbits] dst"

definition bitmap_zero_except :: "u64 list \<Rightarrow> nat \<Rightarrow> nat \<Rightarrow> u64 list" where
  "bitmap_zero_except dst exception nbits =
     (let dst = fold (\<lambda>i d. d[i := 0]) [0..<BITS_TO_LONGS nbits] dst in
      if exception < nbits then sbi_set_bit exception dst else dst)"

definition BITMAP_LAST_WORD_MASK :: "nat \<Rightarrow> u64" where
  "BITMAP_LAST_WORD_MASK nbits =
     (if nbits mod BITS_PER_LONG \<noteq> 0 then push_bit (nbits mod BITS_PER_LONG) 1 - 1 else NOT 0)"

definition bitmap_fill :: "u64 list \<Rightarrow> nat \<Rightarrow> u64 list" where
  "bitmap_fill dst nbits =
     (let nlongs = BITS_TO_LONGS nbits;
          dst = fold (\<lambda>i d. d[i := - 1]) [0..<nlongs - 1] dst
      in dst[nlongs - 1 := BITMAP_LAST_WORD_MASK nbits])"

text \<open>The word-by-word loops of \<^verbatim>\<open>sbi_bitmap.c\<close>; \<open>dst\<close> may be one of the sources.\<close>

definition bitmap_op :: "(u64 \<Rightarrow> u64 \<Rightarrow> u64) \<Rightarrow> u64 list \<Rightarrow> u64 list \<Rightarrow> u64 list \<Rightarrow> nat \<Rightarrow> u64 list" where
  "bitmap_op f dst bitmap1 bitmap2 bits =
     fold (\<lambda>k d. d[k := f (bitmap1 ! k) (bitmap2 ! k)]) [0..<BITS_TO_LONGS bits] dst"

definition bitmap_and :: "u64 list \<Rightarrow> u64 list \<Rightarrow> u64 list \<Rightarrow> nat \<Rightarrow> u64 list" where
  "bitmap_and dst bitmap1 bitmap2 bits = bitmap_op (AND) dst bitmap1 bitmap2 bits"

definition bitmap_or :: "u64 list \<Rightarrow> u64 list \<Rightarrow> u64 list \<Rightarrow> nat \<Rightarrow> u64 list" where
  "bitmap_or dst bitmap1 bitmap2 bits = bitmap_op (OR) dst bitmap1 bitmap2 bits"

definition bitmap_xor :: "u64 list \<Rightarrow> u64 list \<Rightarrow> u64 list \<Rightarrow> nat \<Rightarrow> u64 list" where
  "bitmap_xor dst bitmap1 bitmap2 bits = bitmap_op (XOR) dst bitmap1 bitmap2 bits"

section \<open>Hart masks\<close>

definition SBI_HARTMASK_MAX_BITS :: nat where "SBI_HARTMASK_MAX_BITS = 128"

record sbi_hartmask =
  bits :: "u64 list"

definition sbi_hartmask_set_hart :: "nat \<Rightarrow> sbi_hartmask \<Rightarrow> sbi_hartmask" where
  "sbi_hartmask_set_hart h m = (if h < SBI_HARTMASK_MAX_BITS then m\<lparr>bits := sbi_set_bit h (bits m)\<rparr> else m)"

definition sbi_hartmask_clear_hart :: "nat \<Rightarrow> sbi_hartmask \<Rightarrow> sbi_hartmask" where
  "sbi_hartmask_clear_hart h m = (if h < SBI_HARTMASK_MAX_BITS then m\<lparr>bits := sbi_clear_bit h (bits m)\<rparr> else m)"

definition sbi_hartmask_test_hart :: "nat \<Rightarrow> sbi_hartmask \<Rightarrow> bool" where
  "sbi_hartmask_test_hart h m \<longleftrightarrow> (if h < SBI_HARTMASK_MAX_BITS then sbi_test_bit h (bits m) else False)"

definition sbi_hartmask_set_all :: "sbi_hartmask \<Rightarrow> sbi_hartmask" where
  "sbi_hartmask_set_all m = m\<lparr>bits := bitmap_fill (bits m) SBI_HARTMASK_MAX_BITS\<rparr>"

definition sbi_hartmask_clear_all :: "sbi_hartmask \<Rightarrow> sbi_hartmask" where
  "sbi_hartmask_clear_all m = m\<lparr>bits := bitmap_zero (bits m) SBI_HARTMASK_MAX_BITS\<rparr>"

definition sbi_hartmask_and :: "sbi_hartmask \<Rightarrow> sbi_hartmask \<Rightarrow> sbi_hartmask \<Rightarrow> sbi_hartmask" where
  "sbi_hartmask_and d a b = d\<lparr>bits := bitmap_and (bits d) (bits a) (bits b) SBI_HARTMASK_MAX_BITS\<rparr>"

definition sbi_hartmask_or :: "sbi_hartmask \<Rightarrow> sbi_hartmask \<Rightarrow> sbi_hartmask \<Rightarrow> sbi_hartmask" where
  "sbi_hartmask_or d a b = d\<lparr>bits := bitmap_or (bits d) (bits a) (bits b) SBI_HARTMASK_MAX_BITS\<rparr>"

definition sbi_hartmask_xor :: "sbi_hartmask \<Rightarrow> sbi_hartmask \<Rightarrow> sbi_hartmask \<Rightarrow> sbi_hartmask" where
  "sbi_hartmask_xor d a b = d\<lparr>bits := bitmap_xor (bits d) (bits a) (bits b) SBI_HARTMASK_MAX_BITS\<rparr>"

text \<open>
  The iteration \<^verbatim>\<open>sbi_hartmask_for_each_hart\<close> as the list of the harts it visits. A
  search never goes back (lemma \<open>find_next_bit_first\<close>), so the maximum changes nothing and
  is there for the termination argument.
\<close>

function for_each_hart_from :: "u64 list \<Rightarrow> nat \<Rightarrow> nat list" where
  "for_each_hart_from addr b =
     (if b < SBI_HARTMASK_MAX_BITS
      then b # for_each_hart_from addr (max (b + 1) (find_next_bit addr SBI_HARTMASK_MAX_BITS (b + 1)))
      else [])"
  by pat_completeness auto
termination by (relation "measure (\<lambda>(addr, b). 128 - b)") (auto simp: SBI_HARTMASK_MAX_BITS_def)

declare for_each_hart_from.simps [simp del]

definition sbi_hartmask_for_each_hart :: "sbi_hartmask \<Rightarrow> nat list" where
  "sbi_hartmask_for_each_hart m = for_each_hart_from (bits m) (find_first_bit (bits m) SBI_HARTMASK_MAX_BITS)"

section \<open>First and last set bit\<close>

definition least_bit :: "u64 \<Rightarrow> nat \<Rightarrow> bool" where
  "least_bit w l \<longleftrightarrow> bit w l \<and> (\<forall>i < l. \<not> bit w i)"

definition greatest_bit :: "u64 \<Rightarrow> nat \<Rightarrow> bool" where
  "greatest_bit w g \<longleftrightarrow> bit w g \<and> (\<forall>i > g. \<not> bit w i)"

lemma least_bit_exists:
  assumes "w \<noteq> 0"
  obtains l where "least_bit w l" and "l < 64"
proof -
  from assms obtain i where i: "bit w i" by (metis bit_eqI bit_0_eq bot_apply bot_bool_def)
  define l where "l = (LEAST i. bit w i)"
  have "bit w l" using i unfolding l_def by (rule LeastI)
  moreover have "\<not> bit w j" if "j < l" for j using that not_less_Least unfolding l_def by blast
  ultimately have "least_bit w l" by (simp add: least_bit_def)
  moreover have "l < 64" using bit_imp_le_length [OF \<open>bit w l\<close>] by simp
  ultimately show ?thesis using that by blast
qed

lemma greatest_bit_exists:
  assumes "w \<noteq> 0"
  obtains g where "greatest_bit w g" and "g < 64"
proof -
  from assms obtain i where i: "bit w i" by (metis bit_eqI bit_0_eq bot_apply bot_bool_def)
  have b: "bit w j \<Longrightarrow> j \<le> 64" for j using bit_imp_le_length [of w j] by simp
  define g where "g = (GREATEST i. bit w i)"
  have "bit w g" unfolding g_def using i b by (rule GreatestI_nat)
  moreover have "\<not> bit w j" if "j > g" for j
    using that Greatest_le_nat [of "bit w" j 64] b unfolding g_def by fastforce
  ultimately have "greatest_bit w g" by (simp add: greatest_bit_def)
  moreover have "g < 64" using bit_imp_le_length [OF \<open>bit w g\<close>] by simp
  ultimately show ?thesis using that by blast
qed

lemma least_bit_unique: "least_bit w l \<Longrightarrow> least_bit w k \<Longrightarrow> l = k"
  unfolding least_bit_def by (metis linorder_neqE_nat)

lemma and_low_zero: "w AND (mask n :: u64) = 0 \<longleftrightarrow> (\<forall>i < n. \<not> bit w i)"
proof -
  have "w AND mask n = take_bit n w" by (simp add: take_bit_eq_mask)
  also have "\<dots> = 0 \<longleftrightarrow> (\<forall>i. \<not> (i < n \<and> bit w i))"
    using bit_imp_le_length [of w] by (auto simp: bit_eq_iff bit_take_bit_iff)
  finally show ?thesis by auto
qed

lemma and_high_zero:
  assumes "n \<le> 64"
  shows "w AND push_bit (64 - n) (NOT 0 :: u64) = 0 \<longleftrightarrow> (\<forall>i. 64 - n \<le> i \<longrightarrow> \<not> bit w i)"
  using bit_imp_le_length [of w] by (auto simp: bit_eq_iff bit_simps) (metis not_le)+

text \<open>One halving skips the low \<open>n\<close> bits when they are all zero.\<close>

lemma ffs_half_least:
  assumes "least_bit (snd p) l" and "l < 2 * n"
  shows "\<exists>l'. least_bit (snd (ffs_half (mask n) n p)) l' \<and> l' < n \<and> fst (ffs_half (mask n) n p) + l' = fst p + l"
proof (cases "snd p AND mask n = 0")
  case True
  then have low: "\<not> bit (snd p) i" if "i < n" for i using that by (simp add: and_low_zero)
  then have "n \<le> l" using assms(1) by (meson least_bit_def not_le)
  moreover from this have "least_bit (drop_bit n (snd p)) (l - n)"
    using assms(1) low by (auto simp: least_bit_def bit_drop_bit_eq)
  ultimately show ?thesis using True assms(2)
    by (intro exI [of _ "l - n"]) (auto simp: ffs_half_def split: prod.splits)
next
  case False
  then obtain i where "i < n" "bit (snd p) i" by (auto simp: and_low_zero)
  then have "l < n" using assms(1) by (metis least_bit_def less_trans linorder_neqE_nat)
  with False assms(1) show ?thesis by (intro exI [of _ l]) (auto simp: ffs_half_def split: prod.splits)
qed

lemma sbi_ffs_halves:
  "sbi_ffs w = fst (ffs_half (mask 1) 1 (ffs_half (mask 2) 2 (ffs_half (mask 4) 4 (ffs_half (mask 8) 8
     (ffs_half (mask 16) 16 (ffs_half (mask 32) 32 (0, w)))))))"
proof -
  have m: "(mask 32 :: u64) = 0xffffffff" "(mask 16 :: u64) = 0xffff" "(mask 8 :: u64) = 0xff" "(mask 4 :: u64) = 0xf"
    "(mask 2 :: u64) = 0x3" "(mask 1 :: u64) = 1"
    by (simp_all add: mask_eq_exp_minus_1)
  show ?thesis unfolding m sbi_ffs_def Let_def
    by (subst (2) ffs_half_def) (simp only: if_distrib [of fst] fst_conv case_prod_beta)
qed

lemma sbi_ffs_least:
  assumes "w \<noteq> 0"
  shows "least_bit w (sbi_ffs w) \<and> sbi_ffs w < 64"
proof -
  obtain l where l: "least_bit w l" "l < 64" using assms by (rule least_bit_exists)
  let ?p1 = "ffs_half (mask 32) 32 (0, w)"
  let ?p2 = "ffs_half (mask 16) 16 ?p1"
  let ?p3 = "ffs_half (mask 8) 8 ?p2"
  let ?p4 = "ffs_half (mask 4) 4 ?p3"
  let ?p5 = "ffs_half (mask 2) 2 ?p4"
  obtain l1 where 1: "least_bit (snd ?p1) l1" "l1 < 32" "fst ?p1 + l1 = l"
    using ffs_half_least [of "(0, w)" l 32] l by auto
  obtain l2 where 2: "least_bit (snd ?p2) l2" "l2 < 16" "fst ?p2 + l2 = l"
    using ffs_half_least [OF 1(1), of 16] 1(2,3) by auto
  obtain l3 where 3: "least_bit (snd ?p3) l3" "l3 < 8" "fst ?p3 + l3 = l"
    using ffs_half_least [OF 2(1), of 8] 2(2,3) by auto
  obtain l4 where 4: "least_bit (snd ?p4) l4" "l4 < 4" "fst ?p4 + l4 = l"
    using ffs_half_least [OF 3(1), of 4] 3(2,3) by auto
  obtain l5 where 5: "least_bit (snd ?p5) l5" "l5 < 2" "fst ?p5 + l5 = l"
    using ffs_half_least [OF 4(1), of 2] 4(2,3) by auto
  have "fst (ffs_half (mask 1) 1 ?p5) = l" using ffs_half_least [OF 5(1), of 1] 5(2,3) by auto
  then show ?thesis using l unfolding sbi_ffs_halves by simp
qed

text \<open>One halving skips the high \<open>n\<close> bits when they are all zero.\<close>

lemma fls_half_greatest:
  assumes "greatest_bit (snd p) g" and "g < 64" and "63 - g < 2 * n" and "63 - g \<le> fst p" and "n \<le> 32"
  shows "\<exists>g'. greatest_bit (snd (fls_half n p)) g' \<and> g' < 64 \<and> 63 - g' < n \<and> 63 - g' \<le> fst (fls_half n p) \<and>
    fst (fls_half n p) - (63 - g') = fst p - (63 - g)"
proof (cases "snd p AND push_bit (64 - n) (NOT 0) = 0")
  case True
  then have high: "\<not> bit (snd p) i" if "64 - n \<le> i" for i using that assms(5) and_high_zero [of n "snd p"] by auto
  then have g: "g < 64 - n" using assms(1) by (meson greatest_bit_def not_le)
  have "greatest_bit (push_bit n (snd p)) (g + n)"
    using assms(1) g by (auto simp: greatest_bit_def bit_push_bit_iff)
  then show ?thesis using True g assms(3,4)
    by (intro exI [of _ "g + n"]) (auto simp: fls_half_def split: prod.splits)
next
  case False
  then obtain i where "64 - n \<le> i" "bit (snd p) i" using assms(5) and_high_zero [of n "snd p"] by auto
  then have "64 - n \<le> g" using assms(1) by (meson greatest_bit_def not_le le_trans)
  moreover have "0 < n" using assms(3) by simp
  ultimately show ?thesis using False assms
    by (intro exI [of _ g]) (auto simp: fls_half_def split: prod.splits)
qed

lemma sbi_fls_halves:
  "sbi_fls w = fst (fls_half 1 (fls_half 2 (fls_half 4 (fls_half 8 (fls_half 16 (fls_half 32 (63, w)))))))"
proof -
  have one: "fst (fls_half 1 p) =
      (case p of (num, word) \<Rightarrow> if word AND push_bit (BITS_PER_LONG - 1) (NOT 0) = 0 then num - 1 else num)" for p
    by (simp add: fls_half_def split: prod.splits)
  show ?thesis unfolding sbi_fls_def Let_def one by simp
qed

lemma sbi_fls_greatest:
  assumes "w \<noteq> 0"
  shows "greatest_bit w (sbi_fls w) \<and> sbi_fls w < 64"
proof -
  obtain g where g: "greatest_bit w g" "g < 64" using assms by (rule greatest_bit_exists)
  let ?p1 = "fls_half 32 (63, w)"
  let ?p2 = "fls_half 16 ?p1"
  let ?p3 = "fls_half 8 ?p2"
  let ?p4 = "fls_half 4 ?p3"
  let ?p5 = "fls_half 2 ?p4"
  let ?P = "\<lambda>p n g'. greatest_bit (snd p) g' \<and> g' < 64 \<and> 63 - g' < n \<and> 63 - g' \<le> fst p \<and> fst p - (63 - g') = g"
  have "63 - g < 2 * 32" by arith
  then obtain g1 where 1: "?P ?p1 32 g1" using fls_half_greatest [of "(63, w)" g 32] g by auto
  obtain g2 where 2: "?P ?p2 16 g2" using fls_half_greatest [of ?p1 g1 16] 1 by auto
  obtain g3 where 3: "?P ?p3 8 g3" using fls_half_greatest [of ?p2 g2 8] 2 by auto
  obtain g4 where 4: "?P ?p4 4 g4" using fls_half_greatest [of ?p3 g3 4] 3 by auto
  obtain g5 where 5: "?P ?p5 2 g5" using fls_half_greatest [of ?p4 g4 2] 4 by auto
  have "fst (fls_half 1 ?p5) = g" using fls_half_greatest [of ?p5 g5 1] 5 by auto
  then show ?thesis using g unfolding sbi_fls_halves by simp
qed

section \<open>Bitmaps as sets of bit numbers\<close>

definition bmap_bit :: "u64 list \<Rightarrow> nat \<Rightarrow> bool" where
  "bmap_bit addr k \<longleftrightarrow> bit (addr ! (k div 64)) (k mod 64)"

text \<open>\<open>r\<close> is the first number from \<open>lo\<close> on with property \<open>P\<close>, or \<open>hi\<close>.\<close>

definition is_first :: "(nat \<Rightarrow> bool) \<Rightarrow> nat \<Rightarrow> nat \<Rightarrow> nat \<Rightarrow> bool" where
  "is_first P lo hi r \<longleftrightarrow> lo \<le> r \<and> r \<le> hi \<and> (\<forall>k. lo \<le> k \<and> k < r \<longrightarrow> \<not> P k) \<and> (r < hi \<longrightarrow> P r)"

lemma is_first_unique: "is_first P lo hi r \<Longrightarrow> is_first P lo hi s \<Longrightarrow> r = s"
  unfolding is_first_def by (metis linorder_neqE_nat order_less_le_trans)

lemma is_first_skip:
  "is_first P mid hi r \<Longrightarrow> lo \<le> mid \<Longrightarrow> (\<And>k. lo \<le> k \<Longrightarrow> k < mid \<Longrightarrow> \<not> P k) \<Longrightarrow> is_first P lo hi r"
  unfolding is_first_def by (meson le_trans not_le)

lemma is_first_cong:
  "(\<And>k. lo \<le> k \<Longrightarrow> k < hi \<Longrightarrow> P k = Q k) \<Longrightarrow> is_first P lo hi r = is_first Q lo hi r"
  unfolding is_first_def by (meson less_le_trans)

lemma bmap_bit_word: "j < 64 \<Longrightarrow> bmap_bit addr (64 * i + j) = bit (addr ! i) j"
  by (simp add: bmap_bit_def)

text \<open>Searching one word from bit \<open>lo\<close> up to bit \<open>hi\<close>.\<close>

lemma word_first:
  assumes "lo \<le> hi" and "hi \<le> 64" and "\<And>j. j < 64 \<Longrightarrow> bit tmp j \<longleftrightarrow> lo \<le> j \<and> j < hi \<and> bit (addr ! i) j"
  shows "is_first (bmap_bit addr) (64 * i + lo) (64 * i + hi) (if tmp = 0 then 64 * i + hi else 64 * i + sbi_ffs tmp)"
proof (cases "tmp = 0")
  case True
  have "\<not> bmap_bit addr k" if k: "64 * i + lo \<le> k" "k < 64 * i + hi" for k
  proof -
    obtain j where j: "k = 64 * i + j" using k(1) by (metis le_Suc_ex add.assoc)
    then have "lo \<le> j" "j < hi" "j < 64" using k assms(2) by auto
    then show ?thesis using assms(3) [of j] True by (simp add: j bmap_bit_word)
  qed
  then show ?thesis using True assms(1) by (auto simp: is_first_def)
next
  case False
  from sbi_ffs_least [OF False] have f: "bit tmp (sbi_ffs tmp)" "\<And>j. j < sbi_ffs tmp \<Longrightarrow> \<not> bit tmp j" "sbi_ffs tmp < 64"
    by (auto simp: least_bit_def)
  then have r: "lo \<le> sbi_ffs tmp" "sbi_ffs tmp < hi" "bit (addr ! i) (sbi_ffs tmp)" using assms(3) by auto
  have "\<not> bmap_bit addr k" if k: "64 * i + lo \<le> k" "k < 64 * i + sbi_ffs tmp" for k
  proof -
    obtain j where j: "k = 64 * i + j" using k(1) by (metis le_Suc_ex add.assoc)
    then have "lo \<le> j" "j < sbi_ffs tmp" using k by auto
    then show ?thesis using assms(3) [of j] f(2) [of j] r(2) f(3) by (simp add: j bmap_bit_word)
  qed
  then show ?thesis using False r f(3) by (auto simp: is_first_def bmap_bit_word)
qed

lemma bit_ones_below: "s \<le> 64 \<Longrightarrow> j < 64 \<Longrightarrow> bit (drop_bit (64 - s) (NOT 0 :: u64)) j \<longleftrightarrow> j < s"
  by (auto simp: bit_simps)

lemma found_first_spec:
  assumes "lo < sz" and "sz < 64" and "\<And>j. j < 64 \<Longrightarrow> bit tmp j \<longleftrightarrow> lo \<le> j \<and> bit (addr ! i) j"
  shows "is_first (bmap_bit addr) (64 * i + lo) (64 * i + sz) (found_first (64 * i) sz tmp)"
proof -
  have *: "bit (tmp AND drop_bit (64 - sz) (NOT 0)) j \<longleftrightarrow> lo \<le> j \<and> j < sz \<and> bit (addr ! i) j" if "j < 64" for j
    using that assms bit_ones_below [of sz j] by (auto simp: bit_and_iff)
  show ?thesis unfolding found_first_def Let_def by (rule word_first [OF _ _ *]) (use assms(1,2) in auto)
qed

lemma find_bit_loop_spec: "is_first (bmap_bit addr) (64 * i) (64 * i + sz) (find_bit_loop addr i (64 * i) sz)"
proof (induction sz arbitrary: i rule: less_induct)
  case (less sz)
  show ?case
  proof (cases "sz \<ge> 64")
    case True
    have w: "is_first (bmap_bit addr) (64 * i + 0) (64 * i + 64) (if addr ! i = 0 then 64 * i + 64 else 64 * i + sbi_ffs (addr ! i))"
      by (rule word_first) auto
    show ?thesis
    proof (cases "addr ! i = 0")
      case 0: True
      have "is_first (bmap_bit addr) (64 * (i + 1)) (64 * (i + 1) + (sz - 64)) (find_bit_loop addr (i + 1) (64 * (i + 1)) (sz - 64))"
        using True by (intro less.IH) auto
      then have "is_first (bmap_bit addr) (64 * i + 64) (64 * i + sz) (find_bit_loop addr (i + 1) (64 * i + 64) (sz - 64))"
        using True by (simp add: algebra_simps)
      then have "is_first (bmap_bit addr) (64 * i) (64 * i + sz) (find_bit_loop addr (i + 1) (64 * i + 64) (sz - 64))"
        by (rule is_first_skip) (use w 0 in \<open>auto simp: is_first_def\<close>)
      then show ?thesis using True 0 by (subst find_bit_loop.simps) simp
    next
      case False
      then have "sbi_ffs (addr ! i) < 64" using sbi_ffs_least by blast
      with w False True show ?thesis by (subst find_bit_loop.simps) (auto simp: is_first_def)
    qed
  next
    case False
    show ?thesis
    proof (cases "sz = 0")
      case True
      then show ?thesis by (subst find_bit_loop.simps) (auto simp: is_first_def)
    next
      case False
      with \<open>\<not> sz \<ge> 64\<close> show ?thesis
        using found_first_spec [of 0 sz "addr ! i" addr i] by (subst find_bit_loop.simps) simp
    qed
  qed
qed

lemma find_first_bit_first: "is_first (bmap_bit addr) 0 sz (find_first_bit addr sz)"
  using find_bit_loop_spec [of addr 0 sz] by (simp add: find_first_bit_def)

lemma find_next_bit_first:
  assumes "offset < sz"
  shows "is_first (bmap_bit addr) offset sz (find_next_bit addr sz offset)"
proof -
  let ?i = "offset div 64" and ?o = "offset mod 64"
  let ?s = "sz - 64 * ?i"
  have o: "64 * ?i + ?o = offset" "?o < 64" "?o < ?s" "64 * ?i + ?s = sz"
    using assms by (simp_all add: less_diff_conv)
  let ?t = "addr ! ?i AND push_bit ?o (NOT 0)"
  have t: "bit ?t j \<longleftrightarrow> ?o \<le> j \<and> bit (addr ! ?i) j" if "j < 64" for j
    using that by (auto simp: bit_simps)
  show ?thesis
  proof (cases "?o = 0")
    case True
    then show ?thesis using find_bit_loop_spec [of addr ?i ?s] o assms by (simp add: find_next_bit_def Let_def)
  next
    case ne: False
    show ?thesis
    proof (cases "?s < 64")
      case True
      then show ?thesis using found_first_spec [OF o(3) True t] o assms ne by (simp add: find_next_bit_def Let_def)
    next
      case False
      have w: "is_first (bmap_bit addr) (64 * ?i + ?o) (64 * ?i + 64) (if ?t = 0 then 64 * ?i + 64 else 64 * ?i + sbi_ffs ?t)"
        using o(2) t by (intro word_first) auto
      show ?thesis
      proof (cases "?t = 0")
        case 0: True
        have "is_first (bmap_bit addr) (64 * ?i + 64) sz (find_bit_loop addr (?i + 1) (64 * ?i + 64) (?s - 64))"
          using find_bit_loop_spec [of addr "?i + 1" "?s - 64"] False o(4) by (simp add: algebra_simps)
        then have "is_first (bmap_bit addr) offset sz (find_bit_loop addr (?i + 1) (64 * ?i + 64) (?s - 64))"
          by (rule is_first_skip) (use w 0 o in \<open>auto simp: is_first_def\<close>)
        then show ?thesis using False 0 ne assms by (simp add: find_next_bit_def Let_def)
      next
        case nz: False
        then have "sbi_ffs ?t < 64" using sbi_ffs_least by blast
        with w nz False ne o assms show ?thesis by (auto simp: find_next_bit_def Let_def is_first_def)
      qed
    qed
  qed
qed

text \<open>The searches for a zero bit are the searches for a set bit in the complement.\<close>

lemma found_first_zero_not:
  assumes "sz < 64"
  shows "found_first_zero r sz tmp = found_first r sz (NOT tmp)"
proof -
  have "tmp OR push_bit sz (NOT 0) = NOT (NOT tmp AND drop_bit (64 - sz) (NOT 0))"
    using assms by (intro bit_word_eqI) (auto simp: bit_simps)
  then show ?thesis
    by (simp only: found_first_zero_def found_first_def sbi_ffz_def Let_def bit.double_compl bit.compl_eq_compl_iff)
qed

lemma find_zero_bit_loop_not:
  "sz \<le> 64 * (length addr - i) \<Longrightarrow> find_zero_bit_loop addr i r sz = find_bit_loop (map NOT addr) i r sz"
proof (induction addr i r sz rule: find_zero_bit_loop.induct)
  case (1 addr i r sz)
  show ?case
  proof (cases "sz = 0")
    case False
    then have i: "i < length addr" using "1.prems" by auto
    show ?thesis
    proof (cases "sz \<ge> 64")
      case True
      then have "find_zero_bit_loop addr (i + 1) (r + 64) (sz - 64) = find_bit_loop (map NOT addr) (i + 1) (r + 64) (sz - 64)"
        if "NOT (addr ! i) = 0"
        using that "1.prems" by (intro "1.IH") auto
      with True i show ?thesis
        by (subst find_zero_bit_loop.simps, subst find_bit_loop.simps) (simp add: sbi_ffz_def)
    next
      case f: False
      then show ?thesis using i False
        by (subst find_zero_bit_loop.simps, subst find_bit_loop.simps) (simp add: found_first_zero_not)
    qed
  qed (subst find_zero_bit_loop.simps, subst find_bit_loop.simps, simp)
qed

lemma find_next_zero_bit_not:
  assumes "sz \<le> 64 * length addr"
  shows "find_next_zero_bit addr sz offset = find_next_bit (map NOT addr) sz offset"
proof (cases "offset < sz")
  case True
  let ?i = "offset div 64" and ?o = "offset mod 64"
  have i: "?i < length addr" using True assms by (simp add: less_mult_imp_div_less mult.commute)
  have d: "64 * ?i \<le> offset" by simp
  have s: "sz - 64 * ?i \<le> 64 * (length addr - ?i)" using assms by (simp add: diff_mult_distrib2)
  have t: "addr ! ?i OR drop_bit (64 - ?o) (NOT 0) = NOT (map NOT addr ! ?i AND push_bit ?o (NOT 0))"
    using i by (intro bit_word_eqI) (auto simp: bit_simps)
  have l: "find_zero_bit_loop addr (?i + 1) r (sz - 64 * ?i - 64) = find_bit_loop (map NOT addr) (?i + 1) r (sz - 64 * ?i - 64)" for r
    using s by (intro find_zero_bit_loop_not) auto
  have f: "(if sz - 64 * ?i < 64 then found_first_zero r (sz - 64 * ?i) (NOT x) else q) =
      (if sz - 64 * ?i < 64 then found_first r (sz - 64 * ?i) x else q)" for r x q
    by (cases "sz - 64 * ?i < 64") (simp_all only: found_first_zero_not bit.double_compl if_True if_False)
  show ?thesis
    unfolding find_next_zero_bit_def find_next_bit_def Let_def t f l find_zero_bit_loop_not [OF s]
    by (simp only: sbi_ffz_def bit.double_compl)
next
  case False
  then show ?thesis by (simp add: find_next_zero_bit_def find_next_bit_def)
qed

definition is_last :: "(nat \<Rightarrow> bool) \<Rightarrow> nat \<Rightarrow> nat \<Rightarrow> bool" where
  "is_last P hi r \<longleftrightarrow> (r < hi \<and> P r \<and> (\<forall>k. r < k \<and> k < hi \<longrightarrow> \<not> P k)) \<or> (r = hi \<and> (\<forall>k < hi. \<not> P k))"

lemma word_last:
  assumes "hi \<le> 64" and "tmp \<noteq> 0" and "\<And>j. j < 64 \<Longrightarrow> bit tmp j \<longleftrightarrow> j < hi \<and> bit (addr ! i) j"
  shows "64 * i + sbi_fls tmp < 64 * i + hi" and "bmap_bit addr (64 * i + sbi_fls tmp)"
    and "\<And>k. 64 * i + sbi_fls tmp < k \<Longrightarrow> k < 64 * i + hi \<Longrightarrow> \<not> bmap_bit addr k"
proof -
  from sbi_fls_greatest [OF assms(2)] have f: "bit tmp (sbi_fls tmp)" "\<And>j. sbi_fls tmp < j \<Longrightarrow> \<not> bit tmp j" "sbi_fls tmp < 64"
    by (auto simp: greatest_bit_def)
  then show "64 * i + sbi_fls tmp < 64 * i + hi" "bmap_bit addr (64 * i + sbi_fls tmp)"
    using assms(3) by (auto simp: bmap_bit_word)
  fix k assume k: "64 * i + sbi_fls tmp < k" "k < 64 * i + hi"
  then obtain j where j: "k = 64 * i + j" by (metis le_Suc_ex less_imp_le add.assoc)
  then show "\<not> bmap_bit addr k" using k f(2) [of j] assms(1,3) by (auto simp: bmap_bit_word)
qed

lemma find_last_bit_loop_spec:
  assumes "\<And>k. 64 * words \<le> k \<Longrightarrow> k < sz \<Longrightarrow> \<not> bmap_bit addr k" and "64 * words \<le> sz"
  shows "is_last (bmap_bit addr) sz (find_last_bit_loop addr sz words)"
  using assms
proof (induction words)
  case 0
  then show ?case by (simp add: is_last_def)
next
  case (Suc w)
  show ?case
  proof (cases "addr ! w = 0")
    case True
    have "\<not> bmap_bit addr k" if k: "64 * w \<le> k" "k < sz" for k
    proof (cases "k < 64 * w + 64")
      case lt: True
      then obtain j where "k = 64 * w + j" "j < 64" using k(1) by (metis le_Suc_ex nat_add_left_cancel_less)
      then show ?thesis using True by (simp add: bmap_bit_word)
    next
      case False
      with Suc.prems(1) k(2) show ?thesis by simp
    qed
    then show ?thesis using Suc True by simp
  next
    case False
    note l = word_last [of 64 "addr ! w" addr w, OF _ False]
    have "sbi_fls (addr ! w) < 64" using sbi_fls_greatest [OF False] by simp
    moreover have "\<not> bmap_bit addr k" if "64 * w + sbi_fls (addr ! w) < k" "k < sz" for k
      using l(3) [of k] Suc.prems(1) [of k] that by (cases "k < 64 * w + 64") auto
    ultimately show ?thesis using l(2) False Suc.prems(2) by (auto simp: is_last_def mult.commute)
  qed
qed

lemma find_last_bit_split:
  assumes "n < 64"
  shows "find_last_bit addr (64 * w + n) =
    (if n \<noteq> 0 \<and> addr ! w AND drop_bit (64 - n) (NOT 0) \<noteq> 0
     then 64 * w + sbi_fls (addr ! w AND drop_bit (64 - n) (NOT 0)) else find_last_bit_loop addr (64 * w + n) w)"
proof -
  have "(64 * w + n) div 64 = w" "(64 * w + n) mod 64 = n" using assms by simp_all
  then show ?thesis unfolding find_last_bit_def Let_def by (simp only: mult.commute [of w 64] if_distribR split: if_split) simp
qed

lemma find_last_bit_last: "is_last (bmap_bit addr) sz (find_last_bit addr sz)"
proof -
  obtain w n where sz: "sz = 64 * w + n" and n: "n < 64" by (metis mult_div_mod_eq mod_less_divisor zero_less_numeral)
  let ?t = "addr ! w AND drop_bit (64 - n) (NOT 0)"
  have t: "bit ?t j \<longleftrightarrow> j < n \<and> bit (addr ! w) j" if "j < 64" for j
    using that bit_ones_below [of n j] n by (auto simp: bit_and_iff)
  show ?thesis
  proof (cases "n \<noteq> 0 \<and> ?t \<noteq> 0")
    case True
    then have "?t \<noteq> 0" by blast
    note l = word_last [OF less_imp_le [OF n] this t]
    show ?thesis unfolding sz find_last_bit_split [OF n] if_P [OF True] is_last_def using l by blast
  next
    case False
    have "\<not> bmap_bit addr k" if k: "64 * w \<le> k" "k < 64 * w + n" for k
    proof -
      obtain j where j: "k = 64 * w + j" using k(1) by (metis le_Suc_ex)
      with k(2) have "j < n" by simp
      then show ?thesis using t [of j] False n by (auto simp: j bmap_bit_word)
    qed
    then have "is_last (bmap_bit addr) (64 * w + n) (find_last_bit_loop addr (64 * w + n) w)"
      by (rule find_last_bit_loop_spec) simp_all
    then show ?thesis unfolding sz find_last_bit_split [OF n] if_not_P [OF False] .
  qed
qed

text \<open>
  C29: The bitmap searches return what they are named for, for every size and start position,
  also when neither is a multiple of the word size: the first (next, last) set bit and the
  next clear bit below the size, and the size itself when there is none.
\<close>

theorem bitmap_search_correct:
  assumes "sz \<le> 64 * length addr" and "offset < sz"
  shows "is_first (bmap_bit addr) 0 sz (find_first_bit addr sz) \<and>
    is_first (bmap_bit addr) offset sz (find_next_bit addr sz offset) \<and>
    is_first (\<lambda>k. \<not> bmap_bit addr k) offset sz (find_next_zero_bit addr sz offset) \<and>
    is_last (bmap_bit addr) sz (find_last_bit addr sz)"
proof -
  have "bmap_bit (map NOT addr) k \<longleftrightarrow> \<not> bmap_bit addr k" if "k < sz" for k
  proof -
    have "k div 64 < length addr" using that assms(1) by (simp add: less_mult_imp_div_less mult.commute)
    then show ?thesis by (simp add: bmap_bit_def bit_not_iff)
  qed
  then have "is_first (\<lambda>k. \<not> bmap_bit addr k) offset sz r = is_first (bmap_bit (map NOT addr)) offset sz r" for r
    by (intro is_first_cong) auto
  then show ?thesis
    using find_first_bit_first find_next_bit_first [OF assms(2)] find_last_bit_last
    by (simp add: find_next_zero_bit_not [OF assms(1)])
qed

theorem bitmap_search_correct_witness:
  "is_first (bmap_bit [0, 0x10]) 3 100 (find_next_bit [0, 0x10] 100 3) \<and> find_next_bit [0, 0x10] 100 3 = 68"
proof -
  have "is_first (bmap_bit [0, 0x10]) 3 100 (find_next_bit [0, 0x10] 100 3)"
    using bitmap_search_correct [of 100 "[0, 0x10]" 3] by simp
  moreover have "find_next_bit [0, 0x10] 100 3 = 68"
    by (simp add: find_next_bit_def Let_def, subst find_bit_loop.simps,
        simp add: found_first_def Let_def sbi_ffs_def ffs_half_def mask_eq_exp_minus_1)
  ultimately show ?thesis by simp
qed

section \<open>Hart masks as sets\<close>

definition mask_wf :: "sbi_hartmask \<Rightarrow> bool" where
  "mask_wf m \<longleftrightarrow> length (bits m) = BITS_TO_LONGS SBI_HARTMASK_MAX_BITS"

definition harts :: "sbi_hartmask \<Rightarrow> nat set" where
  "harts m = {h. sbi_hartmask_test_hart h m}"

lemma mask_words: "BITS_TO_LONGS SBI_HARTMASK_MAX_BITS = 2" "BITS_TO_LONGS 128 = 2"
  by (simp_all add: BITS_TO_LONGS_def SBI_HARTMASK_MAX_BITS_def)

lemma upt_split: "i \<le> j \<Longrightarrow> j \<le> k \<Longrightarrow> [i..<k] = [i..<j] @ [j..<k]"
  using upt_add_eq_append [of i j "k - j"] by simp

lemma sbi_test_bit_bmap: "sbi_test_bit k addr = bmap_bit addr k"
  by (simp add: sbi_test_bit_def bmap_bit_def BIT_WORD_def and.commute [of 1] and_one_eq odd_iff_mod_2_eq_one [symmetric]
      bit_iff_odd_drop_bit)

lemma harts_iff: "h \<in> harts m \<longleftrightarrow> h < SBI_HARTMASK_MAX_BITS \<and> bmap_bit (bits m) h"
  by (simp add: harts_def sbi_hartmask_test_hart_def sbi_test_bit_bmap)

lemma bit_BIT_MASK: "j < 64 \<Longrightarrow> bit (BIT_MASK h) j \<longleftrightarrow> j = h mod 64"
  by (auto simp: BIT_MASK_def bit_simps)

lemma div_mod_eq_iff: "(k :: nat) div 64 = h div 64 \<Longrightarrow> k mod 64 = h mod 64 \<Longrightarrow> k = h"
  by (metis div_mult_mod_eq)

lemma bmap_bit_update:
  assumes "h div 64 < length addr"
  shows "bmap_bit (addr[h div 64 := w]) k = (if k div 64 = h div 64 then bit w (k mod 64) else bmap_bit addr k)"
  using assms by (auto simp: bmap_bit_def)

lemma bmap_bit_set: "h div 64 < length addr \<Longrightarrow> bmap_bit (sbi_set_bit h addr) k \<longleftrightarrow> k = h \<or> bmap_bit addr k"
  by (auto simp: sbi_set_bit_def BIT_WORD_def bmap_bit_update bit_or_iff bit_BIT_MASK dest: div_mod_eq_iff)
    (auto simp: bmap_bit_def)

lemma bmap_bit_clear: "h div 64 < length addr \<Longrightarrow> bmap_bit (sbi_clear_bit h addr) k \<longleftrightarrow> k \<noteq> h \<and> bmap_bit addr k"
  by (auto simp: sbi_clear_bit_def BIT_WORD_def bmap_bit_update bit_and_iff bit_not_iff bit_BIT_MASK dest: div_mod_eq_iff)
    (auto simp: bmap_bit_def)

lemma two_words: "length xs = 2 \<Longrightarrow> \<exists>a b. xs = [a, b]"
  by (auto simp: length_Suc_conv numeral_2_eq_2)

lemma upt_two: "[0..<2] = [0, 1]" "[0..<Suc 0] = [0]"
  by (simp_all add: upt_rec)

lemma bmap_bit_two: "k < 128 \<Longrightarrow> bmap_bit [a, b] k = (if k < 64 then bit a k else bit b (k - 64))"
  by (simp add: bmap_bit_def div_if [of k 64] le_mod_geq)

lemma bitmap_op_two:
  "bitmap_op f [c, d] [a, b] [a', b'] 128 = [f a a', f b b']"
  by (simp add: bitmap_op_def mask_words upt_two)

lemma mask_wf_two: "mask_wf m \<Longrightarrow> \<exists>a b. bits m = [a, b]"
  by (simp add: mask_wf_def mask_words two_words)

lemma mask_wf_set [simp]: "mask_wf (sbi_hartmask_set_hart h m) = mask_wf m"
  by (simp add: mask_wf_def sbi_hartmask_set_hart_def sbi_set_bit_def)

lemma mask_wf_clear [simp]: "mask_wf (sbi_hartmask_clear_hart h m) = mask_wf m"
  by (simp add: mask_wf_def sbi_hartmask_clear_hart_def sbi_clear_bit_def)

lemma harts_below: "harts m \<subseteq> {..<SBI_HARTMASK_MAX_BITS}"
  by (auto simp: harts_iff)

lemma harts_set:
  "mask_wf m \<Longrightarrow> harts (sbi_hartmask_set_hart h m) = (if h < SBI_HARTMASK_MAX_BITS then insert h (harts m) else harts m)"
  by (auto simp: harts_iff sbi_hartmask_set_hart_def bmap_bit_set mask_wf_def mask_words SBI_HARTMASK_MAX_BITS_def)

lemma harts_clear: "mask_wf m \<Longrightarrow> harts (sbi_hartmask_clear_hart h m) = harts m - {h}"
  by (auto simp: harts_iff sbi_hartmask_clear_hart_def bmap_bit_clear mask_wf_def mask_words SBI_HARTMASK_MAX_BITS_def)

lemma harts_op:
  assumes "mask_wf d" and "mask_wf a" and "mask_wf b"
    and "\<And>v w j. bit (f v w :: u64) j \<longleftrightarrow> j < 64 \<and> g (bit v j) (bit w j)"
  shows "harts (d\<lparr>bits := bitmap_op f (bits d) (bits a) (bits b) SBI_HARTMASK_MAX_BITS\<rparr>) =
    {h. h < SBI_HARTMASK_MAX_BITS \<and> g (h \<in> harts a) (h \<in> harts b)}"
proof -
  obtain d0 d1 a0 a1 b0 b1 where m: "bits d = [d0, d1]" "bits a = [a0, a1]" "bits b = [b0, b1]"
    using assms(1-3) mask_wf_two by meson
  show ?thesis
    by (auto simp: harts_iff m bitmap_op_two bmap_bit_two assms(4) SBI_HARTMASK_MAX_BITS_def)
qed

lemma harts_or:
  assumes "mask_wf d" and "mask_wf a" and "mask_wf b"
  shows "harts (sbi_hartmask_or d a b) = harts a \<union> harts b" and "mask_wf (sbi_hartmask_or d a b)"
proof -
  show "harts (sbi_hartmask_or d a b) = harts a \<union> harts b"
    unfolding sbi_hartmask_or_def bitmap_or_def
    by (subst harts_op [OF assms, of "(OR)" "(\<or>)"]) (auto simp: bit_or_iff harts_iff dest: bit_imp_le_length)
  obtain d0 d1 a0 a1 b0 b1 where "bits d = [d0, d1]" "bits a = [a0, a1]" "bits b = [b0, b1]"
    using assms mask_wf_two by meson
  then show "mask_wf (sbi_hartmask_or d a b)"
    by (simp add: mask_wf_def mask_words sbi_hartmask_or_def bitmap_or_def SBI_HARTMASK_MAX_BITS_def bitmap_op_two)
qed

lemma harts_clear_all: "mask_wf m \<Longrightarrow> harts (sbi_hartmask_clear_all m) = {} \<and> mask_wf (sbi_hartmask_clear_all m)"
  using mask_wf_two [of m]
  by (auto simp: harts_iff sbi_hartmask_clear_all_def bitmap_zero_def mask_words upt_two
      bmap_bit_two SBI_HARTMASK_MAX_BITS_def mask_wf_def split: if_splits)

lemma harts_set_all: "mask_wf m \<Longrightarrow> harts (sbi_hartmask_set_all m) = {..<SBI_HARTMASK_MAX_BITS}"
  using mask_wf_two [of m]
  by (auto simp: harts_iff sbi_hartmask_set_all_def bitmap_fill_def mask_words upt_two
      bmap_bit_two SBI_HARTMASK_MAX_BITS_def mask_wf_def BITMAP_LAST_WORD_MASK_def Let_def)

text \<open>
  C28: Hart masks implement sets of hart numbers below 128: setting and clearing a hart,
  clearing and filling the mask and the word-wise logical operations are insertion, removal,
  the empty and the full set, intersection, union and symmetric difference.
\<close>

theorem hartmask_is_set:
  assumes "mask_wf d" and "mask_wf a" and "mask_wf b"
  shows "harts (sbi_hartmask_set_hart h d) = (if h < SBI_HARTMASK_MAX_BITS then insert h (harts d) else harts d) \<and>
    harts (sbi_hartmask_clear_hart h d) = harts d - {h} \<and>
    harts (sbi_hartmask_clear_all d) = {} \<and> harts (sbi_hartmask_set_all d) = {..<SBI_HARTMASK_MAX_BITS} \<and>
    harts (sbi_hartmask_and d a b) = harts a \<inter> harts b \<and> harts (sbi_hartmask_or d a b) = harts a \<union> harts b \<and>
    harts (sbi_hartmask_xor d a b) = (harts a - harts b) \<union> (harts b - harts a)"
proof -
  note o = harts_op [OF assms]
  have "harts (sbi_hartmask_and d a b) = harts a \<inter> harts b"
    unfolding sbi_hartmask_and_def bitmap_and_def
    by (subst o [of "(AND)" "(\<and>)"]) (auto simp: bit_and_iff harts_iff dest: bit_imp_le_length)
  moreover have "harts (sbi_hartmask_xor d a b) = (harts a - harts b) \<union> (harts b - harts a)"
    unfolding sbi_hartmask_xor_def bitmap_xor_def
    by (subst o [of "(XOR)" "(\<noteq>)"]) (auto simp: bit_xor_iff harts_iff dest: bit_imp_le_length)
  ultimately show ?thesis using assms(1) by (simp add: harts_set harts_clear harts_clear_all harts_set_all harts_or(1) [OF assms])
qed

theorem hartmask_is_set_witness:
  "harts (sbi_hartmask_and \<lparr>bits = [0, 0]\<rparr> \<lparr>bits = [0x3, 0x8]\<rparr> \<lparr>bits = [0x6, 0x9]\<rparr>) =
     harts \<lparr>bits = [0x3, 0x8]\<rparr> \<inter> harts \<lparr>bits = [0x6, 0x9]\<rparr>"
  using hartmask_is_set [of "\<lparr>bits = [0, 0]\<rparr>" "\<lparr>bits = [0x3, 0x8]\<rparr>" "\<lparr>bits = [0x6, 0x9]\<rparr>"]
  by (simp add: mask_wf_def mask_words)

text \<open>Iterating over a mask visits its harts in increasing order, each once.\<close>

lemma for_each_hart_from_list:
  "mask_wf m \<Longrightarrow> (b < SBI_HARTMASK_MAX_BITS \<Longrightarrow> b \<in> harts m) \<Longrightarrow>
   for_each_hart_from (bits m) b = filter (\<lambda>h. h \<in> harts m) [b..<SBI_HARTMASK_MAX_BITS]"
proof (induction "SBI_HARTMASK_MAX_BITS - b" arbitrary: b rule: less_induct)
  case less
  show ?case
  proof (cases "b < SBI_HARTMASK_MAX_BITS")
    case True
    define n where "n = (if b + 1 < SBI_HARTMASK_MAX_BITS
      then find_next_bit (bits m) SBI_HARTMASK_MAX_BITS (b + 1) else SBI_HARTMASK_MAX_BITS)"
    have f: "is_first (bmap_bit (bits m)) (b + 1) SBI_HARTMASK_MAX_BITS n"
      using find_next_bit_first [of "b + 1" SBI_HARTMASK_MAX_BITS "bits m"] True by (auto simp: is_first_def n_def)
    have "max (b + 1) (find_next_bit (bits m) SBI_HARTMASK_MAX_BITS (b + 1)) = n"
      using f True by (auto simp: is_first_def find_next_bit_def n_def)
    moreover have n: "b + 1 \<le> n" "n \<le> SBI_HARTMASK_MAX_BITS" using f by (auto simp: is_first_def)
    moreover have "[b..<SBI_HARTMASK_MAX_BITS] = b # [b + 1..<n] @ [n..<SBI_HARTMASK_MAX_BITS]"
      using n True upt_split [of "b + 1" n SBI_HARTMASK_MAX_BITS] by (simp add: upt_conv_Cons)
    moreover have "filter (\<lambda>h. h \<in> harts m) [b + 1..<n] = []"
      using f by (auto simp: filter_empty_conv harts_iff is_first_def)
    moreover have "for_each_hart_from (bits m) n = filter (\<lambda>h. h \<in> harts m) [n..<SBI_HARTMASK_MAX_BITS]"
    proof (rule less.hyps)
      show "SBI_HARTMASK_MAX_BITS - n < SBI_HARTMASK_MAX_BITS - b" using n True by linarith
      show "n \<in> harts m" if "n < SBI_HARTMASK_MAX_BITS" using f that by (simp add: is_first_def harts_iff)
    qed (rule less.prems)
    ultimately show ?thesis using True less.prems by (subst for_each_hart_from.simps) simp
  next
    case False
    then show ?thesis by (subst for_each_hart_from.simps) simp
  qed
qed

lemma for_each_hart_list:
  assumes "mask_wf m"
  shows "sbi_hartmask_for_each_hart m = filter (\<lambda>h. h \<in> harts m) [0..<SBI_HARTMASK_MAX_BITS]"
proof -
  let ?b = "find_first_bit (bits m) SBI_HARTMASK_MAX_BITS"
  have f: "is_first (bmap_bit (bits m)) 0 SBI_HARTMASK_MAX_BITS ?b" by (rule find_first_bit_first)
  have "sbi_hartmask_for_each_hart m = filter (\<lambda>h. h \<in> harts m) [?b..<SBI_HARTMASK_MAX_BITS]"
    unfolding sbi_hartmask_for_each_hart_def using assms f
    by (intro for_each_hart_from_list) (auto simp: is_first_def harts_iff)
  moreover have "[0..<SBI_HARTMASK_MAX_BITS] = [0..<?b] @ [?b..<SBI_HARTMASK_MAX_BITS]"
    using f by (intro upt_split) (auto simp: is_first_def)
  moreover have "filter (\<lambda>h. h \<in> harts m) [0..<?b] = []"
    using f by (auto simp: filter_empty_conv harts_iff is_first_def)
  ultimately show ?thesis by simp
qed

end
