(* ===== verification/SbiString.thy ===== *)
theory SbiString
  imports Kstring
begin

text \<open>
  The string and memory routines of the firmware, \<^verbatim>\<open>opensbi-1.2/lib/sbi/sbi_string.c\<close>,
  on the byte memory of the development. Loops that run until a zero byte are partial
  functions; loops with a count recurse on it. Plain \<^verbatim>\<open>char\<close> is unsigned on RISC-V.
\<close>

section \<open>Strings\<close>

partial_function (option) sbi_strcmp :: "memory \<Rightarrow> u64 \<Rightarrow> u64 \<Rightarrow> int option" where
  "sbi_strcmp m a b =
     (if m a = m b \<and> m a \<noteq> 0 then sbi_strcmp m (a + 1) (b + 1)
      else Some (uint (m a) - uint (m b)))"

fun sbi_strncmp :: "memory \<Rightarrow> u64 \<Rightarrow> u64 \<Rightarrow> nat \<Rightarrow> int" where
  "sbi_strncmp m a b 0 = 0"
| "sbi_strncmp m a b (Suc count) =
     (if m a = m b \<and> m a \<noteq> 0 then sbi_strncmp m (a + 1) (b + 1) count
      else uint (m a) - uint (m b))"

partial_function (option) sbi_strlen_loop :: "memory \<Rightarrow> u64 \<Rightarrow> u64 \<Rightarrow> u64 option" where
  "sbi_strlen_loop m str ret = (if m str \<noteq> 0 then sbi_strlen_loop m (str + 1) (ret + 1) else Some ret)"

definition sbi_strlen :: "memory \<Rightarrow> u64 \<Rightarrow> u64 option" where
  "sbi_strlen m str = sbi_strlen_loop m str 0"

text \<open>The counter of \<^verbatim>\<open>sbi_strnlen\<close> counts up to \<open>count\<close>; here what is left counts down.\<close>

fun sbi_strnlen :: "memory \<Rightarrow> u64 \<Rightarrow> nat \<Rightarrow> nat" where
  "sbi_strnlen m str 0 = 0"
| "sbi_strnlen m str (Suc count) = (if m str \<noteq> 0 then Suc (sbi_strnlen m (str + 1) count) else 0)"

partial_function (option) sbi_strcpy :: "memory \<Rightarrow> u64 \<Rightarrow> u64 \<Rightarrow> memory option" where
  "sbi_strcpy m dest src =
     (if m src \<noteq> 0 then sbi_strcpy (m(dest := m src)) (dest + 1) (src + 1) else Some m)"

fun sbi_strncpy :: "memory \<Rightarrow> u64 \<Rightarrow> u64 \<Rightarrow> nat \<Rightarrow> memory" where
  "sbi_strncpy m dest src 0 = m"
| "sbi_strncpy m dest src (Suc count) =
     (if m src \<noteq> 0 then sbi_strncpy (m(dest := m src)) (dest + 1) (src + 1) count else m)"

text \<open>The pointer result \<^verbatim>\<open>NULL\<close> is \<open>Some None\<close>; \<open>None\<close> is a scan that does not end.\<close>

partial_function (option) sbi_strchr :: "memory \<Rightarrow> u64 \<Rightarrow> u8 \<Rightarrow> u64 option option" where
  "sbi_strchr m s c =
     (if m s \<noteq> 0 \<and> m s \<noteq> c then sbi_strchr m (s + 1) c
      else Some (if m s = 0 then None else Some s))"

function sbi_strrchr_loop :: "memory \<Rightarrow> u64 \<Rightarrow> u8 \<Rightarrow> u64 \<Rightarrow> u64" where
  "sbi_strrchr_loop m s c lst =
     (if lst > s \<and> m lst \<noteq> c then sbi_strrchr_loop m s c (lst - 1) else lst)"
  by pat_completeness auto
termination
proof (relation "measure (\<lambda>(m, s, c, lst). unat lst)", goal_cases)
  case (2 m s c lst)
  then have "lst \<noteq> 0" by auto
  then show ?case by (simp add: unat_minus_one unat_gt_0)
qed simp

declare sbi_strrchr_loop.simps [simp del]

definition sbi_strrchr :: "memory \<Rightarrow> u64 \<Rightarrow> u8 \<Rightarrow> u64 option option" where
  "sbi_strrchr m s c =
     map_option (\<lambda>len. let lst = sbi_strrchr_loop m s c (s + len) in if m lst \<noteq> c then None else Some lst)
       (sbi_strlen m s)"

section \<open>Memory\<close>

fun sbi_memset_loop :: "memory \<Rightarrow> u64 \<Rightarrow> u8 \<Rightarrow> nat \<Rightarrow> memory" where
  "sbi_memset_loop m temp c 0 = m"
| "sbi_memset_loop m temp c (Suc count) = sbi_memset_loop (m(temp := c)) (temp + 1) c count"

definition sbi_memset :: "memory \<Rightarrow> u64 \<Rightarrow> u32 \<Rightarrow> u64 \<Rightarrow> memory" where
  "sbi_memset m s c count = sbi_memset_loop m s (ucast c) (unat count)"

fun sbi_memcpy_loop :: "memory \<Rightarrow> u64 \<Rightarrow> u64 \<Rightarrow> nat \<Rightarrow> memory" where
  "sbi_memcpy_loop m temp1 temp2 0 = m"
| "sbi_memcpy_loop m temp1 temp2 (Suc count) = sbi_memcpy_loop (m(temp1 := m temp2)) (temp1 + 1) (temp2 + 1) count"

definition sbi_memcpy :: "memory \<Rightarrow> u64 \<Rightarrow> u64 \<Rightarrow> u64 \<Rightarrow> memory" where
  "sbi_memcpy m dest src count = sbi_memcpy_loop m dest src (unat count)"

fun sbi_memmove_down :: "memory \<Rightarrow> u64 \<Rightarrow> u64 \<Rightarrow> nat \<Rightarrow> memory" where
  "sbi_memmove_down m temp1 temp2 0 = m"
| "sbi_memmove_down m temp1 temp2 (Suc count) = sbi_memmove_down (m(temp1 := m temp2)) (temp1 - 1) (temp2 - 1) count"

definition sbi_memmove :: "memory \<Rightarrow> u64 \<Rightarrow> u64 \<Rightarrow> u64 \<Rightarrow> memory" where
  "sbi_memmove m dest src count =
     (if src = dest then m
      else if dest < src then sbi_memcpy_loop m dest src (unat count)
      else sbi_memmove_down m (dest + count - 1) (src + count - 1) (unat count))"

fun sbi_memcmp :: "memory \<Rightarrow> u64 \<Rightarrow> u64 \<Rightarrow> nat \<Rightarrow> int" where
  "sbi_memcmp m temp1 temp2 0 = 0"
| "sbi_memcmp m temp1 temp2 (Suc count) =
     (if m temp1 = m temp2 then sbi_memcmp m (temp1 + 1) (temp2 + 1) count
      else uint (m temp1) - uint (m temp2))"

fun sbi_memchr :: "memory \<Rightarrow> u64 \<Rightarrow> u8 \<Rightarrow> nat \<Rightarrow> u64 option" where
  "sbi_memchr m temp c 0 = None"
| "sbi_memchr m temp c (Suc count) = (if c = m temp then Some temp else sbi_memchr m (temp + 1) c count)"

section \<open>What they do\<close>

text \<open>
  The forward loop copies faithfully when no byte it still has to read lies in the part of
  the destination already written, the backward loop in the mirrored case.
\<close>

lemma memcpy_forward:
  assumes "n < 2 ^ 64" and "n \<le> unat (dst - src)"
  shows "sbi_memcpy_loop m dst src n x = (if unat (x - dst) < n then m (src + (x - dst)) else m x)"
  using assms
proof (induction n arbitrary: m dst src)
  case (Suc n)
  let ?m = "m(dst := m src)"
  have IH: "sbi_memcpy_loop ?m (dst + 1) (src + 1) n x =
      (if unat (x - (dst + 1)) < n then ?m ((src + 1) + (x - (dst + 1))) else ?m x)"
    using Suc.prems by (intro Suc.IH) (simp_all add: algebra_simps)
  have shift: "(src + 1) + (x - (dst + 1)) = src + (x - dst)" by (simp add: algebra_simps)
  have nodst: "src + (x - dst) \<noteq> dst" if "unat (x - dst) < Suc n"
  proof
    assume "src + (x - dst) = dst"
    then have "dst - src = x - dst" by (simp add: algebra_simps)
    with that Suc.prems(2) show False by simp
  qed
  show ?case
  proof (cases "x = dst")
    case True
    then show ?thesis using IH Suc.prems by (simp add: shift)
  next
    case False
    then have "unat (x - dst) = Suc (unat (x - (dst + 1)))" by (rule unat_diff_Suc)
    with IH nodst False show ?thesis by (simp only: sbi_memcpy_loop.simps shift) simp
  qed
qed simp

lemma memmove_backward:
  assumes "n < 2 ^ 64" and "n \<le> unat (src - dst)"
  shows "sbi_memmove_down m dst src n x = (if unat (dst - x) < n then m (src - (dst - x)) else m x)"
  using assms
proof (induction n arbitrary: m dst src)
  case (Suc n)
  let ?m = "m(dst := m src)"
  have IH: "sbi_memmove_down ?m (dst - 1) (src - 1) n x =
      (if unat (dst - 1 - x) < n then ?m ((src - 1) - (dst - 1 - x)) else ?m x)"
    using Suc.prems by (intro Suc.IH) (simp_all add: algebra_simps)
  have shift: "(src - 1) - (dst - 1 - x) = src - (dst - x)" by (simp add: algebra_simps)
  have nodst: "src - (dst - x) \<noteq> dst" if "unat (dst - x) < Suc n"
  proof
    assume "src - (dst - x) = dst"
    then have "src - dst = dst - x" by (simp add: algebra_simps)
    with that Suc.prems(2) show False by simp
  qed
  show ?case
  proof (cases "x = dst")
    case True
    then show ?thesis using IH Suc.prems by (simp add: shift)
  next
    case False
    then have "unat (dst - x) = Suc (unat (dst - (x + 1)))" by (intro unat_diff_Suc) simp
    moreover have e: "dst - 1 - x = dst - (x + 1)" by (simp add: algebra_simps)
    ultimately show ?thesis using IH [unfolded shift, unfolded e] nodst False by auto
  qed
qed simp

text \<open>
  C30: \<^verbatim>\<open>sbi_memmove\<close> copies the original bytes of the source to the destination for
  every pair of ranges that do not wrap around the address space, overlapping or not, and
  changes no other byte.
\<close>

theorem sbi_memmove_copies:
  assumes "unat dest + unat n \<le> 2 ^ 64" and "unat src + unat n \<le> 2 ^ 64"
  shows "sbi_memmove m dest src n x = (if unat (x - dest) < unat n then m (src + (x - dest)) else m x)"
proof -
  have n: "unat n < 2 ^ 64" using unsigned_less [of n] by simp
  consider "src = dest" | "dest < src" | "src < dest" by (metis less_linear)
  then show ?thesis
  proof cases
    case 1
    then show ?thesis by (simp add: sbi_memmove_def)
  next
    case 2
    then have "unat n \<le> unat (dest - src)" using assms by (simp add: word_less_nat_alt unat_sub_if')
    with memcpy_forward [OF n this] 2 show ?thesis by (simp add: sbi_memmove_def)
  next
    case 3
    then have "unat n \<le> unat (src - dest)" using assms by (simp add: word_less_nat_alt unat_sub_if')
    then have "unat n \<le> unat ((src + n - 1) - (dest + n - 1))" by (simp add: algebra_simps)
    note b = memmove_backward [OF n this, of m x]
    have e: "(src + n - 1) - ((dest + n - 1) - x) = src + (x - dest)" by (simp add: algebra_simps)
    have "unat ((dest + n - 1) - x) < unat n \<longleftrightarrow> unat (x - dest) < unat n"
    proof (cases "n = 0")
      case False
      define y where "y = x - dest"
      have "(dest + n - 1) - x = (n - 1) - y" by (simp add: y_def algebra_simps)
      moreover have "unat ((n - 1) - y) < unat n \<longleftrightarrow> unat y < unat n"
        using False unat_less64 [of y] n by (auto simp: unat_sub_if' unat_minus_one unat_gt_0 split: if_splits)
      ultimately show ?thesis by (simp only: y_def)
    qed simp
    with b e 3 show ?thesis by (auto simp: sbi_memmove_def)
  qed
qed

text \<open>An overlapping copy upwards by one byte.\<close>

theorem sbi_memmove_copies_witness:
  "sbi_memmove (\<lambda>a. ucast a) 0x1001 0x1000 4 0x1003 = 2"
  using sbi_memmove_copies [of "0x1001" 4 "0x1000" "\<lambda>a. ucast a" "0x1003"] by simp

text \<open>The comparison, search and length routines against their specifications.\<close>

lemma sbi_memcmp_zero_iff:
  "sbi_memcmp m a b n = 0 \<longleftrightarrow> (\<forall>k < n. m (a + word_of_nat k) = m (b + word_of_nat k))"
proof (induction n arbitrary: a b)
  case (Suc n)
  have "(\<forall>k < Suc n. m (a + word_of_nat k) = m (b + word_of_nat k)) \<longleftrightarrow>
      m a = m b \<and> (\<forall>k < n. m (a + 1 + word_of_nat k) = m (b + 1 + word_of_nat k))"
    by (simp add: All_less_Suc2 add.assoc)
  with Suc show ?case by (simp add: word_uint_eq_iff)
qed simp

lemma sbi_memchr_first:
  "sbi_memchr m a c n = Some p \<Longrightarrow>
   \<exists>k < n. p = a + word_of_nat k \<and> m p = c \<and> (\<forall>j < k. m (a + word_of_nat j) \<noteq> c)"
proof (induction n arbitrary: a)
  case (Suc n)
  show ?case
  proof (cases "m a = c")
    case True
    with Suc.prems show ?thesis by (intro exI [of _ 0]) auto
  next
    case False
    with Suc.prems have "sbi_memchr m (a + 1) c n = Some p" by (auto split: if_splits)
    from Suc.IH [OF this] obtain k where "k < n" "p = a + 1 + word_of_nat k" "m p = c"
      "\<forall>j < k. m (a + 1 + word_of_nat j) \<noteq> c" by blast
    with False show ?thesis by (intro exI [of _ "Suc k"]) (auto simp: All_less_Suc2 add.assoc)
  qed
qed simp

lemma sbi_strlen_loop_string: "string_at m a bs \<Longrightarrow> sbi_strlen_loop m a r = Some (r + word_of_nat (length bs))"
proof (induction bs arbitrary: a r)
  case Nil
  then show ?case by (subst sbi_strlen_loop.simps) simp
next
  case (Cons b bs)
  then show ?case by (subst sbi_strlen_loop.simps) (simp add: algebra_simps)
qed

lemma sbi_strcpy_writes:
  assumes "string_at m src bs" and "length bs < 2 ^ 64"
    and "\<And>k. k \<le> length bs \<Longrightarrow> length bs \<le> unat (src + word_of_nat k - dest)"
  shows "\<exists>m'. sbi_strcpy m dest src = Some m' \<and>
    (\<forall>x. m' x = (if unat (x - dest) < length bs then bs ! unat (x - dest) else m x))"
  using assms
proof (induction bs arbitrary: m dest src)
  case Nil
  then show ?case by (subst sbi_strcpy.simps) simp
next
  case (Cons b bs)
  let ?m = "m(dest := b)"
  have apart: "src + word_of_nat k \<noteq> dest" if "k \<le> Suc (length bs)" for k
    using Cons.prems(3) [of k] that by auto
  have far: "length bs \<le> unat (src + 1 + word_of_nat k - (dest + 1))" if "k \<le> length bs" for k
    using Cons.prems(3) [of k] that by (simp add: algebra_simps)
  have sa: "string_at ?m (src + 1) bs"
  proof (rule string_at_cong [THEN iffD1, rotated])
    show "string_at m (src + 1) bs" using Cons.prems(1) by simp
  next
    fix k assume "k \<le> length bs"
    then show "m (src + 1 + word_of_nat k) = ?m (src + 1 + word_of_nat k)"
      using apart [of "Suc k"] by (simp add: algebra_simps)
  qed
  have "\<exists>m'. sbi_strcpy ?m (dest + 1) (src + 1) = Some m' \<and>
      (\<forall>x. m' x = (if unat (x - (dest + 1)) < length bs then bs ! unat (x - (dest + 1)) else ?m x))"
    by (rule Cons.IH [OF sa _ far]) (use Cons.prems(2) in auto)
  then obtain m' where m': "sbi_strcpy ?m (dest + 1) (src + 1) = Some m'"
      "\<forall>x. m' x = (if unat (x - (dest + 1)) < length bs then bs ! unat (x - (dest + 1)) else ?m x)" by blast
  have "m' x = (if unat (x - dest) < length (b # bs) then (b # bs) ! unat (x - dest) else m x)" for x
  proof (cases "x = dest")
    case True
    have "unat (- 1 :: u64) \<ge> length bs" using Cons.prems(2) by simp
    then show ?thesis using m'(2) True by simp
  next
    case False
    then show ?thesis using m'(2) unat_diff_Suc [OF False] by simp
  qed
  moreover have "sbi_strcpy m dest src = sbi_strcpy ?m (dest + 1) (src + 1)"
    using Cons.prems(1) by (subst sbi_strcpy.simps) auto
  ultimately show ?case using m'(1) by metis
qed

text \<open>
  C31: \<^verbatim>\<open>sbi_strcpy\<close> copies the bytes before the terminator only. The copy ends where
  the string does, but the byte after it keeps its old value: the destination holds the
  same string afterwards exactly when that byte happened to be zero.
\<close>

theorem sbi_strcpy_unterminated:
  assumes "string_at m src bs" and "length bs < 2 ^ 64"
    and "\<And>k. k \<le> length bs \<Longrightarrow> length bs \<le> unat (src + word_of_nat k - dest)"
  shows "\<exists>m'. sbi_strcpy m dest src = Some m' \<and>
    (\<forall>x. m' x = (if unat (x - dest) < length bs then bs ! unat (x - dest) else m x)) \<and>
    (string_at m' dest bs \<longleftrightarrow> m (dest + word_of_nat (length bs)) = 0)"
proof -
  from sbi_strcpy_writes [OF assms] obtain m' where m': "sbi_strcpy m dest src = Some m'"
    "\<forall>x. m' x = (if unat (x - dest) < length bs then bs ! unat (x - dest) else m x)" by blast
  have k: "unat (dest + word_of_nat k - dest) = k" if "k \<le> length bs" for k
    using that assms(2) by (simp add: unat_word_of_nat64)
  have fin: "m' (dest + word_of_nat (length bs)) = m (dest + word_of_nat (length bs))" using m'(2) k [OF order_refl] by simp
  have "m' (dest + word_of_nat i) = bs ! i \<and> bs ! i \<noteq> 0" if "i < length bs" for i
    using m'(2) that k [of i] string_at_nth [OF assms(1) that] by simp
  then have "string_at m' dest bs" if "m (dest + word_of_nat (length bs)) = 0"
    using that fin by (intro string_atI) auto
  moreover have "m (dest + word_of_nat (length bs)) = 0" if "string_at m' dest bs"
    using string_at_end [OF that] fin by simp
  ultimately show ?thesis using m' by blast
qed

theorem sbi_strcpy_unterminated_witness:
  "\<exists>m'. sbi_strcpy (\<lambda>a. if a = 0 then 0x61 else if a = 17 then 0x62 else 0) 16 0 = Some m' \<and>
     m' 16 = 0x61 \<and> m' 17 = 0x62 \<and> \<not> string_at m' 16 [0x61]"
proof -
  let ?m = "(\<lambda>a. if a = 0 then 0x61 else if a = 17 then 0x62 else 0) :: memory"
  have far: "length [0x61 :: u8] \<le> unat (0 + word_of_nat k - 16 :: u64)" if "k \<le> length [0x61 :: u8]" for k
  proof -
    have "k = 0 \<or> k = 1" using that by auto
    then show ?thesis by auto
  qed
  from sbi_strcpy_unterminated [of ?m 0 "[0x61]" 16, OF _ _ far]
  obtain m' where m': "sbi_strcpy ?m 16 0 = Some m'"
    "\<forall>x. m' x = (if unat (x - 16) < length [0x61 :: u8] then [0x61] ! unat (x - 16) else ?m x)"
    "string_at m' 16 [0x61] \<longleftrightarrow> ?m (16 + word_of_nat (length [0x61 :: u8])) = 0" by auto
  from m'(2) have "m' 16 = 0x61" "m' 17 = 0x62" by simp_all
  with m'(1,3) show ?thesis by auto
qed

end
