(* ===== verification/SbiFifo.thy ===== *)
theory SbiFifo
  imports SbiString
begin

text \<open>
  The bounded ring buffer of the firmware, \<^verbatim>\<open>opensbi-1.2/lib/sbi/sbi_fifo.c\<close>, over the
  byte memory. A \<^verbatim>\<open>NULL\<close> pointer to the queue is \<open>None\<close>. Every operation holds the
  queue's lock from its first to its last access, so one operation is one step here. The
  theory ends with the contract of a bounded queue, a locale, and its interpretation.
\<close>

section \<open>Error codes\<close>

definition SBI_OK :: int where "SBI_OK = 0"
definition SBI_EFAIL :: int where "SBI_EFAIL = -1"
definition SBI_ENOTSUPP :: int where "SBI_ENOTSUPP = -2"
definition SBI_EINVAL :: int where "SBI_EINVAL = -3"
definition SBI_EDENIED :: int where "SBI_EDENIED = -4"
definition SBI_EINVALID_ADDR :: int where "SBI_EINVALID_ADDR = -5"
definition SBI_EALREADY :: int where "SBI_EALREADY = -6"
definition SBI_ENODEV :: int where "SBI_ENODEV = -1000"
definition SBI_ENOSPC :: int where "SBI_ENOSPC = -1005"
definition SBI_ENOMEM :: int where "SBI_ENOMEM = -1006"
definition SBI_ETRAP :: int where "SBI_ETRAP = -1007"
definition SBI_ENOENT :: int where "SBI_ENOENT = -1009"

lemmas sbi_error_defs = SBI_OK_def SBI_EFAIL_def SBI_ENOTSUPP_def SBI_EINVAL_def SBI_EDENIED_def
  SBI_EINVALID_ADDR_def SBI_EALREADY_def SBI_ENODEV_def SBI_ENOSPC_def SBI_ENOMEM_def SBI_ETRAP_def SBI_ENOENT_def

section \<open>The queue\<close>

record sbi_fifo =
  queue :: u64
  entry_size :: u16
  num_entries :: u16
  avail :: u16
  tail :: u16

datatype sbi_fifo_inplace_update_types = SBI_FIFO_SKIP | SBI_FIFO_UPDATED | SBI_FIFO_UNCHANGED

definition sbi_fifo_init :: "u64 \<Rightarrow> u16 \<Rightarrow> u16 \<Rightarrow> memory \<Rightarrow> sbi_fifo \<times> memory" where
  "sbi_fifo_init queue_mem entries esize m =
     (\<lparr>queue = queue_mem, entry_size = esize, num_entries = entries, avail = 0, tail = 0\<rparr>,
      sbi_memset m queue_mem 0 (ucast entries * ucast esize))"

definition fifo_is_full :: "sbi_fifo \<Rightarrow> bool" where
  "fifo_is_full f \<longleftrightarrow> avail f = num_entries f"

definition fifo_is_empty :: "sbi_fifo \<Rightarrow> bool" where
  "fifo_is_empty f \<longleftrightarrow> avail f = 0"

definition sbi_fifo_avail :: "sbi_fifo option \<Rightarrow> u16" where
  "sbi_fifo_avail fifo = (case fifo of None \<Rightarrow> 0 | Some f \<Rightarrow> avail f)"

definition sbi_fifo_is_full :: "sbi_fifo option \<Rightarrow> int" where
  "sbi_fifo_is_full fifo = (case fifo of None \<Rightarrow> SBI_EINVAL | Some f \<Rightarrow> if fifo_is_full f then 1 else 0)"

definition sbi_fifo_is_empty :: "sbi_fifo option \<Rightarrow> int" where
  "sbi_fifo_is_empty fifo = (case fifo of None \<Rightarrow> SBI_EINVAL | Some f \<Rightarrow> if fifo_is_empty f then 1 else 0)"

definition fifo_enqueue :: "sbi_fifo \<Rightarrow> u64 \<Rightarrow> memory \<Rightarrow> sbi_fifo \<times> memory" where
  "fifo_enqueue f data m =
     (let head = (ucast (tail f) :: u32) + ucast (avail f);
          head = (if head \<ge> ucast (num_entries f) then head - ucast (num_entries f) else head)
      in (f\<lparr>avail := avail f + 1\<rparr>,
          sbi_memcpy m (queue f + ucast (head * ucast (entry_size f))) data (ucast (entry_size f))))"

definition sbi_fifo_reset :: "sbi_fifo option \<Rightarrow> memory \<Rightarrow> bool \<times> sbi_fifo option \<times> memory" where
  "sbi_fifo_reset fifo m =
     (case fifo of
        None \<Rightarrow> (False, None, m)
      | Some f \<Rightarrow>
          (True, Some (f\<lparr>avail := 0, tail := 0\<rparr>),
           sbi_memset m (queue f) 0 (ucast (num_entries f) * ucast (entry_size f))))"

text \<open>
  The in-place update calls \<open>fptr\<close>, a parameter, on each entry from the oldest on, until it
  answers skip or updated. The callback reads and writes memory.
\<close>

fun inplace_loop :: "(u64 \<Rightarrow> u64 \<Rightarrow> memory \<Rightarrow> sbi_fifo_inplace_update_types \<times> memory) \<Rightarrow> sbi_fifo \<Rightarrow> u64 \<Rightarrow>
    nat \<Rightarrow> nat \<Rightarrow> sbi_fifo_inplace_update_types \<Rightarrow> memory \<Rightarrow> sbi_fifo_inplace_update_types \<times> memory" where
  "inplace_loop fptr f inp i 0 ret m = (ret, m)"
| "inplace_loop fptr f inp i (Suc n) ret m =
     (let index = unat (tail f) + i;
          index = (if index \<ge> unat (num_entries f) then index - unat (num_entries f) else index);
          entry = queue f + ucast ((word_of_nat index :: u32) * ucast (entry_size f));
          (ret, m) = fptr inp entry m
      in if ret = SBI_FIFO_SKIP \<or> ret = SBI_FIFO_UPDATED then (ret, m)
         else inplace_loop fptr f inp (i + 1) n ret m)"

definition sbi_fifo_inplace_update ::
    "sbi_fifo option \<Rightarrow> u64 \<Rightarrow> (u64 \<Rightarrow> u64 \<Rightarrow> memory \<Rightarrow> sbi_fifo_inplace_update_types \<times> memory) \<Rightarrow> memory \<Rightarrow>
     sbi_fifo_inplace_update_types \<times> memory" where
  "sbi_fifo_inplace_update fifo inp fptr m =
     (case fifo of
        None \<Rightarrow> (SBI_FIFO_UNCHANGED, m)
      | Some f \<Rightarrow>
          if inp = 0 then (SBI_FIFO_UNCHANGED, m)
          else if fifo_is_empty f then (SBI_FIFO_UNCHANGED, m)
          else inplace_loop fptr f inp 0 (unat (avail f)) SBI_FIFO_UNCHANGED m)"

definition sbi_fifo_enqueue :: "sbi_fifo option \<Rightarrow> u64 \<Rightarrow> memory \<Rightarrow> int \<times> sbi_fifo option \<times> memory" where
  "sbi_fifo_enqueue fifo data m =
     (case fifo of
        None \<Rightarrow> (SBI_EINVAL, None, m)
      | Some f \<Rightarrow>
          if data = 0 then (SBI_EINVAL, Some f, m)
          else if fifo_is_full f then (SBI_ENOSPC, Some f, m)
          else case fifo_enqueue f data m of (f, m) \<Rightarrow> (0, Some f, m))"

definition sbi_fifo_dequeue :: "sbi_fifo option \<Rightarrow> u64 \<Rightarrow> memory \<Rightarrow> int \<times> sbi_fifo option \<times> memory" where
  "sbi_fifo_dequeue fifo data m =
     (case fifo of
        None \<Rightarrow> (SBI_EINVAL, None, m)
      | Some f \<Rightarrow>
          if data = 0 then (SBI_EINVAL, Some f, m)
          else if fifo_is_empty f then (SBI_ENOENT, Some f, m)
          else
            let m = sbi_memcpy m data (queue f + ucast ((ucast (tail f) :: u32) * ucast (entry_size f))) (ucast (entry_size f));
                f = f\<lparr>avail := avail f - 1\<rparr>;
                f = f\<lparr>tail := tail f + 1\<rparr>;
                f = (if tail f \<ge> num_entries f then f\<lparr>tail := 0\<rparr> else f)
            in (0, Some f, m))"

section \<open>Byte ranges\<close>

definition bytes_at :: "memory \<Rightarrow> u64 \<Rightarrow> nat \<Rightarrow> u8 list" where
  "bytes_at m a n = map (\<lambda>k. m (a + word_of_nat k)) [0..<n]"

definition apart :: "u64 \<Rightarrow> nat \<Rightarrow> u64 \<Rightarrow> nat \<Rightarrow> bool" where
  "apart a n b l \<longleftrightarrow> (\<forall>i < n. \<forall>j < l. a + word_of_nat i \<noteq> b + word_of_nat j)"

lemma apartD: "apart a n b l \<Longrightarrow> i < n \<Longrightarrow> j < l \<Longrightarrow> a + word_of_nat i = b + word_of_nat j \<Longrightarrow> False"
  by (simp add: apart_def)

lemma apart_sym: "apart a n b l \<Longrightarrow> apart b l a n"
  unfolding apart_def by fastforce

lemma apart_sub:
  assumes "apart a n b l" and "d + n' \<le> n"
  shows "apart (a + word_of_nat d) n' b l"
  unfolding apart_def
proof (intro allI impI notI)
  fix i j
  assume ij: "i < n'" "j < l" and e: "a + word_of_nat d + word_of_nat i = b + word_of_nat j"
  have "a + word_of_nat (d + i) = b + word_of_nat j" using e by (simp add: add.assoc)
  then show False using assms(2) ij by (intro apartD [OF assms(1), of "d + i" j]) auto
qed

lemma apart_far:
  assumes "apart a n b l" and "0 < n"
  shows "l \<le> unat (a - b)"
proof (rule ccontr)
  assume "\<not> l \<le> unat (a - b)"
  then show False using assms(2) by (intro apartD [OF assms(1), of 0 "unat (a - b)"]) auto
qed

lemma memcpy_bytes:
  assumes "apart dst (unat n) src (unat n)"
  shows "bytes_at (sbi_memcpy m dst src n) dst (unat n) = bytes_at m src (unat n)"
    and "apart dst (unat n) b l \<Longrightarrow> bytes_at (sbi_memcpy m dst src n) b l = bytes_at m b l"
proof -
  have n: "unat n < 2 ^ 64" using unsigned_less [of n] by simp
  have cp: "sbi_memcpy m dst src n x = (if unat (x - dst) < unat n then m (src + (x - dst)) else m x)" for x
    using memcpy_forward [OF n, of dst src] apart_far [OF assms] by (cases "n = 0") (auto simp: sbi_memcpy_def unat_gt_0)
  show "bytes_at (sbi_memcpy m dst src n) dst (unat n) = bytes_at m src (unat n)"
    using n by (simp add: bytes_at_def cp unat_word_of_nat64)
  show "bytes_at (sbi_memcpy m dst src n) b l = bytes_at m b l" if ap: "apart dst (unat n) b l"
  proof -
    have "sbi_memcpy m dst src n (b + word_of_nat k) = m (b + word_of_nat k)" if "k < l" for k
    proof -
      have "\<not> unat (b + word_of_nat k - dst) < unat n"
      proof
        assume "unat (b + word_of_nat k - dst) < unat n"
        then show False by (rule apartD [OF ap _ that]) simp
      qed
      then show ?thesis by (simp add: cp)
    qed
    then show ?thesis by (simp add: bytes_at_def)
  qed
qed

section \<open>The queue as a list of entries\<close>

definition slot :: "sbi_fifo \<Rightarrow> nat \<Rightarrow> u64" where
  "slot f i = queue f + word_of_nat (i * unat (entry_size f))"

definition entries :: "sbi_fifo \<Rightarrow> memory \<Rightarrow> u8 list list" where
  "entries f m =
     map (\<lambda>k. bytes_at m (slot f ((unat (tail f) + k) mod unat (num_entries f))) (unat (entry_size f))) [0..<unat (avail f)]"

text \<open>
  The invariant: indices in range, and the caller's buffer at \<open>buf\<close> lies outside the area of
  the queue.
\<close>

definition fifo_wf :: "u64 \<Rightarrow> sbi_fifo \<Rightarrow> bool" where
  "fifo_wf buf f \<longleftrightarrow> tail f < num_entries f \<and> avail f \<le> num_entries f \<and> 0 < entry_size f \<and> buf \<noteq> 0 \<and>
     apart (queue f) (unat (num_entries f) * unat (entry_size f)) buf (unat (entry_size f))"

lemma unat_u16: "unat (x :: u16) < 65536"
  using unsigned_less [of x] by simp

lemma mult_less_u32: "i < 65536 \<Longrightarrow> (j :: nat) < 65536 \<Longrightarrow> i * j < 4294967296"
  using mult_strict_mono [of i 65536 j 65536] by simp

lemma slot_address:
  assumes "i < 65536"
  shows "queue f + ucast ((word_of_nat i :: u32) * ucast (entry_size f)) = slot f i"
proof -
  have "unat ((word_of_nat i :: u32) * ucast (entry_size f)) = i * unat (entry_size f)"
    using assms mult_less_u32 [OF assms unat_u16, of "entry_size f"] unat_u16 [of "entry_size f"]
    by (simp add: unat_mult_lem [THEN iffD1] unat_of_nat unsigned_ucast_eq take_bit_nat_eq_self)
  then have "(ucast ((word_of_nat i :: u32) * ucast (entry_size f)) :: u64) = word_of_nat (i * unat (entry_size f))"
    by (metis of_nat_unat)
  then show ?thesis by (simp add: slot_def)
qed

lemma slots_apart:
  assumes "i < unat (num_entries f)" and "j < unat (num_entries f)" and "i \<noteq> j"
  shows "apart (slot f i) (unat (entry_size f)) (slot f j) (unat (entry_size f))"
  unfolding apart_def
proof (intro allI impI notI)
  let ?e = "unat (entry_size f)"
  fix a b
  assume ab: "a < ?e" "b < ?e" and e: "slot f i + word_of_nat a = slot f j + word_of_nat b"
  have small: "k * ?e + c < 18446744073709551616" if "k < unat (num_entries f)" "c < ?e" for k c
  proof -
    have "k * ?e < 4294967296" using that unat_u16 [of "num_entries f"] unat_u16 [of "entry_size f"]
      by (intro mult_less_u32) auto
    then show ?thesis using that(2) unat_u16 [of "entry_size f"] by linarith
  qed
  have "(word_of_nat (i * ?e + a) :: u64) = word_of_nat (j * ?e + b)"
    using e by (simp add: slot_def add.assoc)
  then have eq: "i * ?e + a = j * ?e + b"
    using small [OF assms(1) ab(1)] small [OF assms(2) ab(2)] by (metis unat_word_of_nat64)
  then have "(i * ?e + a) div ?e = (j * ?e + b) div ?e" by simp
  then show False using ab assms(3) by simp
qed

lemma slot_buf:
  assumes "fifo_wf buf f" and "i < unat (num_entries f)"
  shows "apart (slot f i) (unat (entry_size f)) buf (unat (entry_size f))"
proof -
  have "i * unat (entry_size f) + unat (entry_size f) \<le> unat (num_entries f) * unat (entry_size f)"
    using assms(2) by (metis Suc_leI add.commute mult_Suc mult_le_mono1)
  then show ?thesis unfolding slot_def using assms(1) by (intro apart_sub) (simp_all add: fifo_wf_def)
qed

lemma fifo_enqueue_head:
  assumes "fifo_wf buf f" and "\<not> fifo_is_full f"
  shows "fifo_enqueue f d m = (f\<lparr>avail := avail f + 1\<rparr>,
    sbi_memcpy m (slot f ((unat (tail f) + unat (avail f)) mod unat (num_entries f))) d (ucast (entry_size f)))"
proof -
  let ?t = "unat (tail f)" and ?a = "unat (avail f)" and ?n = "unat (num_entries f)"
  have b: "?t < ?n" "?a < ?n" "?n < 65536"
    using assms unat_u16 [of "num_entries f"]
    by (auto simp: fifo_wf_def fifo_is_full_def word_less_nat_alt word_le_nat_alt word_unat_eq_iff)
  let ?h = "(ucast (tail f) :: u32) + ucast (avail f)"
  have h: "unat ?h = ?t + ?a"
    using b by (simp add: unat_plus_if' unsigned_ucast_eq take_bit_nat_eq_self)
  have n: "unat (ucast (num_entries f) :: u32) = ?n"
    using b by (simp add: unsigned_ucast_eq take_bit_nat_eq_self)
  have "(if ?h \<ge> ucast (num_entries f) then ?h - ucast (num_entries f) else ?h) = (word_of_nat ((?t + ?a) mod ?n) :: u32)"
  proof (cases "?n \<le> ?t + ?a")
    case True
    then have "(?t + ?a) mod ?n = ?t + ?a - ?n" using b by (simp add: le_mod_geq)
    moreover have "unat (?h - ucast (num_entries f)) = ?t + ?a - ?n" using True h n by (simp add: unat_sub word_le_nat_alt)
    ultimately show ?thesis using True h n
      by (simp only: word_le_nat_alt if_True) (metis of_nat_unat ucast_id)
  next
    case False
    then have "(?t + ?a) mod ?n = ?t + ?a" by simp
    then show ?thesis using False h n by (simp add: word_le_nat_alt)
  qed
  then show ?thesis
    using b slot_address [of "(?t + ?a) mod ?n" f] by (simp add: fifo_enqueue_def Let_def less_trans [OF mod_less_divisor])
qed

lemma ring_distinct:
  assumes "k < a" and "a < (n :: nat)"
  shows "(t + k) mod n \<noteq> (t + a) mod n"
proof
  assume "(t + k) mod n = (t + a) mod n"
  then have "n dvd (t + a) - (t + k)" using assms by (metis mod_eq_dvd_iff_nat add_le_cancel_left less_imp_le_nat)
  then show False using assms by (auto dest: dvd_imp_le)
qed

lemma fifo_bounds:
  assumes "fifo_wf buf f"
  shows "unat (tail f) < unat (num_entries f)" "unat (avail f) \<le> unat (num_entries f)" "unat (num_entries f) < 65536"
    "0 < unat (num_entries f)" "0 < unat (entry_size f)" "unat (ucast (entry_size f) :: u64) = unat (entry_size f)"
  using assms unat_u16 [of "num_entries f"] unat_u16 [of "entry_size f"]
  by (auto simp: fifo_wf_def word_less_nat_alt word_le_nat_alt unsigned_ucast_eq take_bit_nat_eq_self)

text \<open>Enqueueing the entry in the buffer appends it.\<close>

lemma enqueue_entries:
  assumes wf: "fifo_wf buf f" and nf: "\<not> fifo_is_full f" and e: "fifo_enqueue f buf m = (f', m')"
  shows "fifo_wf buf f'" and "entries f' m' = entries f m @ [bytes_at m buf (unat (entry_size f))]"
    and "num_entries f' = num_entries f" and "entry_size f' = entry_size f"
proof -
  let ?t = "unat (tail f)" and ?a = "unat (avail f)" and ?n = "unat (num_entries f)" and ?e = "unat (entry_size f)"
  note b = fifo_bounds [OF wf]
  have a: "?a < ?n" using nf b(2) by (simp add: fifo_is_full_def word_unat_eq_iff)
  have a': "unat (avail f + 1) = Suc ?a" using a b(3) by (simp add: unat_plus_if')
  have f': "f' = f\<lparr>avail := avail f + 1\<rparr>" and m': "m' = sbi_memcpy m (slot f ((?t + ?a) mod ?n)) buf (ucast (entry_size f))"
    using e fifo_enqueue_head [OF wf nf] by auto
  show "fifo_wf buf f'" using wf a a' by (simp add: fifo_wf_def f' word_le_nat_alt)
  let ?h = "(?t + ?a) mod ?n"
  have h: "?h < ?n" using b(4) by simp
  have cp: "apart (slot f ?h) (unat (ucast (entry_size f) :: u64)) buf (unat (ucast (entry_size f) :: u64))"
    using slot_buf [OF wf h] b(6) by simp
  have old: "bytes_at m' (slot f ((?t + k) mod ?n)) ?e = bytes_at m (slot f ((?t + k) mod ?n)) ?e" if "k < ?a" for k
    unfolding m' using slots_apart [of ?h f "(?t + k) mod ?n"] ring_distinct [OF that a, of ?t] h b(4,6)
    by (intro memcpy_bytes(2) [OF cp]) auto
  have "bytes_at m' (slot f ?h) ?e = bytes_at m buf ?e" unfolding m' using memcpy_bytes(1) [OF cp] b(6) by simp
  with old show "entries f' m' = entries f m @ [bytes_at m buf ?e]"
    by (simp add: entries_def f' a' slot_def)
qed (use e in \<open>auto simp: fifo_enqueue_head [OF wf nf]\<close>)

text \<open>Dequeueing copies the oldest entry into the buffer and removes it.\<close>

lemma dequeue_entries:
  assumes wf: "fifo_wf buf f" and ne: "\<not> fifo_is_empty f" and d: "sbi_fifo_dequeue (Some f) buf m = (r, Some f', m')"
  shows "r = 0" and "fifo_wf buf f'" and "entries f m = bytes_at m' buf (unat (entry_size f)) # entries f' m'"
    and "num_entries f' = num_entries f" and "entry_size f' = entry_size f"
proof -
  let ?t = "unat (tail f)" and ?a = "unat (avail f)" and ?n = "unat (num_entries f)" and ?e = "unat (entry_size f)"
  note b = fifo_bounds [OF wf]
  have a: "0 < ?a" using ne by (simp add: fifo_is_empty_def unat_gt_0)
  have a': "unat (avail f - 1) = ?a - 1" using a by (simp add: unat_minus_one unat_gt_0)
  have t1: "unat (tail f + 1) = Suc ?t" using b(1,3) by (simp add: unat_plus_if')
  define g where "g = f\<lparr>avail := avail f - 1, tail := (if tail f + 1 \<ge> num_entries f then 0 else tail f + 1)\<rparr>"
  have buf: "buf \<noteq> 0" using wf by (simp add: fifo_wf_def)
  have f': "f' = g" and r: "r = 0"
    and m': "m' = sbi_memcpy m buf (queue f + ucast ((ucast (tail f) :: u32) * ucast (entry_size f))) (ucast (entry_size f))"
    using d ne buf by (auto simp: sbi_fifo_dequeue_def Let_def g_def split: if_splits)
  have m'': "m' = sbi_memcpy m buf (slot f ?t) (ucast (entry_size f))"
    unfolding m' using slot_address [of ?t f] b(1,3) by simp
  have tg: "unat (tail g) = (?t + 1) mod ?n"
    using b(1) t1 by (auto simp: g_def word_le_nat_alt le_less Suc_le_eq)
  have "apart (slot f ?t) (unat (ucast (entry_size f) :: u64)) buf (unat (ucast (entry_size f) :: u64))"
    using slot_buf [OF wf b(1)] b(6) by simp
  then have cp: "apart buf (unat (ucast (entry_size f) :: u64)) (slot f ?t) (unat (ucast (entry_size f) :: u64))" by (rule apart_sym)
  have old: "bytes_at m' (slot f i) ?e = bytes_at m (slot f i) ?e" if "i < ?n" for i
    unfolding m'' using apart_sym [OF slot_buf [OF wf that]] b(6) by (intro memcpy_bytes(2) [OF cp]) simp
  have new: "bytes_at m' buf ?e = bytes_at m (slot f ?t) ?e" unfolding m'' using memcpy_bytes(1) [OF cp] b(6) by simp
  have idx: "(unat (tail g) + k) mod ?n = (?t + Suc k) mod ?n" for k by (simp add: tg mod_simps)
  have up: "[0..<?a] = 0 # map Suc [0..<?a - 1]" using a by (simp add: map_Suc_upt upt_conv_Cons)
  have "entries f m = map (\<lambda>k. bytes_at m (slot f ((?t + k) mod ?n)) ?e) (0 # map Suc [0..<?a - 1])"
    unfolding entries_def up ..
  also have "\<dots> = bytes_at m (slot f ?t) ?e # map (\<lambda>k. bytes_at m (slot f ((?t + Suc k) mod ?n)) ?e) [0..<?a - 1]"
    using b(1) by simp
  also have "map (\<lambda>k. bytes_at m (slot f ((?t + Suc k) mod ?n)) ?e) [0..<?a - 1] = entries g m'"
    unfolding entries_def using old b(4) a' idx by (simp add: g_def slot_def)
  finally show "entries f m = bytes_at m' buf ?e # entries f' m'" by (simp add: new f')
  show "r = 0" by (rule r)
  show "fifo_wf buf f'"
    using wf b(2,4) a' tg by (auto simp: fifo_wf_def f' word_less_nat_alt word_le_nat_alt g_def split: if_splits)
  show "num_entries f' = num_entries f" "entry_size f' = entry_size f" by (simp_all add: f' g_def)
qed

section \<open>The contract of a bounded queue\<close>

datatype 'e queue_op = Put 'e | Get

fun queue_run :: "('e \<Rightarrow> 's \<Rightarrow> 's option) \<Rightarrow> ('s \<Rightarrow> ('e \<times> 's) option) \<Rightarrow> 'e queue_op list \<Rightarrow> 's \<Rightarrow> 'e list \<times> 's" where
  "queue_run put get [] s = ([], s)"
| "queue_run put get (Put x # ops) s = queue_run put get ops (case put x s of None \<Rightarrow> s | Some t \<Rightarrow> t)"
| "queue_run put get (Get # ops) s =
     (case get s of None \<Rightarrow> queue_run put get ops s
      | Some (x, t) \<Rightarrow> (case queue_run put get ops t of (out, u) \<Rightarrow> (x # out, u)))"

text \<open>The specification of a run: a list with at most \<open>n\<close> entries.\<close>

fun list_run :: "nat \<Rightarrow> 'e queue_op list \<Rightarrow> 'e list \<Rightarrow> 'e list \<times> 'e list" where
  "list_run n [] xs = ([], xs)"
| "list_run n (Put x # ops) xs = list_run n ops (if length xs < n then xs @ [x] else xs)"
| "list_run n (Get # ops) xs =
     (case xs of [] \<Rightarrow> list_run n ops [] | y # ys \<Rightarrow> (case list_run n ops ys of (out, zs) \<Rightarrow> (y # out, zs)))"

locale bounded_queue =
  fixes wf :: "'s \<Rightarrow> bool" and items :: "'s \<Rightarrow> 'e list" and cap :: "'s \<Rightarrow> nat" and fits :: "'s \<Rightarrow> 'e \<Rightarrow> bool"
    and put :: "'e \<Rightarrow> 's \<Rightarrow> 's option" and get :: "'s \<Rightarrow> ('e \<times> 's) option"
  assumes put_full: "wf s \<Longrightarrow> fits s x \<Longrightarrow> put x s = None \<longleftrightarrow> length (items s) = cap s"
    and put_items: "wf s \<Longrightarrow> fits s x \<Longrightarrow> put x s = Some t \<Longrightarrow>
      wf t \<and> items t = items s @ [x] \<and> cap t = cap s \<and> fits t = fits s"
    and get_empty: "wf s \<Longrightarrow> get s = None \<longleftrightarrow> items s = []"
    and get_items: "wf s \<Longrightarrow> get s = Some (x, t) \<Longrightarrow> wf t \<and> items s = x # items t \<and> cap t = cap s \<and> fits t = fits s"
    and items_cap: "wf s \<Longrightarrow> length (items s) \<le> cap s"
begin

lemma run_refines:
  assumes "wf s" and "\<And>x. Put x \<in> set ops \<Longrightarrow> fits s x"
  shows "fst (queue_run put get ops s) = fst (list_run (cap s) ops (items s)) \<and>
    items (snd (queue_run put get ops s)) = snd (list_run (cap s) ops (items s)) \<and> wf (snd (queue_run put get ops s))"
  using assms
proof (induction ops arbitrary: s)
  case (Cons op ops)
  show ?case
  proof (cases op)
    case (Put x)
    have fx: "fits s x" using Cons.prems(2) Put by simp
    show ?thesis
    proof (cases "put x s")
      case None
      then have "length (items s) = cap s" using put_full [OF Cons.prems(1) fx] by simp
      then show ?thesis using Cons None Put by simp
    next
      case (Some t)
      note t = put_items [OF Cons.prems(1) fx Some]
      have "length (items s) < cap s"
        using put_full [OF Cons.prems(1) fx] items_cap [OF Cons.prems(1)] Some by (auto simp: le_less)
      then show ?thesis using Cons.IH [of t] Cons.prems(2) t Some Put by simp
    qed
  next
    case Get
    show ?thesis
    proof (cases "get s")
      case None
      then show ?thesis using Cons Get get_empty [OF Cons.prems(1)] by simp
    next
      case (Some p)
      obtain x t where p: "p = (x, t)" by (cases p)
      note t = get_items [OF Cons.prems(1) Some [unfolded p]]
      show ?thesis using Cons.IH [of t] Cons.prems(2) t Some Get p by (simp add: case_prod_beta)
    qed
  qed
qed simp

end

text \<open>
  The operations of a client that keeps its entries in one buffer: write an entry into the
  buffer and enqueue it; dequeue into the buffer and read it.
\<close>

definition poke :: "memory \<Rightarrow> u64 \<Rightarrow> u8 list \<Rightarrow> memory" where
  "poke m a xs = (\<lambda>y. if unat (y - a) < length xs then xs ! unat (y - a) else m y)"

definition fifo_put :: "u64 \<Rightarrow> u8 list \<Rightarrow> sbi_fifo \<times> memory \<Rightarrow> (sbi_fifo \<times> memory) option" where
  "fifo_put buf x s =
     (case s of (f, m) \<Rightarrow>
        (case sbi_fifo_enqueue (Some f) buf (poke m buf x) of (r, f', m') \<Rightarrow>
           if r = 0 then map_option (\<lambda>f'. (f', m')) f' else None))"

definition fifo_get :: "u64 \<Rightarrow> sbi_fifo \<times> memory \<Rightarrow> (u8 list \<times> sbi_fifo \<times> memory) option" where
  "fifo_get buf s =
     (case s of (f, m) \<Rightarrow>
        (case sbi_fifo_dequeue (Some f) buf m of (r, f', m') \<Rightarrow>
           if r = 0 then map_option (\<lambda>f'. (bytes_at m' buf (unat (entry_size f)), f', m')) f' else None))"

lemma poke_bytes:
  assumes "length xs < 2 ^ 64"
  shows "bytes_at (poke m a xs) a (length xs) = xs"
    and "apart b l a (length xs) \<Longrightarrow> bytes_at (poke m a xs) b l = bytes_at m b l"
proof -
  show "bytes_at (poke m a xs) a (length xs) = xs"
    using assms by (intro nth_equalityI) (simp_all add: bytes_at_def poke_def unat_word_of_nat64)
  show "bytes_at (poke m a xs) b l = bytes_at m b l" if ap: "apart b l a (length xs)"
  proof -
    have "\<not> unat (b + word_of_nat k - a) < length xs" if "k < l" for k
    proof
      assume "unat (b + word_of_nat k - a) < length xs"
      then show False by (rule apartD [OF ap that]) simp
    qed
    then show ?thesis by (simp add: bytes_at_def poke_def)
  qed
qed

lemma entries_poke:
  assumes "fifo_wf buf f" and "length x = unat (entry_size f)"
  shows "entries f (poke m buf x) = entries f m"
proof -
  have l: "length x < 2 ^ 64" using assms(2) unat_u16 [of "entry_size f"] by simp
  have "(unat (tail f) + k) mod unat (num_entries f) < unat (num_entries f)" for k using fifo_bounds [OF assms(1)] by simp
  then show ?thesis unfolding entries_def using slot_buf [OF assms(1)] assms(2)
    by (simp add: poke_bytes(2) [OF l])
qed

lemma length_entries [simp]: "length (entries f m) = unat (avail f)"
  by (simp add: entries_def)

interpretation ring: bounded_queue "\<lambda>(f, m). fifo_wf buf f" "\<lambda>(f, m). entries f m" "\<lambda>(f, m). unat (num_entries f)"
  "\<lambda>(f, m) x. length x = unat (entry_size f)" "fifo_put buf" "fifo_get buf" for buf
proof (unfold_locales, goal_cases)
  case (1 s x)
  then show ?case
    by (cases s) (auto simp: fifo_put_def sbi_fifo_enqueue_def fifo_wf_def fifo_is_full_def word_unat_eq_iff
        sbi_error_defs split: prod.splits)
next
  case (2 s x t)
  obtain f m f' m' where s: "s = (f, m)" "t = (f', m')" by (metis surj_pair)
  have wf: "fifo_wf buf f" and x: "length x = unat (entry_size f)" using 2 by (simp_all add: s)
  have l: "length x < 2 ^ 64" using x unat_u16 [of "entry_size f"] by simp
  from 2(3) have nf: "\<not> fifo_is_full f" and e: "fifo_enqueue f buf (poke m buf x) = (f', m')"
    by (auto simp: s fifo_put_def sbi_fifo_enqueue_def sbi_error_defs split: if_splits prod.splits)
  show ?case using enqueue_entries [OF wf nf e] entries_poke [OF wf x] poke_bytes(1) [OF l] x by (auto simp: s)
next
  case (3 s)
  then show ?case
    by (cases s) (auto simp: fifo_get_def sbi_fifo_dequeue_def fifo_wf_def fifo_is_empty_def entries_def Let_def
        unat_gt_0 sbi_error_defs split: prod.splits)
next
  case (4 s x t)
  obtain f m f' m' where s: "s = (f, m)" "t = (f', m')" by (metis surj_pair)
  have wf: "fifo_wf buf f" using 4 by (simp add: s)
  from 4(2) have ne: "\<not> fifo_is_empty f" and d: "sbi_fifo_dequeue (Some f) buf m = (0, Some f', m')"
    and x: "x = bytes_at m' buf (unat (entry_size f))"
    by (auto simp: s fifo_get_def sbi_fifo_dequeue_def sbi_error_defs Let_def split: if_splits prod.splits)
  show ?case using dequeue_entries [OF wf ne d] x by (auto simp: s)
next
  case (5 s)
  then show ?case using fifo_bounds(2) by (cases s) auto
qed

text \<open>
  Updating in place: the callback sees the entries from the oldest to the newest one, until it
  has changed one or found one that makes the new entry needless.
\<close>

fun inplace_list :: "('e \<Rightarrow> sbi_fifo_inplace_update_types \<times> 'e) \<Rightarrow> 'e list \<Rightarrow> sbi_fifo_inplace_update_types \<times> 'e list" where
  "inplace_list g [] = (SBI_FIFO_UNCHANGED, [])"
| "inplace_list g (x # xs) =
     (case g x of (ret, y) \<Rightarrow>
        if ret = SBI_FIFO_UNCHANGED then (case inplace_list g xs of (ret, ys) \<Rightarrow> (ret, y # ys)) else (ret, y # xs))"

definition acts_as :: "(u64 \<Rightarrow> memory \<Rightarrow> sbi_fifo_inplace_update_types \<times> memory) \<Rightarrow> nat \<Rightarrow>
    (u8 list \<Rightarrow> sbi_fifo_inplace_update_types \<times> u8 list) \<Rightarrow> bool" where
  "acts_as cb n g \<longleftrightarrow> (\<forall>a m. cb a m = (fst (g (bytes_at m a n)), poke m a (snd (g (bytes_at m a n))))) \<and>
     (\<forall>x. length x = n \<longrightarrow> length (snd (g x)) = n)"

definition entry :: "sbi_fifo \<Rightarrow> memory \<Rightarrow> nat \<Rightarrow> u8 list" where
  "entry f m k = bytes_at m (slot f ((unat (tail f) + k) mod unat (num_entries f))) (unat (entry_size f))"

lemma entries_entry: "entries f m = map (entry f m) [0..<unat (avail f)]"
  by (simp add: entries_def entry_def)

lemma entry_poke:
  assumes "fifo_wf buf f" and "i < unat (num_entries f)" and "k < unat (num_entries f)" and "length x = unat (entry_size f)"
  shows "entry f (poke m (slot f ((unat (tail f) + i) mod unat (num_entries f))) x) k = (if k = i then x else entry f m k)"
proof -
  let ?n = "unat (num_entries f)" and ?t = "unat (tail f)"
  have l: "length x < 2 ^ 64" using assms(4) unat_u16 [of "entry_size f"] by simp
  have n: "(?t + j) mod ?n < ?n" for j using fifo_bounds(4) [OF assms(1)] by simp
  show ?thesis
  proof (cases "k = i")
    case True
    then show ?thesis using poke_bytes(1) [OF l] assms(4) by (simp add: entry_def)
  next
    case False
    then have "(?t + k) mod ?n \<noteq> (?t + i) mod ?n"
      using ring_distinct [of k i ?n ?t] ring_distinct [of i k ?n ?t] assms(2,3) by (cases "k < i") auto
    then show ?thesis using False poke_bytes(2) [OF l] slots_apart [OF n n, of k i] assms(4) by (simp add: entry_def)
  qed
qed

lemma inplace_loop_entries:
  assumes "fifo_wf buf f" and "acts_as (fptr inp) (unat (entry_size f)) g" and "i + n \<le> unat (num_entries f)"
    and "inplace_loop fptr f inp i n SBI_FIFO_UNCHANGED m = (r, m')"
  shows "(r, map (entry f m') [i..<i + n]) = inplace_list g (map (entry f m) [i..<i + n]) \<and>
    (\<forall>k < i. entry f m' k = entry f m k)"
  using assms(3,4)
proof (induction n arbitrary: i m)
  case (Suc n)
  let ?n = "unat (num_entries f)" and ?t = "unat (tail f)" and ?e = "unat (entry_size f)"
  note b = fifo_bounds [OF assms(1)]
  let ?a = "slot f ((?t + i) mod ?n)"
  have i: "i < ?n" using Suc.prems(1) by simp
  have "(if ?n \<le> ?t + i then ?t + i - ?n else ?t + i) = (?t + i) mod ?n" using b(1) i by (auto simp: le_mod_geq)
  moreover have "(?t + i) mod ?n < 65536" using b(3,4) by (meson less_trans mod_less_divisor)
  ultimately have idx: "queue f + ucast ((word_of_nat (if ?n \<le> ?t + i then ?t + i - ?n else ?t + i) :: u32) * ucast (entry_size f)) = ?a"
    using slot_address by simp
  obtain ret y where g: "g (entry f m i) = (ret, y)" by fastforce
  have len: "length y = ?e" using assms(2) g by (metis acts_as_def bytes_at_def entry_def length_map length_upt minus_nat.diff_0 snd_conv)
  have cb: "fptr inp ?a m = (ret, poke m ?a y)" using assms(2) g by (simp add: acts_as_def entry_def)
  note pk = entry_poke [OF assms(1) i _ len, of _ m]
  define ks where "ks = [Suc i..<Suc i + n]"
  have up: "[i..<i + Suc n] = i # ks" by (simp add: ks_def upt_conv_Cons)
  have rest: "map (entry f (poke m ?a y)) ks = map (entry f m) ks" using pk Suc.prems(1) by (auto simp: ks_def)
  show ?case
  proof (cases "ret = SBI_FIFO_UNCHANGED")
    case True
    then have "inplace_loop fptr f inp (Suc i) n SBI_FIFO_UNCHANGED (poke m ?a y) = (r, m')"
      using Suc.prems(2) idx cb by (simp add: Let_def)
    moreover have "Suc i + n \<le> ?n" using Suc.prems(1) by simp
    ultimately have ih: "(r, map (entry f m') ks) = inplace_list g (map (entry f m) ks) \<and> (\<forall>k < Suc i. entry f m' k = entry f (poke m ?a y) k)"
      unfolding rest [symmetric] unfolding ks_def by (rule Suc.IH [rotated])
    then have "\<forall>k < i. entry f m' k = entry f m k" "entry f m' i = y" using pk i by auto
    with ih True g show ?thesis unfolding up by (auto split: prod.splits)
  next
    case False
    then have "r = ret" "m' = poke m ?a y" using Suc.prems(2) idx cb by (cases ret; auto simp: Let_def)+
    moreover have "entry f (poke m ?a y) i = y" "\<forall>k < i. entry f (poke m ?a y) k = entry f m k" using pk i by auto
    ultimately show ?thesis using False g rest unfolding up by simp
  qed
qed simp

lemma inplace_update_entries:
  assumes "fifo_wf buf f" and "acts_as (fptr inp) (unat (entry_size f)) g" and "inp \<noteq> 0"
    and "sbi_fifo_inplace_update (Some f) inp fptr m = (r, m')"
  shows "(r, entries f m') = inplace_list g (entries f m)"
proof (cases "fifo_is_empty f")
  case True
  then show ?thesis using assms(3,4) by (simp add: sbi_fifo_inplace_update_def entries_entry fifo_is_empty_def)
next
  case False
  then have "inplace_loop fptr f inp 0 (unat (avail f)) SBI_FIFO_UNCHANGED m = (r, m')"
    using assms(3,4) by (simp add: sbi_fifo_inplace_update_def)
  from inplace_loop_entries [OF assms(1,2) _ this] fifo_bounds(2) [OF assms(1)] show ?thesis
    by (simp add: entries_entry)
qed

text \<open>
  C15: The ring buffer is a first-in first-out queue of at most \<^verbatim>\<open>num_entries\<close> entries: for
  every sequence of enqueue and dequeue operations, with indices wrapping around any number
  of times, the entries that come out and the entries left inside are those of a list of
  bounded length, and the queue stays well-formed.
\<close>

theorem fifo_is_bounded_queue:
  assumes "fifo_wf buf f" and "\<And>x. Put x \<in> set ops \<Longrightarrow> length x = unat (entry_size f)"
  shows "fst (queue_run (fifo_put buf) (fifo_get buf) ops (f, m)) = fst (list_run (unat (num_entries f)) ops (entries f m)) \<and>
    (case snd (queue_run (fifo_put buf) (fifo_get buf) ops (f, m)) of (f', m') \<Rightarrow>
       fifo_wf buf f' \<and> entries f' m' = snd (list_run (unat (num_entries f)) ops (entries f m)))"
  using ring.run_refines [of buf "(f, m)" ops] assms by (auto split: prod.splits)

lemma apart_below:
  assumes "unat a + n \<le> unat b" and "unat b + l \<le> 2 ^ 64"
  shows "apart a n b l"
  unfolding apart_def
proof (intro allI impI notI)
  fix i j
  assume ij: "i < n" "j < l" and e: "a + word_of_nat i = b + word_of_nat j"
  have "unat (a + word_of_nat i) = unat a + i" "unat (b + word_of_nat j) = unat b + j"
    using assms ij by (simp_all add: unat_plus_if' unat_word_of_nat64)
  with e assms ij show False by simp
qed

theorem fifo_is_bounded_queue_witness:
  "fst (queue_run (fifo_put 0x2000) (fifo_get 0x2000) [Put [1], Put [2], Put [9], Get, Put [3], Get, Get]
     (fst (sbi_fifo_init 0x1000 2 1 (\<lambda>_. 7)), snd (sbi_fifo_init 0x1000 2 1 (\<lambda>_. 7)))) = [[1], [2], [3]]"
proof -
  let ?f = "fst (sbi_fifo_init 0x1000 2 1 (\<lambda>_. 7))" and ?m = "snd (sbi_fifo_init 0x1000 2 1 (\<lambda>_. 7))"
  have f: "unat (num_entries ?f) = 2" "unat (entry_size ?f) = 1" "entries ?f ?m = []"
    by (simp_all add: sbi_fifo_init_def entries_def)
  have "apart 0x1000 2 0x2000 1" by (rule apart_below) simp_all
  then have wf: "fifo_wf 0x2000 ?f" by (simp add: fifo_wf_def sbi_fifo_init_def)
  let ?ops = "[Put [1], Put [2], Put [9], Get, Put [3], Get, Get] :: u8 list queue_op list"
  have "length x = unat (entry_size ?f)" if "Put x \<in> set ?ops" for x using that f(2) by auto
  then have "fst (queue_run (fifo_put 0x2000) (fifo_get 0x2000) ?ops (?f, ?m)) =
      fst (list_run (unat (num_entries ?f)) ?ops (entries ?f ?m))"
    by (rule conjunct1 [OF fifo_is_bounded_queue [OF wf]])
  also have "\<dots> = [[1], [2], [3]]" unfolding f by simp
  finally show ?thesis .
qed

end
