(* ===== verification/SbiScratch.thy ===== *)
theory SbiScratch
  imports SbiBits SbiFifo
begin

text \<open>
  The per-hart scratch space of the firmware, \<^verbatim>\<open>opensbi-1.2/lib/sbi/sbi_scratch.c\<close>, with
  the numbering of the platform's harts, \<^verbatim>\<open>lib/sbi/sbi_platform.c\<close>. A scratch area is a
  page of the byte memory; its first eleven words are the fixed header, the rest is handed
  out by a bump allocator at the same offset on every hart. The function that finds the area
  of a hart is a field of the header, code of the boot assembly, and a parameter here.
\<close>

section \<open>Harts of the platform\<close>

record sbi_platform =
  hart_count :: nat
  hart_index2id :: "nat list option"

definition no_index :: nat where "no_index = 0xFFFFFFFF"

fun hart_index_loop :: "nat list \<Rightarrow> nat \<Rightarrow> nat \<Rightarrow> nat" where
  "hart_index_loop [] hartid i = no_index"
| "hart_index_loop (h # hs) hartid i = (if h = hartid then i else hart_index_loop hs hartid (i + 1))"

definition sbi_platform_hart_index :: "sbi_platform option \<Rightarrow> nat \<Rightarrow> nat" where
  "sbi_platform_hart_index plat hartid =
     (case plat of None \<Rightarrow> no_index
      | Some p \<Rightarrow>
          (case hart_index2id p of
             Some tab \<Rightarrow> hart_index_loop (take (hart_count p) tab) hartid 0
           | None \<Rightarrow> hartid))"

definition sbi_platform_hart_invalid :: "sbi_platform option \<Rightarrow> nat \<Rightarrow> bool" where
  "sbi_platform_hart_invalid plat hartid =
     (case plat of None \<Rightarrow> True
      | Some p \<Rightarrow> if hart_count p \<le> sbi_platform_hart_index plat hartid then True else False)"

section \<open>The header and the allocator\<close>

record sbi_scratch =
  fw_start :: u64
  fw_size :: u64
  next_arg1 :: u64
  next_addr :: u64
  next_mode :: u64
  warmboot_addr :: u64
  platform_addr :: u64
  hartid_to_scratch :: u64
  trap_exit :: u64
  tmp0 :: u64
  options :: u64

definition SBI_SCRATCH_EXTRA_SPACE_OFFSET :: u64 where "SBI_SCRATCH_EXTRA_SPACE_OFFSET = 11 * 8"
definition SBI_SCRATCH_SIZE :: u64 where "SBI_SCRATCH_SIZE = 0x1000"

record scratch_state =
  last_hartid_having_scratch :: nat
  hartid_to_scratch_table :: "nat \<Rightarrow> u64 option"
  extra_offset :: u64
  smem :: memory

definition scratch_reset :: "memory \<Rightarrow> scratch_state" where
  "scratch_reset m = \<lparr>last_hartid_having_scratch = SBI_HARTMASK_MAX_BITS - 1, hartid_to_scratch_table = \<lambda>_. None,
     extra_offset = SBI_SCRATCH_EXTRA_SPACE_OFFSET, smem = m\<rparr>"

definition sbi_scratch_init :: "sbi_platform option \<Rightarrow> (nat \<Rightarrow> nat \<Rightarrow> u64 option) \<Rightarrow> scratch_state \<Rightarrow> scratch_state" where
  "sbi_scratch_init plat hartid2scratch s =
     fold (\<lambda>i s.
        if sbi_platform_hart_invalid plat i then s
        else
          let p = hartid2scratch i (sbi_platform_hart_index plat i);
              s = s\<lparr>hartid_to_scratch_table := (hartid_to_scratch_table s)(i := p)\<rparr>
          in if p \<noteq> None then s\<lparr>last_hartid_having_scratch := i\<rparr> else s)
       [0..<SBI_HARTMASK_MAX_BITS] s"

definition round_size :: "u64 \<Rightarrow> u64" where
  "round_size sz = (if sz AND (8 - 1) \<noteq> 0 then (sz AND NOT (8 - 1)) + 8 else sz)"

definition sbi_scratch_alloc_offset :: "u64 \<Rightarrow> scratch_state \<Rightarrow> u64 \<times> scratch_state" where
  "sbi_scratch_alloc_offset sz s =
     (if sz = 0 then (0, s)
      else
        let sz = round_size sz;
            (ret, s) = (if SBI_SCRATCH_SIZE < extra_offset s + sz then (0, s)
                        else (extra_offset s, s\<lparr>extra_offset := extra_offset s + sz\<rparr>))
        in if ret \<noteq> 0
           then (ret, s\<lparr>smem := fold (\<lambda>i m. case hartid_to_scratch_table s i of
                     None \<Rightarrow> m
                   | Some rscratch \<Rightarrow> sbi_memset m (rscratch + ret) 0 sz)
                  [0..<last_hartid_having_scratch s + 1] (smem s)\<rparr>)
           else (ret, s))"

fun scratch_allocs :: "u64 list \<Rightarrow> scratch_state \<Rightarrow> u64 list \<times> scratch_state" where
  "scratch_allocs [] s = ([], s)"
| "scratch_allocs (z # zs) s =
     (let (r, s) = sbi_scratch_alloc_offset z s; (rs, s) = scratch_allocs zs s in (r # rs, s))"

section \<open>Properties\<close>

lemma hart_index_loop_found:
  "hart_index_loop hs h i \<noteq> no_index \<Longrightarrow>
     i \<le> hart_index_loop hs h i \<and> hart_index_loop hs h i - i < length hs \<and> hs ! (hart_index_loop hs h i - i) = h"
proof (induction hs arbitrary: i)
  case (Cons a hs)
  show ?case
  proof (cases "a = h")
    case False
    with Cons.prems Cons.IH [of "i + 1"] show ?thesis by (auto simp: nth_Cons')
  qed simp
qed simp

lemma sbi_memset_apply [mem_simps]: "sbi_memset m a ch n x = (if x - a < n then ucast ch else m x)"
proof -
  have "sbi_memset_loop m a c k = memset_loop m a c k" for m a c k
    by (induction k arbitrary: m a) auto
  then show ?thesis using memset_apply [of m a ch n x] by (simp add: sbi_memset_def memset_def)
qed

lemma and_minus8: "(sz :: u64) AND NOT 7 = sz - (sz AND 7)" and unat_and7: "unat (sz AND 7) = unat sz mod 8"
proof -
  have seven: "sz AND 7 = take_bit 3 sz" by (simp add: take_bit_eq_mask mask_eq_exp_minus_1)
  have "(7 :: u64) = mask 3" by (simp add: mask_eq_exp_minus_1)
  moreover have "sz AND NOT (mask 3) = push_bit 3 (drop_bit 3 sz)" by (rule bit_word_eqI) (auto simp: bit_simps)
  moreover have "push_bit 3 (drop_bit 3 sz) + take_bit 3 sz = sz" by (rule bits_ident)
  ultimately show "sz AND NOT 7 = sz - (sz AND 7)" unfolding seven by (metis add_diff_cancel_right')
  have "unat (take_bit 3 sz) = take_bit 3 (unat sz)" by (rule unsigned_take_bit_eq)
  then show "unat (sz AND 7) = unat sz mod 8" unfolding seven by (simp add: take_bit_eq_mod [of 3 "unat sz"])
qed

lemma unat_round_size:
  assumes "unat sz \<le> 2 ^ 64 - 2 ^ 13"
  shows "unat (round_size sz) = (if unat sz mod 8 = 0 then unat sz else unat sz - unat sz mod 8 + 8)"
proof -
  have "sz AND 7 \<le> sz" unfolding word_le_nat_alt unat_and7 by simp
  then have u: "unat (sz - (sz AND 7)) = unat sz - unat sz mod 8" by (simp add: unat_sub unat_and7)
  have z: "sz AND 7 = 0 \<longleftrightarrow> unat sz mod 8 = 0" by (metis unat_and7 unat_eq_zero)
  have b: "unat sz - unat sz mod 8 + 8 < 18446744073709551616" using assms by simp
  show ?thesis
  proof (cases "unat sz mod 8 = 0")
    case False
    then have "round_size sz = sz - (sz AND 7) + 8" by (simp add: round_size_def z and_minus8 [simplified])
    with False show ?thesis using b by (simp add: unat_word_ariths u)
  qed (simp add: round_size_def z)
qed

lemma round_size_facts:
  assumes "unat sz \<le> 2 ^ 64 - 2 ^ 13"
  shows "unat sz \<le> unat (round_size sz)" and "unat (round_size sz) < unat sz + 8" and "8 dvd unat (round_size sz)"
proof -
  define k where "k = unat sz mod 8"
  have k: "k < 8" "k \<le> unat sz" by (simp_all add: k_def)
  have r: "unat (round_size sz) = (if k = 0 then unat sz else unat sz - k + 8)"
    unfolding k_def by (rule unat_round_size [OF assms])
  show "unat sz \<le> unat (round_size sz)" "unat (round_size sz) < unat sz + 8"
    unfolding r using k by auto
  have "8 dvd unat sz - k" unfolding k_def by (rule dvd_minus_mod)
  then show "8 dvd unat (round_size sz)" unfolding r by auto
qed

lemma alloc_offset_cases:
  assumes "unat sz \<le> 2 ^ 64 - 2 ^ 13" and "extra_offset s \<le> SBI_SCRATCH_SIZE"
  obtains
    (full) "sbi_scratch_alloc_offset sz s = (0, s)" "sz = 0 \<or> 4096 < unat (extra_offset s) + unat (round_size sz)"
  | (block) t where "sbi_scratch_alloc_offset sz s = (extra_offset s, t)"
      "unat (extra_offset s) + unat (round_size sz) \<le> 4096" "sz \<noteq> 0"
      "unat (extra_offset t) = unat (extra_offset s) + unat (round_size sz)"
      "hartid_to_scratch_table t = hartid_to_scratch_table s"
      "last_hartid_having_scratch t = last_hartid_having_scratch s"
      "smem t = fold (\<lambda>i m. case hartid_to_scratch_table s i of None \<Rightarrow> m
         | Some r \<Rightarrow> sbi_memset m (r + extra_offset s) 0 (round_size sz))
        [0..<last_hartid_having_scratch s + 1] (smem s)"
  | (zero) "extra_offset s = 0"
proof (cases "sz = 0 \<or> extra_offset s = 0")
  case True
  then show ?thesis using full zero by (auto simp: sbi_scratch_alloc_offset_def)
next
  case False
  have e: "unat (extra_offset s) \<le> 4096" using assms(2) by (simp add: SBI_SCRATCH_SIZE_def word_le_nat_alt)
  have a: "unat (extra_offset s + round_size sz) = unat (extra_offset s) + unat (round_size sz)"
    using round_size_facts(2) [OF assms(1)] assms(1) e by (intro unat_add64) simp
  show ?thesis
  proof (cases "SBI_SCRATCH_SIZE < extra_offset s + round_size sz")
    case True
    then show ?thesis using False a by (intro full) (auto simp: sbi_scratch_alloc_offset_def SBI_SCRATCH_SIZE_def word_less_nat_alt)
  next
    case no: False
    with False a show ?thesis
      by (intro block [of "snd (sbi_scratch_alloc_offset sz s)"])
        (auto simp: sbi_scratch_alloc_offset_def Let_def SBI_SCRATCH_SIZE_def word_less_nat_alt simp del: upt_Suc)
  qed
qed

lemma fold_memset_areas:
  "fold (\<lambda>i m. case tab i of None \<Rightarrow> m | Some r \<Rightarrow> sbi_memset m (r + a) 0 n) hs m x =
     (if \<exists>h \<in> set hs. \<exists>p. tab h = Some p \<and> x - (p + a) < n then 0 else m x)"
  by (induction hs arbitrary: m) (auto simp: sbi_memset_apply split: option.splits)

definition scratch_blocks :: "u64 list \<Rightarrow> u64 list \<Rightarrow> (u64 \<times> u64) list" where
  "scratch_blocks zs rs = filter (\<lambda>(r, z). r \<noteq> 0) (zip rs zs)"

definition in_block :: "scratch_state \<Rightarrow> (u64 \<times> u64) list \<Rightarrow> u64 \<Rightarrow> bool" where
  "in_block s bs x \<longleftrightarrow> (\<exists>h \<le> last_hartid_having_scratch s. \<exists>p. hartid_to_scratch_table s h = Some p \<and>
     (\<exists>(r, z) \<in> set bs. x - (p + r) < round_size z))"

definition scratch_ok :: "scratch_state \<Rightarrow> bool" where
  "scratch_ok s \<longleftrightarrow> 88 \<le> unat (extra_offset s) \<and> unat (extra_offset s) \<le> 4096 \<and> 8 dvd unat (extra_offset s)"

lemma scratch_blocks_Cons:
  "scratch_blocks (z # zs) (r # rs) = (if r \<noteq> 0 then (r, z) # scratch_blocks zs rs else scratch_blocks zs rs)"
  by (simp add: scratch_blocks_def)

lemma in_block_Cons: "in_block s (b # bs) x \<longleftrightarrow> in_block s [b] x \<or> in_block s bs x"
  unfolding in_block_def by (simp, blast)

lemma in_block_cong:
  "hartid_to_scratch_table t = hartid_to_scratch_table s \<Longrightarrow>
   last_hartid_having_scratch t = last_hartid_having_scratch s \<Longrightarrow> in_block t bs x = in_block s bs x"
  by (simp add: in_block_def)

lemma scratch_init_keeps:
  "extra_offset (sbi_scratch_init plat h2s s) = extra_offset s \<and> smem (sbi_scratch_init plat h2s s) = smem s"
proof -
  have "extra_offset (fold f xs s) = extra_offset s \<and> smem (fold f xs s) = smem s"
    if "\<And>i u. extra_offset (f i u) = extra_offset u \<and> smem (f i u) = smem u" for f and xs :: "nat list"
    using that by (induction xs arbitrary: s) auto
  then show ?thesis unfolding sbi_scratch_init_def by (rule allI [THEN allI, THEN spec, THEN spec]) (simp add: Let_def)
qed

lemma scratch_allocs_spec:
  assumes "scratch_allocs zs s = (rs, t)" and "\<forall>z \<in> set zs. unat z \<le> 2 ^ 64 - 2 ^ 13" and "scratch_ok s"
  shows "sorted_wrt (\<lambda>(r, z) (r', z'). unat r + unat z \<le> unat r') (scratch_blocks zs rs) \<and>
    (\<forall>(r, z) \<in> set (scratch_blocks zs rs).
       8 dvd unat r \<and> unat (extra_offset s) \<le> unat r \<and> unat r + unat z \<le> 4096) \<and>
    (\<forall>x. smem t x = (if in_block s (scratch_blocks zs rs) x then 0 else smem s x))"
  using assms
proof (induction zs arbitrary: s rs)
  case Nil
  then show ?case by (simp add: scratch_blocks_def in_block_def)
next
  case (Cons z zs)
  have z: "unat z \<le> 2 ^ 64 - 2 ^ 13" using Cons.prems(2) by simp
  have ok: "extra_offset s \<le> SBI_SCRATCH_SIZE" using Cons.prems(3) by (simp add: scratch_ok_def SBI_SCRATCH_SIZE_def word_le_nat_alt)
  obtain r u rs' where u: "sbi_scratch_alloc_offset z s = (r, u)" "scratch_allocs zs u = (rs', t)" "rs = r # rs'"
    using Cons.prems(1) by (auto split: prod.splits)
  from z ok show ?case
  proof (cases rule: alloc_offset_cases)
    case full
    then have "u = s" "r = 0" using u(1) by auto
    with Cons.IH [of s rs'] Cons.prems(2,3) u(2,3) show ?thesis by (simp add: scratch_blocks_Cons)
  next
    case (block u')
    have r: "r = extra_offset s" and "u' = u" using block(1) u(1) by auto
    note block = block [unfolded \<open>u' = u\<close>]
    have r0: "r \<noteq> 0" using Cons.prems(3) by (auto simp: scratch_ok_def r)
    have "scratch_ok u" using block Cons.prems(3) round_size_facts [OF z] by (auto simp: scratch_ok_def)
    from Cons.IH [OF u(2) _ this] Cons.prems(2) have ih:
      "sorted_wrt (\<lambda>(r, z) (r', z'). unat r + unat z \<le> unat r') (scratch_blocks zs rs')"
      "\<forall>(r, z) \<in> set (scratch_blocks zs rs'). 8 dvd unat r \<and> unat (extra_offset u) \<le> unat r \<and> unat r + unat z \<le> 4096"
      "\<And>x. smem t x = (if in_block u (scratch_blocks zs rs') x then 0 else smem u x)" by auto
    have m: "smem u x = (if in_block s [(r, z)] x then 0 else smem s x)" for x
      unfolding block(7) fold_memset_areas in_block_def r by (simp add: Bex_def less_Suc_eq_le del: upt_Suc)
    have bs: "scratch_blocks (z # zs) rs = (r, z) # scratch_blocks zs rs'" using r0 by (simp add: u(3) scratch_blocks_Cons)
    have ib: "in_block s (scratch_blocks (z # zs) rs) x \<longleftrightarrow> in_block s [(r, z)] x \<or> in_block u (scratch_blocks zs rs') x" for x
      unfolding bs in_block_cong [OF block(5,6)] by (rule in_block_Cons)
    have k: "88 \<le> unat r" "8 dvd unat r" using Cons.prems(3) by (simp_all add: scratch_ok_def r)
    have a: "unat r + unat z \<le> unat (extra_offset u)" "unat r + unat z \<le> 4096"
      using block(2,4) round_size_facts(1) [OF z] unfolding r by linarith+
    have later: "8 dvd unat r' \<and> unat r' + unat z' \<le> 4096 \<and> unat r + unat z \<le> unat r' \<and> unat r \<le> unat r'"
      if "(r', z') \<in> set (scratch_blocks zs rs')" for r' z'
    proof -
      have "8 dvd unat r'" "unat (extra_offset u) \<le> unat r'" "unat r' + unat z' \<le> 4096" using ih(2) that by auto
      with a show ?thesis by linarith
    qed
    have "smem t x = (if in_block s (scratch_blocks (z # zs) rs) x then 0 else smem s x)" for x
      unfolding ib ih(3) m by simp
    moreover have "sorted_wrt (\<lambda>(r, z) (r', z'). unat r + unat z \<le> unat r') (scratch_blocks (z # zs) rs)"
      unfolding bs sorted_wrt.simps using ih(1) later by blast
    moreover have "\<forall>(r', z') \<in> set (scratch_blocks (z # zs) rs).
        8 dvd unat r' \<and> unat (extra_offset s) \<le> unat r' \<and> unat r' + unat z' \<le> 4096"
      unfolding bs r [symmetric] using later k a by simp blast
    ultimately show ?thesis by blast
  next
    case zero
    with Cons.prems(3) show ?thesis by (simp add: scratch_ok_def)
  qed
qed

text \<open>
  C16: Whatever sequence of sizes is asked for, the blocks the scratch allocator returns lie
  behind the header and inside the 4096-byte area, are aligned to eight bytes and do not
  overlap, and afterwards every byte of every block is zero in the area of every hart, while
  all other bytes are as before. Sizes within 8192 bytes of the top of the unsigned range are
  excluded: there the end of the block wraps around.
\<close>

theorem scratch_allocs_disjoint:
  assumes "s = sbi_scratch_init plat h2s (scratch_reset m)" and "scratch_allocs zs s = (rs, t)"
    and "\<forall>z \<in> set zs. unat z \<le> 2 ^ 64 - 2 ^ 13"
  shows "sorted_wrt (\<lambda>(r, z) (r', z'). unat r + unat z \<le> unat r') (scratch_blocks zs rs) \<and>
    (\<forall>(r, z) \<in> set (scratch_blocks zs rs).
      8 dvd unat r \<and> unat SBI_SCRATCH_EXTRA_SPACE_OFFSET \<le> unat r \<and> unat r + unat z \<le> unat SBI_SCRATCH_SIZE) \<and>
    (\<forall>x. smem t x = (if in_block s (scratch_blocks zs rs) x then 0 else m x))"
proof -
  have e: "extra_offset s = SBI_SCRATCH_EXTRA_SPACE_OFFSET" "smem s = m"
    using scratch_init_keeps [of plat h2s "scratch_reset m"] by (simp_all add: assms(1) scratch_reset_def)
  then have "scratch_ok s" by (simp add: scratch_ok_def SBI_SCRATCH_EXTRA_SPACE_OFFSET_def)
  from scratch_allocs_spec [OF assms(2,3) this] e show ?thesis by (simp add: SBI_SCRATCH_SIZE_def)
qed

text \<open>
  At the witness, hart 0 of a platform of one hart has its area at 0x80040000, and three
  requests are made, of which the second does not fit.
\<close>

theorem scratch_allocs_disjoint_witness:
  "\<exists>t. scratch_allocs [13, 4000, 8] (sbi_scratch_init (Some \<lparr>hart_count = 1, hart_index2id = None\<rparr>)
       (\<lambda>h i. Some 0x80040000) (scratch_reset (\<lambda>_. 1))) = ([88, 0, 104], t) \<and>
     scratch_blocks [13, 4000, 8] [88, 0, 104] = [(88, 13), (104, 8)] \<and>
     unat (88 :: u64) + unat (13 :: u64) \<le> unat (104 :: u64)"
proof -
  let ?s = "sbi_scratch_init (Some \<lparr>hart_count = 1, hart_index2id = None\<rparr>) (\<lambda>h i. Some 0x80040000) (scratch_reset (\<lambda>_. 1))"
  have e: "extra_offset ?s = 88" using scratch_init_keeps [of _ _ "scratch_reset (\<lambda>_. 1)"]
    by (simp add: scratch_reset_def SBI_SCRATCH_EXTRA_SPACE_OFFSET_def)
  have "\<exists>t. scratch_allocs [13, 4000, 8] s = ([88, 0, 104], t)" if "extra_offset s = 88" for s
    using that by (simp add: sbi_scratch_alloc_offset_def round_size_def Let_def SBI_SCRATCH_SIZE_def del: upt_Suc)
  from this [OF e] obtain t where t: "scratch_allocs [13, 4000, 8] ?s = ([88, 0, 104], t)" ..
  have b: "scratch_blocks [13, 4000, 8] [88, 0, 104] = [(88, 13), (104, 8)]" by (simp add: scratch_blocks_def)
  from scratch_allocs_disjoint [OF refl t] t b show ?thesis by auto
qed

end
