(* ===== verification/SbiDomain.thy ===== *)
theory SbiDomain
  imports SbiScratch "HOL-Library.Multiset"
begin

text \<open>
  Domains of the firmware, \<^verbatim>\<open>opensbi-1.2/lib/sbi/sbi_domain.c\<close> and
  \<^verbatim>\<open>include/sbi/sbi_domain.h\<close>: memory regions of power-of-two size, the access check,
  the sanity check that sorts the regions, registration of domains and the assignment of
  harts to them. A pointer to a domain is a number; domain 0 is the root domain. Shifts by a variable amount use its low
  six bits, as the \<^verbatim>\<open>sll\<close> instruction does.
\<close>

section \<open>Memory regions\<close>

record sbi_domain_memregion =
  order :: u64
  base :: u64
  flags :: u64

abbreviation (input) SBI_DOMAIN_READ :: u64 where "SBI_DOMAIN_READ \<equiv> 1"
abbreviation (input) SBI_DOMAIN_WRITE :: u64 where "SBI_DOMAIN_WRITE \<equiv> 2"
abbreviation (input) SBI_DOMAIN_EXECUTE :: u64 where "SBI_DOMAIN_EXECUTE \<equiv> 4"
abbreviation (input) SBI_DOMAIN_MMIO :: u64 where "SBI_DOMAIN_MMIO \<equiv> 8"
abbreviation (input) SBI_DOMAIN_MEMREGION_READABLE :: u64 where "SBI_DOMAIN_MEMREGION_READABLE \<equiv> 1"
abbreviation (input) SBI_DOMAIN_MEMREGION_WRITEABLE :: u64 where "SBI_DOMAIN_MEMREGION_WRITEABLE \<equiv> 2"
abbreviation (input) SBI_DOMAIN_MEMREGION_EXECUTABLE :: u64 where "SBI_DOMAIN_MEMREGION_EXECUTABLE \<equiv> 4"
abbreviation (input) SBI_DOMAIN_MEMREGION_MMODE :: u64 where "SBI_DOMAIN_MEMREGION_MMODE \<equiv> 8"
abbreviation (input) SBI_DOMAIN_MEMREGION_MMIO :: u64 where "SBI_DOMAIN_MEMREGION_MMIO \<equiv> 0x80000000"

abbreviation (input) PRV_U :: u64 where "PRV_U \<equiv> 0"
abbreviation (input) PRV_S :: u64 where "PRV_S \<equiv> 1"
abbreviation (input) PRV_M :: u64 where "PRV_M \<equiv> 3"

definition BIT :: "u64 \<Rightarrow> u64" where "BIT nr = push_bit (unat nr mod 64) 1"

text \<open>An array of regions ends at the first one of order zero.\<close>

definition for_each_memregion :: "sbi_domain_memregion list \<Rightarrow> sbi_domain_memregion list" where
  "for_each_memregion rs = takeWhile (\<lambda>r. order r \<noteq> 0) rs"

function memregion_order :: "u64 \<Rightarrow> u64 \<Rightarrow> nat \<Rightarrow> nat \<times> u64" where
  "memregion_order addr sz ord =
     (if ord < 64 then
        let b = addr AND NOT (push_bit ord 1 - 1) in
        if b \<le> addr \<and> addr < b + push_bit ord 1 \<and> b \<le> addr + sz - 1 \<and> addr + sz - 1 < b + push_bit ord 1
        then (ord, b)
        else memregion_order addr sz (ord + 1)
      else (ord, 0))"
  by pat_completeness auto
termination by (relation "measure (\<lambda>(addr, sz, ord). 64 - ord)") (auto simp: Let_def)

declare memregion_order.simps [simp del]

definition sbi_domain_memregion_init :: "u64 \<Rightarrow> u64 \<Rightarrow> u64 \<Rightarrow> sbi_domain_memregion" where
  "sbi_domain_memregion_init addr sz fl =
     (case memregion_order addr sz (log2roundup sz) of (ord, b) \<Rightarrow>
        \<lparr>order = word_of_nat ord, base = b, flags = fl\<rparr>)"

definition is_region_valid :: "sbi_domain_memregion \<Rightarrow> bool" where
  "is_region_valid reg \<longleftrightarrow>
     (if order reg < 3 \<or> 64 < order reg then False
      else if order reg = 64 \<and> base reg \<noteq> 0 then False
      else if order reg < 64 \<and> base reg AND (BIT (order reg) - 1) \<noteq> 0 then False
      else True)"

definition is_region_subset :: "sbi_domain_memregion \<Rightarrow> sbi_domain_memregion \<Rightarrow> bool" where
  "is_region_subset regA regB \<longleftrightarrow>
     (let regA_start = base regA; regA_end = base regA + (BIT (order regA) - 1);
          regB_start = base regB; regB_end = base regB + (BIT (order regB) - 1)
      in regB_start \<le> regA_start \<and> regA_start < regB_end \<and> regB_start < regA_end \<and> regA_end \<le> regB_end)"

definition is_region_conflict :: "sbi_domain_memregion \<Rightarrow> sbi_domain_memregion \<Rightarrow> bool" where
  "is_region_conflict regA regB \<longleftrightarrow>
     (is_region_subset regA regB \<or> is_region_subset regB regA) \<and> flags regA = flags regB"

definition is_region_before :: "sbi_domain_memregion \<Rightarrow> sbi_domain_memregion \<Rightarrow> bool" where
  "is_region_before regA regB \<longleftrightarrow>
     (if order regA < order regB then True
      else if order regA = order regB \<and> base regA < base regB then True
      else False)"

section \<open>Domains\<close>

record sbi_domain =
  index :: nat
  assigned_harts :: sbi_hartmask
  possible_harts :: "sbi_hartmask option"
  regions :: "sbi_domain_memregion list option"
  boot_hartid :: nat
  next_arg1 :: u64
  next_addr :: u64
  next_mode :: u64
  system_reset_allowed :: bool

definition SBI_DOMAIN_MAX_INDEX :: nat where "SBI_DOMAIN_MAX_INDEX = 32"
definition ROOT_REGION_MAX :: nat where "ROOT_REGION_MAX = 16"

definition sbi_domain_is_assigned_hart :: "sbi_domain option \<Rightarrow> nat \<Rightarrow> bool" where
  "sbi_domain_is_assigned_hart dp hartid =
     (case dp of None \<Rightarrow> False | Some d \<Rightarrow> sbi_hartmask_test_hart hartid (assigned_harts d))"

text \<open>The 64 bits of the assigned harts from hart \<open>hbase\<close> on.\<close>

definition sbi_domain_get_assigned_hartmask :: "sbi_domain option \<Rightarrow> nat \<Rightarrow> u64" where
  "sbi_domain_get_assigned_hartmask dp hbase =
     (case dp of None \<Rightarrow> 0
      | Some d \<Rightarrow>
          let ws = bits (assigned_harts d); bword = BIT_WORD hbase; boff = hbase mod BITS_PER_LONG;
              ret = drop_bit boff (ws ! bword); bword = bword + 1
          in if boff \<noteq> 0 \<and> bword < BIT_WORD SBI_HARTMASK_MAX_BITS
             then ret OR push_bit (BITS_PER_LONG - boff) (ws ! bword AND (push_bit boff 1 - 1))
             else ret)"

definition region_end :: "sbi_domain_memregion \<Rightarrow> u64" where
  "region_end reg = (if order reg < 64 then base reg + (BIT (order reg) - 1) else - 1)"

fun check_regions :: "u64 \<Rightarrow> u64 \<Rightarrow> u64 \<Rightarrow> bool \<Rightarrow> sbi_domain_memregion list \<Rightarrow> bool" where
  "check_regions addr mode rwx mmio [] = (if mode = PRV_M then True else False)"
| "check_regions addr mode rwx mmio (reg # rs) =
     (let rflags = flags reg in
      if mode = PRV_M \<and> rflags AND SBI_DOMAIN_MEMREGION_MMODE = 0 then check_regions addr mode rwx mmio rs
      else if base reg \<le> addr \<and> addr \<le> region_end reg then
        let rmmio = (rflags AND SBI_DOMAIN_MEMREGION_MMIO \<noteq> 0) in
        if mmio \<noteq> rmmio then False else rflags AND rwx = rwx
      else check_regions addr mode rwx mmio rs)"

definition access_rwx :: "u64 \<Rightarrow> u64" where
  "access_rwx access_flags =
     (if access_flags AND SBI_DOMAIN_READ \<noteq> 0 then SBI_DOMAIN_MEMREGION_READABLE else 0) OR
     (if access_flags AND SBI_DOMAIN_WRITE \<noteq> 0 then SBI_DOMAIN_MEMREGION_WRITEABLE else 0) OR
     (if access_flags AND SBI_DOMAIN_EXECUTE \<noteq> 0 then SBI_DOMAIN_MEMREGION_EXECUTABLE else 0)"

definition sbi_domain_check_addr :: "sbi_domain option \<Rightarrow> u64 \<Rightarrow> u64 \<Rightarrow> u64 \<Rightarrow> bool" where
  "sbi_domain_check_addr dp addr mode access_flags =
     (case dp of None \<Rightarrow> False
      | Some d \<Rightarrow>
          (case regions d of None \<Rightarrow> False
           | Some rs \<Rightarrow> check_regions addr mode (access_rwx access_flags) (access_flags AND SBI_DOMAIN_MMIO \<noteq> 0)
               (for_each_memregion rs)))"

text \<open>
  The sort of \<^verbatim>\<open>sanitize_domain\<close>: for every pair of positions the conflict check and
  the exchange. An error keeps the array as it is at that moment.
\<close>

definition sort_pair :: "nat \<Rightarrow> nat \<Rightarrow> sbi_domain_memregion list \<Rightarrow>
    (int \<times> sbi_domain_memregion list) + sbi_domain_memregion list" where
  "sort_pair i j rs =
     (let reg = rs ! i; reg1 = rs ! j in
      if is_region_conflict reg1 reg then Inl (SBI_EINVAL, rs)
      else if \<not> is_region_before reg1 reg then Inr rs
      else Inr (rs[j := reg, i := reg1]))"

definition sort_regions :: "nat \<Rightarrow> sbi_domain_memregion list \<Rightarrow>
    (int \<times> sbi_domain_memregion list) + sbi_domain_memregion list" where
  "sort_regions n rs = foldE (\<lambda>i. foldE (sort_pair i) [i + 1..<n]) [0..<n - 1] rs"

definition sanitize_domain :: "sbi_domain_memregion \<Rightarrow> sbi_platform option \<Rightarrow> sbi_domain \<Rightarrow> int \<times> sbi_domain" where
  "sanitize_domain fw plat d =
     (case possible_harts d of None \<Rightarrow> (SBI_EINVAL, d)
      | Some pm \<Rightarrow>
          if list_ex (sbi_platform_hart_invalid plat) (sbi_hartmask_for_each_hart pm) then (SBI_EINVAL, d)
          else case regions d of None \<Rightarrow> (SBI_EINVAL, d)
          | Some rs \<Rightarrow>
              if list_ex (\<lambda>reg. \<not> is_region_valid reg) (for_each_memregion rs) then (SBI_EINVAL, d)
              else
                let n = length (for_each_memregion rs);
                    have_fw_reg = list_ex (\<lambda>reg. order reg = order fw \<and> base reg = base fw \<and> flags reg = flags fw)
                      (for_each_memregion rs)
                in if \<not> have_fw_reg then (SBI_EINVAL, d)
                else case sort_regions n rs of
                  Inl (rc, rs) \<Rightarrow> (rc, d\<lparr>regions := Some rs\<rparr>)
                | Inr rs \<Rightarrow>
                    let d = d\<lparr>regions := Some rs\<rparr> in
                    if next_mode d \<noteq> PRV_S \<and> next_mode d \<noteq> PRV_U then (SBI_EINVAL, d)
                    else if \<not> sbi_domain_check_addr (Some d) (next_addr d) (next_mode d) SBI_DOMAIN_EXECUTE
                    then (SBI_EINVAL, d)
                    else (0, d))"

section \<open>Registration\<close>

text \<open>
  \<open>domidx_to_domain_table\<close> holds the registered domains in the order of their index, so
  that \<^verbatim>\<open>domain_count\<close> is its length. The pointer \<^verbatim>\<open>root.regions\<close> always is
  the array \<^verbatim>\<open>root_memregs\<close>.
\<close>

record domain_state =
  domains :: "nat \<Rightarrow> sbi_domain"
  hartid_to_domain_table :: "nat \<Rightarrow> nat option"
  domidx_to_domain_table :: "nat list"
  domain_finalized :: bool
  root_memregs_count :: nat
  root_fw_region :: sbi_domain_memregion

abbreviation (input) root :: nat where "root \<equiv> 0"

definition upd_domain :: "nat \<Rightarrow> (sbi_domain \<Rightarrow> sbi_domain) \<Rightarrow> domain_state \<Rightarrow> domain_state" where
  "upd_domain d f s = s\<lparr>domains := (domains s)(d := f (domains s d))\<rparr>"

definition assign_hart :: "nat \<Rightarrow> nat \<Rightarrow> nat \<Rightarrow> domain_state \<Rightarrow> domain_state" where
  "assign_hart cold_hartid d i s =
     (if \<not> sbi_hartmask_test_hart i (the (possible_harts (domains s d))) then s
      else
        let s = (case hartid_to_domain_table s i of None \<Rightarrow> s
               | Some tdom \<Rightarrow> upd_domain tdom (\<lambda>t. t\<lparr>assigned_harts := sbi_hartmask_clear_hart i (assigned_harts t)\<rparr>) s);
            s = s\<lparr>hartid_to_domain_table := (hartid_to_domain_table s)(i \<mapsto> d)\<rparr>;
            s = upd_domain d (\<lambda>t. t\<lparr>assigned_harts := sbi_hartmask_set_hart i (assigned_harts t)\<rparr>) s
        in if i = cold_hartid \<and> boot_hartid (domains s d) \<noteq> cold_hartid
           then upd_domain d (\<lambda>t. t\<lparr>boot_hartid := cold_hartid\<rparr>) s else s)"

definition sbi_domain_register ::
    "sbi_platform option \<Rightarrow> nat \<Rightarrow> nat option \<Rightarrow> sbi_hartmask option \<Rightarrow> domain_state \<Rightarrow> int \<times> domain_state" where
  "sbi_domain_register plat cold_hartid dp mp s =
     (case (dp, mp) of
        (Some d, Some assign_mask) \<Rightarrow>
          if domain_finalized s then (SBI_EINVAL, s)
          else if d \<in> set (domidx_to_domain_table s) then (SBI_EALREADY, s)
          else if SBI_DOMAIN_MAX_INDEX \<le> length (domidx_to_domain_table s) then (SBI_ENOSPC, s)
          else
            let (rc, dd) = sanitize_domain (root_fw_region s) plat (domains s d);
                s = upd_domain d (\<lambda>_. dd) s
            in if rc \<noteq> 0 then (rc, s)
            else
              let s = upd_domain d (\<lambda>t. t\<lparr>index := length (domidx_to_domain_table s)\<rparr>) s;
                  s = s\<lparr>domidx_to_domain_table := domidx_to_domain_table s @ [d]\<rparr>;
                  s = upd_domain d (\<lambda>t. t\<lparr>assigned_harts := sbi_hartmask_clear_all (assigned_harts t)\<rparr>) s
              in (0, fold (assign_hart cold_hartid d) (sbi_hartmask_for_each_hart assign_mask) s)
      | _ \<Rightarrow> (SBI_EINVAL, s))"

section \<open>Regions of the root domain\<close>

definition mergeable :: "sbi_domain_memregion \<Rightarrow> sbi_domain_memregion \<Rightarrow> bool" where
  "mergeable nreg nreg1 \<longleftrightarrow>
     base nreg AND (BIT (order nreg + 1) - 1) = 0 \<and> base nreg + BIT (order nreg) = base nreg1 \<and>
     order nreg = order nreg1 \<and> flags nreg = flags nreg1"

text \<open>Moving the entries behind a merged one down, up to and including the terminator.\<close>

fun shift_regions :: "sbi_domain_memregion list \<Rightarrow> sbi_domain_memregion list" where
  "shift_regions (a # b # rs) = (if order a \<noteq> 0 then b # shift_regions (b # rs) else a # b # rs)"
| "shift_regions rs = rs"

lemma length_shift_regions [simp]: "length (shift_regions rs) = length rs"
  by (induction rs rule: shift_regions.induct) auto

function merge_pass :: "sbi_domain_memregion list \<Rightarrow> sbi_domain_memregion list \<times> nat" where
  "merge_pass (nreg # nreg1 # rs) =
     (if order nreg = 0 then (nreg # nreg1 # rs, 0)
      else if order nreg1 \<noteq> 0 \<and> mergeable nreg nreg1
      then let (t, k) = merge_pass (shift_regions (nreg1 # rs)) in (nreg\<lparr>order := order nreg + 1\<rparr> # t, k + 1)
      else let (t, k) = merge_pass (nreg1 # rs) in (nreg # t, k))"
| "merge_pass [nreg] = ([nreg], 0)"
| "merge_pass [] = ([], 0)"
  by pat_completeness auto
termination by (relation "measure length") auto

text \<open>
  What the sort of \<^verbatim>\<open>sanitize_domain\<close> keeps and reaches. The lemmas stand here because
  the termination of the merge loop below rests on them.
\<close>

definition region_le :: "sbi_domain_memregion \<Rightarrow> sbi_domain_memregion \<Rightarrow> bool" where
  "region_le a b \<longleftrightarrow> \<not> is_region_before b a"

lemma region_le_iff: "region_le a b \<longleftrightarrow> order a < order b \<or> order a = order b \<and> base a \<le> base b"
  by (auto simp: region_le_def is_region_before_def)

lemma region_le_trans: "region_le a b \<Longrightarrow> region_le b c \<Longrightarrow> region_le a c"
  by (auto simp: region_le_iff)

lemma foldE_upt:
  assumes "foldE f [a..<b] s = Inr t" and "a \<le> b" and "P a s"
    and "\<And>k s t. a \<le> k \<Longrightarrow> k < b \<Longrightarrow> P k s \<Longrightarrow> f k s = Inr t \<Longrightarrow> P (Suc k) t"
  shows "P b t"
  using assms
proof (induction "b - a" arbitrary: a s)
  case (Suc n)
  then have ab: "a < b" by simp
  then obtain u where u: "f a s = Inr u" "foldE f [Suc a..<b] u = Inr t"
    using Suc.prems(1) by (auto simp: upt_conv_Cons res_simps)
  show ?case
  proof (rule Suc.hyps(1) [OF _ u(2)])
    show "P (Suc a) u" using Suc.prems(3,4) u(1) ab by simp
  qed (use Suc ab in auto)
qed simp

text \<open>
  The state of the two loops at the positions \<open>i\<close> and \<open>j\<close>: the first \<open>n\<close> entries are
  a permutation, the positions before \<open>i\<close> are final, and position \<open>i\<close> has the least of the
  entries seen.
\<close>

definition sorting :: "nat \<Rightarrow> sbi_domain_memregion list \<Rightarrow> nat \<Rightarrow> nat \<Rightarrow> sbi_domain_memregion list \<Rightarrow> bool" where
  "sorting n rs i j ts \<longleftrightarrow>
     length ts = length rs \<and> mset (take n ts) = mset (take n rs) \<and> drop n ts = drop n rs \<and>
     (\<forall>a b. a < i \<longrightarrow> a < b \<longrightarrow> b < n \<longrightarrow> region_le (ts ! a) (ts ! b)) \<and>
     (\<forall>k. i < k \<longrightarrow> k < j \<longrightarrow> region_le (ts ! i) (ts ! k))"

lemma mset_take_swap:
  assumes "i < n" and "j < n" and "n \<le> length ts"
  shows "mset (take n (ts[j := ts ! i, i := ts ! j])) = mset (take n ts)" and "drop n (ts[j := ts ! i, i := ts ! j]) = drop n ts"
proof -
  have "take n (ts[j := ts ! i, i := ts ! j]) = (take n ts)[j := take n ts ! i, i := take n ts ! j]"
    using assms by (simp add: take_update_swap)
  then show "mset (take n (ts[j := ts ! i, i := ts ! j])) = mset (take n ts)"
    using mset_swap [of i "take n ts" j] assms by simp
  show "drop n (ts[j := ts ! i, i := ts ! j]) = drop n ts" using assms by simp
qed

lemma sort_pair_sorting:
  assumes "sorting n rs i j ts" and "i < j" and "j < n" and "n \<le> length rs" and "sort_pair i j ts = Inr us"
  shows "sorting n rs i (Suc j) us"
proof (cases "is_region_before (ts ! j) (ts ! i)")
  case False
  then have "us = ts" using assms(5) by (simp add: sort_pair_def Let_def split: if_splits)
  with False assms(1) show ?thesis by (auto simp: sorting_def region_le_def less_Suc_eq)
next
  case True
  then have us: "us = ts[j := ts ! i, i := ts ! j]" using assms(5) by (simp add: sort_pair_def Let_def split: if_splits)
  have len: "length ts = length rs" "n \<le> length ts" using assms(1,4) by (auto simp: sorting_def)
  have nth: "us ! k = (if k = i then ts ! j else if k = j then ts ! i else ts ! k)" if "k < n" for k
    using that assms(2,3) len by (auto simp: us nth_list_update)
  have le: "region_le (ts ! j) (ts ! i)" using True by (auto simp: region_le_iff is_region_before_def split: if_splits)
  have "region_le (us ! i) (us ! k)" if "i < k" "k < Suc j" for k
    using that assms(1-3) le region_le_trans [OF le] by (auto simp: nth sorting_def less_Suc_eq)
  moreover have "region_le (us ! a) (us ! b)" if "a < i" "a < b" "b < n" for a b
    using that assms(1-3) by (auto simp: nth sorting_def)
  moreover have "length us = length rs \<and> mset (take n us) = mset (take n rs) \<and> drop n us = drop n rs"
    unfolding us using mset_take_swap [of i n j ts] assms(1-3) len by (simp add: sorting_def)
  ultimately show ?thesis unfolding sorting_def by blast
qed

lemma sort_regions_sorting:
  assumes "sort_regions n rs = Inr ts" and "n \<le> length rs" and "0 < n"
  shows "length ts = length rs" and "mset (take n ts) = mset (take n rs)" and "drop n ts = drop n rs"
    and "sorted_wrt region_le (take n ts)"
proof -
  have "sorting n rs (n - 1) (Suc (n - 1)) ts"
  proof (rule foldE_upt [where P = "\<lambda>i. sorting n rs i (Suc i)"])
    show "foldE (\<lambda>i. foldE (sort_pair i) [i + 1..<n]) [0..<n - 1] rs = Inr ts"
      using assms(1) by (simp only: sort_regions_def)
    show "sorting n rs 0 (Suc 0) rs" by (simp add: sorting_def)
    fix k us vs
    assume k: "k < n - 1" and us: "sorting n rs k (Suc k) us" and f: "foldE (sort_pair k) [k + 1..<n] us = Inr vs"
    have "sorting n rs k n vs"
    proof (rule foldE_upt [OF f, where P = "sorting n rs k"])
      show "sorting n rs k (k + 1) us" using us by simp
      show "sorting n rs k (Suc j) xs" if "k + 1 \<le> j" "j < n" "sorting n rs k j ws" "sort_pair k j ws = Inr xs" for j ws xs
        using sort_pair_sorting [OF that(3) _ that(2) assms(2) that(4)] that(1) by simp
    qed (use k in simp)
    then show "sorting n rs (Suc k) (Suc (Suc k)) vs" by (auto simp: sorting_def less_Suc_eq)
  qed simp
  with assms show "length ts = length rs" "mset (take n ts) = mset (take n rs)" "drop n ts = drop n rs"
    "sorted_wrt region_le (take n ts)"
    by (simp_all add: sorting_def sorted_wrt_iff_nth_less)
qed

lemma for_each_take: "for_each_memregion rs = take (length (for_each_memregion rs)) rs"
  unfolding for_each_memregion_def by (rule takeWhile_eq_take)

lemma for_each_nonzero: "r \<in> set (for_each_memregion rs) \<Longrightarrow> order r \<noteq> 0"
  by (auto simp: for_each_memregion_def dest: set_takeWhileD)

lemma for_each_perm:
  assumes "mset (take n ts) = mset (take n rs)" and "drop n ts = drop n rs" and "n = length (for_each_memregion rs)"
  shows "for_each_memregion ts = take n ts"
proof -
  have rs: "take n rs = for_each_memregion rs" using assms(3) for_each_take by metis
  have "set (take n ts) = set (for_each_memregion rs)" using arg_cong [OF assms(1), of set_mset] by (simp add: rs)
  then have nz: "order r \<noteq> 0" if "r \<in> set (take n ts)" for r using that for_each_nonzero by auto
  have "takeWhile (\<lambda>r. order r \<noteq> 0) (drop n ts) = []"
  proof (cases "drop n rs")
    case (Cons r xs)
    then have "\<not> order r \<noteq> 0"
      using nth_length_takeWhile [of "\<lambda>r. order r \<noteq> 0" rs] assms(3)
      by (metis drop_eq_Nil for_each_memregion_def list.distinct(1) list.sel(1) hd_drop_conv_nth not_le)
    with Cons assms(2) show ?thesis by simp
  qed (use assms(2) in simp)
  moreover have "for_each_memregion ts = take n ts @ takeWhile (\<lambda>r. order r \<noteq> 0) (drop n ts)"
    unfolding for_each_memregion_def using takeWhile_append2 [of "take n ts" _ "drop n ts"] nz by simp
  ultimately show ?thesis by simp
qed

text \<open>What an accepted domain satisfies.\<close>

lemma sanitize_accepts:
  assumes "sanitize_domain fw plat d = (0, e)"
  obtains pm rs ts where "possible_harts d = Some pm" "regions d = Some rs" "e = d\<lparr>regions := Some ts\<rparr>"
    "\<forall>h \<in> set (sbi_hartmask_for_each_hart pm). \<not> sbi_platform_hart_invalid plat h"
    "length ts = length rs" "mset (for_each_memregion ts) = mset (for_each_memregion rs)"
    "drop (length (for_each_memregion rs)) ts = drop (length (for_each_memregion rs)) rs"
    "sorted_wrt region_le (for_each_memregion ts)"
    "\<forall>r \<in> set (for_each_memregion ts). is_region_valid r" "fw \<in> set (for_each_memregion ts)"
    "next_mode e = PRV_S \<or> next_mode e = PRV_U" "sbi_domain_check_addr (Some e) (next_addr e) (next_mode e) SBI_DOMAIN_EXECUTE"
proof -
  have nz: "SBI_EINVAL \<noteq> 0" by (simp add: SBI_EINVAL_def)
  obtain pm rs where pm: "possible_harts d = Some pm" "regions d = Some rs"
    using assms nz by (auto simp: sanitize_domain_def split: option.splits if_splits)
  let ?n = "length (for_each_memregion rs)"
  have c: "\<not> list_ex (sbi_platform_hart_invalid plat) (sbi_hartmask_for_each_hart pm)"
    "\<not> list_ex (\<lambda>reg. \<not> is_region_valid reg) (for_each_memregion rs)"
    "list_ex (\<lambda>reg. order reg = order fw \<and> base reg = base fw \<and> flags reg = flags fw) (for_each_memregion rs)"
    using assms nz pm by (auto simp: sanitize_domain_def split: if_splits)
  have f: "fw \<in> set (for_each_memregion rs)" proof -
    obtain reg where "reg \<in> set (for_each_memregion rs)" "order reg = order fw" "base reg = base fw" "flags reg = flags fw"
      using c(3) by (auto simp: list_ex_iff)
    moreover from this have "reg = fw" by (intro sbi_domain_memregion.equality) simp_all
    ultimately show ?thesis by simp
  qed
  then have pos: "0 < ?n" by auto
  have Inl: "rc = SBI_EINVAL" if "sort_regions ?n rs = Inl (rc, ts)" for rc ts
  proof -
    have inner: "foldE (sort_pair i) js us = Inl (rc, ts) \<Longrightarrow> rc = SBI_EINVAL" for i js us rc ts
      by (induction js arbitrary: us) (auto simp: res_simps sort_pair_def Let_def split: if_splits)
    have outer: "foldE (\<lambda>i. foldE (sort_pair i) (g i)) is us = Inl (rc, ts) \<Longrightarrow> rc = SBI_EINVAL" for g "is" us rc ts
      by (induction "is" arbitrary: us) (auto simp: res_simps dest: inner)
    show ?thesis using that unfolding sort_regions_def by (rule outer)
  qed
  obtain ts where ts: "sort_regions ?n rs = Inr ts"
    using assms c pm nz Inl by (cases "sort_regions ?n rs") (auto simp: sanitize_domain_def Let_def)
  have e: "e = d\<lparr>regions := Some ts\<rparr>" "next_mode e = PRV_S \<or> next_mode e = PRV_U"
    "sbi_domain_check_addr (Some e) (next_addr e) (next_mode e) SBI_DOMAIN_EXECUTE"
    using assms c pm nz ts by (auto simp: sanitize_domain_def Let_def split: if_splits)
  have "?n \<le> length rs" by (simp add: for_each_memregion_def length_takeWhile_le)
  note so = sort_regions_sorting [OF ts this pos]
  have fe: "for_each_memregion ts = take ?n ts" "take ?n rs = for_each_memregion rs"
    using for_each_perm [OF so(2,3) refl] for_each_take [of rs] by simp_all
  have m: "mset (for_each_memregion ts) = mset (for_each_memregion rs)" using so(2) fe by simp
  have st: "set (for_each_memregion ts) = set (for_each_memregion rs)" using arg_cong [OF m, of set_mset] by simp
  show thesis
    using that [OF pm e(1) _ so(1) m so(3) _ _ _ e(2,3)] so(4) c(1,2) f by (simp add: fe(1) st [unfolded fe(1)] list_ex_iff)
qed

partial_function (option) root_merge :: "sbi_platform option \<Rightarrow> domain_state \<Rightarrow> (int \<times> domain_state) option" where
  "root_merge plat s =
     (let (rc, dd) = sanitize_domain (root_fw_region s) plat (domains s root); s = upd_domain root (\<lambda>_. dd) s in
      if rc \<noteq> 0 then Some (rc, s)
      else
        let (rs, k) = merge_pass (the (regions dd));
            s = (upd_domain root (\<lambda>d. d\<lparr>regions := Some rs\<rparr>) s)\<lparr>root_memregs_count := root_memregs_count s - k\<rparr>
        in if k \<noteq> 0 then root_merge plat s else Some (0, s))"

declare root_merge.simps [code]

definition sbi_domain_root_add_memregion ::
    "sbi_platform option \<Rightarrow> sbi_domain_memregion option \<Rightarrow> domain_state \<Rightarrow> (int \<times> domain_state) option" where
  "sbi_domain_root_add_memregion plat rp s =
     (case rp of None \<Rightarrow> Some (SBI_EINVAL, s)
      | Some reg \<Rightarrow>
          if domain_finalized s \<or> ROOT_REGION_MAX \<le> root_memregs_count s then Some (SBI_EINVAL, s)
          else
            let rs = the (regions (domains s root)) in
            if list_ex (is_region_conflict reg) (for_each_memregion rs) then Some (SBI_EALREADY, s)
            else
              let rs = rs[root_memregs_count s := reg];
                  c = root_memregs_count s + 1;
                  rs = rs[c := (rs ! c)\<lparr>order := 0\<rparr>]
              in root_merge plat ((upd_domain root (\<lambda>d. d\<lparr>regions := Some rs\<rparr>) s)\<lparr>root_memregs_count := c\<rparr>))"

partial_function (option) memrange_loop ::
    "sbi_platform option \<Rightarrow> u64 \<Rightarrow> u64 \<Rightarrow> u64 \<Rightarrow> u64 \<Rightarrow> domain_state \<Rightarrow> (int \<times> domain_state) option" where
  "memrange_loop plat pos fin align region_flags s =
     (if pos < fin then
        let rsize = (if pos AND (align - 1) \<noteq> 0 then push_bit (sbi_ffs pos) 1
                     else if fin - pos < align then fin - pos else align)
        in Option.bind (sbi_domain_root_add_memregion plat (Some (sbi_domain_memregion_init pos rsize region_flags)) s)
             (\<lambda>(rc, s). if rc \<noteq> 0 then Some (rc, s) else memrange_loop plat (pos + rsize) fin align region_flags s)
      else Some (0, s))"

declare memrange_loop.simps [code]

definition sbi_domain_root_add_memrange ::
    "sbi_platform option \<Rightarrow> u64 \<Rightarrow> u64 \<Rightarrow> u64 \<Rightarrow> u64 \<Rightarrow> domain_state \<Rightarrow> (int \<times> domain_state) option" where
  "sbi_domain_root_add_memrange plat addr sz align region_flags s = memrange_loop plat addr (addr + sz) align region_flags s"

section \<open>Start\<close>

definition no_region :: sbi_domain_memregion where "no_region = \<lparr>order = 0, base = 0, flags = 0\<rparr>"

definition root_reset :: sbi_domain where
  "root_reset = \<lparr>index = 0, assigned_harts = \<lparr>bits = [0, 0]\<rparr>, possible_harts = Some \<lparr>bits = [0, 0]\<rparr>,
     regions = Some (replicate (ROOT_REGION_MAX + 1) no_region), boot_hartid = 0, next_arg1 = 0, next_addr = 0,
     next_mode = 0, system_reset_allowed = True\<rparr>"

text \<open>The static variables before the first call; \<open>doms\<close> are the platform's own domains.\<close>

definition domain_reset :: "(nat \<Rightarrow> sbi_domain) \<Rightarrow> domain_state" where
  "domain_reset doms = \<lparr>domains = doms(root := root_reset), hartid_to_domain_table = \<lambda>_. None, domidx_to_domain_table = [],
     domain_finalized = False, root_memregs_count = 0, root_fw_region = no_region\<rparr>"

definition sbi_domain_init :: "sbi_platform option \<Rightarrow> sbi_scratch \<Rightarrow> nat \<Rightarrow> domain_state \<Rightarrow> int \<times> domain_state" where
  "sbi_domain_init plat scratch cold_hartid s =
     (let fw = sbi_domain_memregion_init (fw_start scratch) (fw_size scratch) 0;
          s = s\<lparr>root_fw_region := fw\<rparr>;
          c = root_memregs_count s;
          rs = (the (regions (domains s root)))[c := fw,
            c + 1 := sbi_domain_memregion_init 0 (NOT 0)
              (SBI_DOMAIN_MEMREGION_READABLE OR SBI_DOMAIN_MEMREGION_WRITEABLE OR SBI_DOMAIN_MEMREGION_EXECUTABLE)];
          rs = rs[c + 2 := (rs ! (c + 2))\<lparr>order := 0\<rparr>];
          s = s\<lparr>root_memregs_count := c + 2\<rparr>;
          hmask = fold (\<lambda>i m. if sbi_platform_hart_invalid plat i then m else sbi_hartmask_set_hart i m)
            [0..<SBI_HARTMASK_MAX_BITS] (the (possible_harts (domains s root)));
          s = upd_domain root (\<lambda>d. d\<lparr>regions := Some rs, boot_hartid := cold_hartid,
            next_arg1 := sbi_scratch.next_arg1 scratch, next_addr := sbi_scratch.next_addr scratch,
            next_mode := sbi_scratch.next_mode scratch, possible_harts := Some hmask\<rparr>) s
      in sbi_domain_register plat cold_hartid (Some root) (Some hmask) s)"

section \<open>Regions and the access check\<close>

definition region_contains :: "sbi_domain_memregion \<Rightarrow> u64 \<Rightarrow> bool" where
  "region_contains r a \<longleftrightarrow> base r \<le> a \<and> a \<le> region_end r"

definition access_ok :: "sbi_domain_memregion \<Rightarrow> u64 \<Rightarrow> bool" where
  "access_ok r af \<longleftrightarrow> (af AND SBI_DOMAIN_MMIO \<noteq> 0 \<longleftrightarrow> flags r AND SBI_DOMAIN_MEMREGION_MMIO \<noteq> 0) \<and>
     flags r AND access_rwx af = access_rwx af"

text \<open>Domain checks find the first region that holds the address.\<close>

lemma check_regions_first:
  "mode \<noteq> PRV_M \<Longrightarrow> check_regions a mode (access_rwx af) (af AND SBI_DOMAIN_MMIO \<noteq> 0) rs \<longleftrightarrow>
     (case find (\<lambda>r. region_contains r a) rs of None \<Rightarrow> False | Some r \<Rightarrow> access_ok r af)"
  by (induction rs) (auto simp: Let_def region_contains_def access_ok_def)

lemma domain_check_find:
  "regions d = Some rs \<Longrightarrow> mode \<noteq> PRV_M \<Longrightarrow> sbi_domain_check_addr (Some d) a mode af \<longleftrightarrow>
     (case find (\<lambda>r. region_contains r a) (for_each_memregion rs) of None \<Rightarrow> False | Some r \<Rightarrow> access_ok r af)"
  by (simp add: sbi_domain_check_addr_def check_regions_first)

lemma find_least:
  assumes "sorted_wrt region_le rs" and "r \<in> set rs" and "P r" and "\<forall>r' \<in> set rs. P r' \<longrightarrow> r' \<noteq> r \<longrightarrow> order r < order r'"
  shows "find P rs = Some r"
  using assms by (induction rs) (auto simp: region_le_iff)

lemma memregion_order_cases:
  assumes "memregion_order addr sz ord = (m, b)" and "ord \<le> 64"
  shows "ord \<le> m \<and> m \<le> 64 \<and> (if m < 64 then b = addr AND NOT (push_bit m 1 - 1) \<and> b \<le> addr \<and> addr < b + push_bit m 1 \<and>
    b \<le> addr + sz - 1 \<and> addr + sz - 1 < b + push_bit m 1 else b = 0)"
  using assms
proof (induction addr sz ord rule: memregion_order.induct)
  case (1 addr sz ord)
  let ?b = "addr AND NOT (push_bit ord 1 - 1)"
  show ?case
  proof (cases "ord < 64")
    case True
    show ?thesis
    proof (cases "?b \<le> addr \<and> addr < ?b + push_bit ord 1 \<and> ?b \<le> addr + sz - 1 \<and> addr + sz - 1 < ?b + push_bit ord 1")
      case yes: True
      then have "m = ord" "b = ?b" using 1(2) True by (auto simp: memregion_order.simps [of addr sz ord] Let_def)
      with yes True show ?thesis by simp
    next
      case no: False
      have "memregion_order addr sz (ord + 1) = (m, b)"
        using 1(2) unfolding memregion_order.simps [of addr sz ord] Let_def if_P [OF True] if_not_P [OF no] .
      with 1(1) [OF True refl no] True show ?thesis by auto
    qed
  next
    case False
    with 1(2,3) show ?thesis by (simp add: memregion_order.simps [of addr sz ord])
  qed
qed

lemma le_minus_one: "(a :: u64) < y \<Longrightarrow> a \<le> y - 1"
proof -
  assume "a < y"
  then have "y \<noteq> 0" and "unat a < unat y" by (auto simp: word_less_nat_alt)
  then show ?thesis by (simp add: word_le_nat_alt unat_minus_one)
qed

lemma unat_order: "m \<le> 64 \<Longrightarrow> unat (word_of_nat m :: u64) = m"
  by (simp add: unat_word_of_nat64)

lemma log2roundup_le: "log2roundup x \<le> 64"
proof -
  have "log2roundup_loop x k \<le> 64" if "k \<le> 64" for k
    using that by (induction x k rule: log2roundup_loop.induct) (auto simp: log2roundup_loop.simps)
  then show ?thesis by (simp add: log2roundup_def)
qed

lemma memregion_init_spec:
  fixes addr sz fl :: u64
  defines "r \<equiv> sbi_domain_memregion_init addr sz fl"
  shows "flags r = fl" and "unat (order r) \<le> 64" and "log2roundup sz \<le> unat (order r)"
    and "order r < 64 \<Longrightarrow> base r AND (BIT (order r) - 1) = 0" and "\<not> order r < 64 \<Longrightarrow> order r = 64 \<and> base r = 0"
    and "addr \<le> a \<Longrightarrow> a \<le> addr + sz - 1 \<Longrightarrow> region_contains r a"
proof -
  obtain m b where mb: "memregion_order addr sz (log2roundup sz) = (m, b)" by fastforce
  have r: "r = \<lparr>order = word_of_nat m, base = b, flags = fl\<rparr>" by (simp add: r_def sbi_domain_memregion_init_def mb)
  note c = memregion_order_cases [OF mb log2roundup_le]
  then have m: "m \<le> 64" by blast
  have u: "unat (order r) = m" using unat_order [OF m] by (simp add: r)
  have lt: "order r < 64 \<longleftrightarrow> m < 64" using u by (simp add: word_less_nat_alt)
  show "flags r = fl" by (simp add: r)
  show "unat (order r) \<le> 64" using u m by simp
  show "log2roundup sz \<le> unat (order r)" using u c by simp
  show "order r < 64 \<Longrightarrow> base r AND (BIT (order r) - 1) = 0"
    using c lt u by (simp add: r BIT_def and.assoc)
  show "\<not> order r < 64 \<Longrightarrow> order r = 64 \<and> base r = 0"
    using c lt m by (auto simp: r)
  assume a: "addr \<le> a" "a \<le> addr + sz - 1"
  show "region_contains r a"
  proof (cases "m < 64")
    case True
    then have "b \<le> a" "a < b + push_bit m 1" using c a by (auto intro: order_trans order_le_less_trans)
    then show ?thesis using True lt u le_minus_one [of a] by (auto simp: region_contains_def region_end_def BIT_def r algebra_simps)
  next
    case False
    then show ?thesis using c lt by (simp add: region_contains_def region_end_def r)
  qed
qed

text \<open>
  The region \<^verbatim>\<open>sbi_domain_memregion_init\<close> makes for a range of addresses has a power
  of two as its size, is aligned to its size (or is the whole address space) and contains
  every address of the range; the loop over the orders ends.
\<close>

lemma memregion_init_covers:
  fixes addr sz fl :: u64
  defines "r \<equiv> sbi_domain_memregion_init addr sz fl"
  shows "(if order r < 64 then base r AND (BIT (order r) - 1) = 0 else order r = 64 \<and> base r = 0) \<and> flags r = fl \<and>
    (\<forall>a. addr \<le> a \<longrightarrow> a \<le> addr + sz - 1 \<longrightarrow> region_contains r a)"
  unfolding r_def using memregion_init_spec(1,4,5) memregion_init_spec(6) [of addr] by auto

definition region_all :: sbi_domain_memregion where "region_all = \<lparr>order = 64, base = 0, flags = 7\<rparr>"

lemma region_contains_all [simp]: "region_contains region_all a"
  by (simp add: region_contains_def region_end_def region_all_def)

lemma access_ok_all: "access_ok region_all af \<longleftrightarrow> af AND SBI_DOMAIN_MMIO = 0"
  by (auto simp: access_ok_def region_all_def access_rwx_def)

lemma log2roundup_max: "log2roundup (- 1) = 64"
proof -
  have ne: "push_bit k 1 \<noteq> (- 1 :: u64)" for k
  proof
    assume "push_bit k 1 = (- 1 :: u64)"
    from arg_cong [OF this, of "\<lambda>w. bit w 0"] arg_cong [OF this, of "\<lambda>w. bit w 1"] show False
      by (simp add: bit_simps)
  qed
  have "k \<le> 64 \<Longrightarrow> log2roundup_loop (- 1) k = 64" for k
  proof (induction "- 1 :: u64" k rule: log2roundup_loop.induct)
    case (1 k)
    have "\<not> (- 1 :: u64) \<le> push_bit k 1" using ne [of k] by (metis word_order.extremum_unique)
    with 1 show ?case by (simp add: log2roundup_loop.simps [of _ k])
  qed
  then show ?thesis by (simp add: log2roundup_def)
qed

lemma memregion_init_all: "sbi_domain_memregion_init 0 (- 1) 7 = region_all"
proof -
  let ?r = "sbi_domain_memregion_init 0 (- 1) 7"
  have "unat (order ?r) = 64"
    using memregion_init_spec(2) [of 0 "- 1" 7] memregion_init_spec(3) [where sz = "- 1" and addr = 0 and fl = 7]
    by (simp add: log2roundup_max)
  then have "\<not> order ?r < 64" by (simp add: word_less_nat_alt)
  then show ?thesis using memregion_init_spec(1,5) [of 0 "- 1" 7] by (simp add: region_all_def)
qed

lemma sanitize_fw_all:
  assumes "regions d = Some (fw # region_all # z # rs)" and "order z = 0" and "flags fw = 0" and "is_region_valid fw"
    and "possible_harts d = Some pm" and "\<forall>h \<in> set (sbi_hartmask_for_each_hart pm). \<not> sbi_platform_hart_invalid plat h"
    and "next_mode d = PRV_S \<or> next_mode d = PRV_U" and "\<not> region_contains fw (next_addr d)"
  shows "sanitize_domain fw plat d = (0, d)"
proof -
  have fwo: "order fw \<noteq> 0" "order fw \<le> 64" "order fw = 64 \<longrightarrow> base fw = 0" using assms(4) by (auto simp: is_region_valid_def split: if_splits)
  have fe: "for_each_memregion (fw # region_all # z # rs) = [fw, region_all]"
    using fwo(1) assms(2) by (simp add: for_each_memregion_def region_all_def)
  have "\<not> is_region_conflict region_all fw" "\<not> is_region_before region_all fw"
    using fwo assms(3) by (auto simp: is_region_conflict_def is_region_before_def region_all_def)
  then have so: "sort_regions 2 (fw # region_all # z # rs) = Inr (fw # region_all # z # rs)"
    by (simp add: sort_regions_def upt_rec sort_pair_def)
  have va: "is_region_valid region_all" by (simp add: is_region_valid_def region_all_def)
  have m: "next_mode d \<noteq> PRV_M" using assms(7) by auto
  have ck: "sbi_domain_check_addr (Some d) (next_addr d) (next_mode d) SBI_DOMAIN_EXECUTE"
    using assms(8) by (simp add: domain_check_find [OF assms(1) m] fe access_ok_all)
  have d: "d\<lparr>regions := Some (fw # region_all # z # rs)\<rparr> = d" using assms(1) by (cases d) simp
  have "list_ex (\<lambda>r. \<not> is_region_valid r) [fw, region_all] = False" using assms(4) va by simp
  then show ?thesis
    using assms(1,5-7) so ck
    by (auto simp: sanitize_domain_def list_ex_iff Let_def fe numeral_2_eq_2 [symmetric] d)
qed

text \<open>
  C17: In a domain that passed the sanity check, an access from supervisor or user mode is
  decided by the smallest region that contains the address: when one region is smaller than
  every other that contains the address, its flags alone decide, and an address in no region
  is refused. The order in which the regions were given does not matter.
\<close>

theorem domain_check_smallest:
  assumes "sanitize_domain fw plat d = (0, e)" and "regions d = Some rs" and "mode \<noteq> PRV_M"
  shows "(\<forall>r \<in> set (for_each_memregion rs). region_contains r a \<longrightarrow>
      (\<forall>r' \<in> set (for_each_memregion rs). region_contains r' a \<longrightarrow> r' \<noteq> r \<longrightarrow> order r < order r') \<longrightarrow>
      sbi_domain_check_addr (Some e) a mode af = access_ok r af) \<and>
    ((\<forall>r \<in> set (for_each_memregion rs). \<not> region_contains r a) \<longrightarrow> \<not> sbi_domain_check_addr (Some e) a mode af)"
proof -
  from assms(1) obtain ts where ts: "e = d\<lparr>regions := Some ts\<rparr>" "mset (for_each_memregion ts) = mset (for_each_memregion rs)"
    "sorted_wrt region_le (for_each_memregion ts)"
    using assms(2) by (elim sanitize_accepts) auto
  have set_eq: "set (for_each_memregion ts) = set (for_each_memregion rs)" using arg_cong [OF ts(2), of set_mset] by simp
  have c: "sbi_domain_check_addr (Some e) a mode af \<longleftrightarrow>
      (case find (\<lambda>r. region_contains r a) (for_each_memregion ts) of None \<Rightarrow> False | Some r \<Rightarrow> access_ok r af)"
    using assms(3) by (simp add: ts(1) domain_check_find)
  have "(\<forall>r \<in> set (for_each_memregion rs). \<not> region_contains r a) \<longrightarrow> find (\<lambda>r. region_contains r a) (for_each_memregion ts) = None"
    by (simp add: find_None_iff set_eq)
  then show ?thesis using find_least [OF ts(3), of _ "\<lambda>r. region_contains r a"] by (auto simp: c set_eq)
qed

definition sample_domain :: sbi_domain where
  "sample_domain = root_reset\<lparr>regions := Some [\<lparr>order = 18, base = 0x80000000, flags = 0\<rparr>, region_all, no_region],
     next_mode := PRV_S, next_addr := 0x80200000\<rparr>"

lemma sample_domain_sane:
  "sanitize_domain \<lparr>order = 18, base = 0x80000000, flags = 0\<rparr> plat sample_domain = (0, sample_domain)"
proof (rule sanitize_fw_all [where z = no_region and rs = "[]" and pm = "\<lparr>bits = [0, 0]\<rparr>"])
  show "\<forall>h \<in> set (sbi_hartmask_for_each_hart \<lparr>bits = [0, 0]\<rparr>). \<not> sbi_platform_hart_invalid plat h"
    by (auto simp: for_each_hart_list mask_wf_def mask_words harts_iff bmap_bit_two SBI_HARTMASK_MAX_BITS_def)
qed (simp_all add: sample_domain_def root_reset_def no_region_def is_region_valid_def BIT_def region_contains_def region_end_def)

theorem domain_check_smallest_witness:
  "\<not> sbi_domain_check_addr (Some sample_domain) 0x80001000 PRV_S SBI_DOMAIN_READ"
proof -
  let ?fw = "\<lparr>order = 18, base = 0x80000000, flags = 0\<rparr> :: sbi_domain_memregion"
  have rs: "regions sample_domain = Some [?fw, region_all, no_region]" by (simp add: sample_domain_def)
  have "for_each_memregion [?fw, region_all, no_region] = [?fw, region_all]"
    by (simp add: for_each_memregion_def region_all_def no_region_def)
  moreover have "region_contains ?fw 0x80001000" by (simp add: region_contains_def region_end_def BIT_def)
  moreover have "\<not> access_ok ?fw SBI_DOMAIN_READ" by (simp add: access_ok_def access_rwx_def)
  ultimately show ?thesis
    using domain_check_smallest [OF sample_domain_sane rs, of PRV_S "0x80001000" SBI_DOMAIN_READ] by (simp add: region_all_def)
qed

section \<open>Assignment of harts\<close>

text \<open>
  The two views of the assignment agree: a hart's table entry is a registered domain whose mask
  has the hart, so no hart belongs to two domains.
\<close>

definition dom_inv :: "domain_state \<Rightarrow> bool" where
  "dom_inv s \<longleftrightarrow> distinct (domidx_to_domain_table s) \<and>
     (\<forall>d \<in> set (domidx_to_domain_table s). mask_wf (assigned_harts (domains s d))) \<and>
     (\<forall>h d. hartid_to_domain_table s h = Some d \<longleftrightarrow>
        d \<in> set (domidx_to_domain_table s) \<and> h \<in> harts (assigned_harts (domains s d)))"

lemma sanitize_regions_only: "(snd (sanitize_domain fw plat d))\<lparr>regions := rs\<rparr> = d\<lparr>regions := rs\<rparr>"
  by (simp add: sanitize_domain_def Let_def split: option.split sum.split)

lemma assign_hart_spec:
  fixes s :: domain_state and cold :: nat
  assumes "dom_inv s" and "d \<in> set (domidx_to_domain_table s)" and "i < SBI_HARTMASK_MAX_BITS"
    and "possible_harts (domains s d) = Some pm"
  defines "t \<equiv> assign_hart cold d i s"
  shows "dom_inv t" and "domidx_to_domain_table t = domidx_to_domain_table s" and "possible_harts (domains t d) = Some pm"
    and "hartid_to_domain_table t = (if i \<in> harts pm then (hartid_to_domain_table s)(i \<mapsto> d) else hartid_to_domain_table s)"
proof -
  have test: "sbi_hartmask_test_hart i pm \<longleftrightarrow> i \<in> harts pm" by (simp add: harts_def)
  have inv: "hartid_to_domain_table s h = Some e \<longleftrightarrow> e \<in> set (domidx_to_domain_table s) \<and> h \<in> harts (assigned_harts (domains s e))"
    and wf: "e \<in> set (domidx_to_domain_table s) \<Longrightarrow> mask_wf (assigned_harts (domains s e))" for h e
    using assms(1) by (auto simp: dom_inv_def)
  have m: "mask_wf (assigned_harts (domains t e)) = mask_wf (assigned_harts (domains s e))" for e
    by (simp add: t_def assign_hart_def upd_domain_def Let_def split: option.splits)
  show tab: "hartid_to_domain_table t = (if i \<in> harts pm then (hartid_to_domain_table s)(i \<mapsto> d) else hartid_to_domain_table s)"
    and idx: "domidx_to_domain_table t = domidx_to_domain_table s" and "possible_harts (domains t d) = Some pm"
    using assms(4) by (simp_all add: t_def assign_hart_def upd_domain_def Let_def test split: option.splits)
  have h: "harts (assigned_harts (domains t e)) =
      (if i \<in> harts pm then if e = d then insert i (harts (assigned_harts (domains s e)))
       else harts (assigned_harts (domains s e)) - {i} else harts (assigned_harts (domains s e)))"
    if "e \<in> set (domidx_to_domain_table s)" for e
    using that wf [OF that] assms(2-4) inv [of i e]
    by (auto simp: t_def assign_hart_def upd_domain_def Let_def test harts_set harts_clear split: option.splits)
  show "dom_inv t"
    unfolding dom_inv_def idx using assms(1,2) wf
    by (auto simp: m h tab inv dom_inv_def split: if_splits)
qed

lemma assign_harts_spec:
  assumes "dom_inv s" and "d \<in> set (domidx_to_domain_table s)" and "\<forall>i \<in> set is. i < SBI_HARTMASK_MAX_BITS"
    and "possible_harts (domains s d) = Some pm"
  shows "dom_inv (fold (assign_hart cold d) is s) \<and>
    domidx_to_domain_table (fold (assign_hart cold d) is s) = domidx_to_domain_table s \<and>
    hartid_to_domain_table (fold (assign_hart cold d) is s) =
      (\<lambda>h. if h \<in> set is \<inter> harts pm then Some d else hartid_to_domain_table s h)"
  using assms
proof (induction "is" arbitrary: s)
  case (Cons i "is")
  note a = assign_hart_spec [OF Cons.prems(1,2) _ Cons.prems(4), of i cold]
  have i: "i < SBI_HARTMASK_MAX_BITS" using Cons.prems(3) by simp
  have "d \<in> set (domidx_to_domain_table (assign_hart cold d i s))" using a(2) [OF i] Cons.prems(2) by simp
  from Cons.IH [OF a(1) [OF i] this _ a(3) [OF i]] Cons.prems(3) show ?case
    by (auto simp: a(2,4) [OF i] fun_eq_iff)
qed auto

lemma register_spec:
  assumes "dom_inv s" and "mask_wf (assigned_harts (domains s d))" and "mask_wf am"
    and "sbi_domain_register plat cold (Some d) (Some am) s = (rc, t)"
  shows "dom_inv t \<and> (if rc = 0 then \<exists>pm. possible_harts (domains s d) = Some pm \<and>
      hartid_to_domain_table t = (\<lambda>h. if h \<in> harts am \<inter> harts pm then Some d else hartid_to_domain_table s h) \<and>
      domidx_to_domain_table t = domidx_to_domain_table s @ [d]
    else hartid_to_domain_table t = hartid_to_domain_table s \<and> domidx_to_domain_table t = domidx_to_domain_table s)"
proof (cases "domain_finalized s \<or> d \<in> set (domidx_to_domain_table s) \<or> SBI_DOMAIN_MAX_INDEX \<le> length (domidx_to_domain_table s)")
  case True
  then have "rc \<noteq> 0 \<and> t = s" using assms(4) unfolding sbi_domain_register_def sbi_error_defs
    by (cases "domain_finalized s"; cases "d \<in> set (domidx_to_domain_table s)") auto
  with assms(1) show ?thesis by simp
next
  case False
  obtain c e where ce: "sanitize_domain (root_fw_region s) plat (domains s d) = (c, e)" by fastforce
  have ae: "assigned_harts e = assigned_harts (domains s d)"
    using sanitize_regions_only [where fw = "root_fw_region s" and plat = plat and d = "domains s d" and rs = None] unfolding ce
    by (metis sbi_domain.select_convs(2) sbi_domain.surjective sbi_domain.update_convs(4) snd_conv)
  show ?thesis
  proof (cases "c = 0")
    case no: False
    then have "rc = c" "t = upd_domain d (\<lambda>_. e) s" using assms(4) False ce by (auto simp: sbi_domain_register_def Let_def)
    with no assms(1) False show ?thesis by (auto simp: dom_inv_def upd_domain_def)
  next
    case True
    obtain pm where pm: "possible_harts (domains s d) = Some pm" "possible_harts e = Some pm"
      using ce True by (auto elim!: sanitize_accepts)
    define u where "u = upd_domain d (\<lambda>t. t\<lparr>assigned_harts := sbi_hartmask_clear_all (assigned_harts t)\<rparr>)
      ((upd_domain d (\<lambda>t. t\<lparr>index := length (domidx_to_domain_table s)\<rparr>) (upd_domain d (\<lambda>_. e) s))
         \<lparr>domidx_to_domain_table := domidx_to_domain_table s @ [d]\<rparr>)"
    have t: "rc = 0" "t = fold (assign_hart cold d) (sbi_hartmask_for_each_hart am) u"
      using assms(4) False ce True by (auto simp: sbi_domain_register_def Let_def upd_domain_def u_def)
    have u: "dom_inv u" "d \<in> set (domidx_to_domain_table u)" "possible_harts (domains u d) = Some pm"
      using assms(1,2) False ae harts_clear_all [of "assigned_harts e"] pm by (auto simp: dom_inv_def upd_domain_def u_def)
    have tabs: "domidx_to_domain_table u = domidx_to_domain_table s @ [d]" "hartid_to_domain_table u = hartid_to_domain_table s"
      by (simp_all add: u_def upd_domain_def)
    have l: "set (sbi_hartmask_for_each_hart am) = harts am"
      using harts_below [of am] by (auto simp: for_each_hart_list [OF assms(3)])
    have "\<forall>i \<in> set (sbi_hartmask_for_each_hart am). i < SBI_HARTMASK_MAX_BITS" unfolding l using harts_below by blast
    from assign_harts_spec [OF u(1,2) this u(3), of cold, unfolded tabs l, folded t(2)] show ?thesis
      using t(1) pm(1) by simp
  qed
qed

text \<open>
  C14: Registration keeps the assignment of harts a partition: after any call, successful or
  not, every hart's table entry is a registered domain and the masks of the registered
  domains hold exactly the harts whose entry they are. A successful call gives the new domain
  the harts that are both requested and possible, takes them from the domains that had them,
  and leaves all others alone; a failed call changes no assignment.
\<close>

theorem register_partition:
  assumes "dom_inv s" and "mask_wf (assigned_harts (domains s d))" and "mask_wf am"
    and "sbi_domain_register plat cold (Some d) (Some am) s = (rc, t)"
  shows "dom_inv t \<and> (if rc = 0 then \<exists>pm. possible_harts (domains s d) = Some pm \<and>
      hartid_to_domain_table t = (\<lambda>h. if h \<in> harts am \<inter> harts pm then Some d else hartid_to_domain_table s h) \<and>
      domidx_to_domain_table t = domidx_to_domain_table s @ [d]
    else hartid_to_domain_table t = hartid_to_domain_table s \<and> domidx_to_domain_table t = domidx_to_domain_table s)"
  by (rule register_spec [OF assms])

text \<open>
  At the witness, a platform without harts registers the sample domain.
\<close>

theorem register_partition_witness:
  "\<exists>t. sbi_domain_register None 0 (Some 0) (Some \<lparr>bits = [1, 0]\<rparr>)
     ((domain_reset (\<lambda>_. sample_domain))\<lparr>domains := \<lambda>_. sample_domain, root_fw_region := \<lparr>order = 18, base = 0x80000000, flags = 0\<rparr>\<rparr>)
     = (0, t) \<and> dom_inv t \<and> domidx_to_domain_table t = [0]"
proof -
  let ?s = "(domain_reset (\<lambda>_. sample_domain))\<lparr>domains := \<lambda>_. sample_domain,
    root_fw_region := \<lparr>order = 18, base = 0x80000000, flags = 0\<rparr>\<rparr>"
  obtain t where t: "sbi_domain_register None 0 (Some 0) (Some \<lparr>bits = [1, 0]\<rparr>) ?s = (0, t)"
    using sample_domain_sane by (simp add: sbi_domain_register_def domain_reset_def SBI_DOMAIN_MAX_INDEX_def Let_def)
  have "dom_inv ?s" "mask_wf (assigned_harts (domains ?s 0))" "mask_wf \<lparr>bits = [1, 0]\<rparr>" "domidx_to_domain_table ?s = []"
    by (simp_all add: dom_inv_def domain_reset_def sample_domain_def root_reset_def mask_wf_def mask_words)
  with register_partition [OF _ _ _ t] t show ?thesis by auto
qed

end
