(* ===== verification/SbiRoot.thy ===== *)
theory SbiRoot
  imports SbiDomain
begin

text \<open>
  The root domain of the firmware: what \<^verbatim>\<open>sbi_domain_init\<close> establishes, adding regions
  with \<^verbatim>\<open>sbi_domain_root_add_memregion\<close>, and two weaknesses of the sanity check and the
  merging of regions in \<^verbatim>\<open>opensbi-1.2/lib/sbi/sbi_domain.c\<close>.
\<close>

section \<open>The root domain protects the firmware\<close>

lemma fold_set_harts:
  "mask_wf m \<Longrightarrow> mask_wf (fold (\<lambda>i m. if P i then m else sbi_hartmask_set_hart i m) xs m) \<and>
     harts (fold (\<lambda>i m. if P i then m else sbi_hartmask_set_hart i m) xs m) =
       harts m \<union> {i \<in> set xs. \<not> P i \<and> i < SBI_HARTMASK_MAX_BITS}"
  by (induction xs arbitrary: m) (auto simp: harts_set)

lemma assign_harts_regions: "regions (domains (fold (assign_hart cold d) xs s) e) = regions (domains s e)"
  by (induction xs arbitrary: s) (simp_all add: assign_hart_def upd_domain_def Let_def split: option.split)

lemma log2roundup_loop_ge: "k \<le> log2roundup_loop sz k"
proof (induction sz k rule: log2roundup_loop.induct)
  case (1 sz k)
  show ?case
  proof (cases "k < 64 \<and> \<not> sz \<le> push_bit k 1")
    case True
    then have "log2roundup_loop sz k = log2roundup_loop sz (k + 1)" by (subst log2roundup_loop.simps) simp
    with 1 True show ?thesis by simp
  next
    case False
    then show ?thesis by (subst log2roundup_loop.simps) auto
  qed
qed

lemma memregion_init_valid:
  assumes "4 < sz"
  shows "is_region_valid (sbi_domain_memregion_init addr sz fl)"
proof -
  let ?r = "sbi_domain_memregion_init addr sz fl"
  have step: "k < 64 \<Longrightarrow> \<not> sz \<le> push_bit k 1 \<Longrightarrow> log2roundup_loop sz k = log2roundup_loop sz (k + 1)" for k
    by (subst log2roundup_loop.simps) simp
  have "\<not> sz \<le> push_bit 0 1" "\<not> sz \<le> push_bit (0 + 1) 1" "\<not> sz \<le> push_bit (0 + 1 + 1) 1"
    using assms unfolding word_le_nat_alt word_less_nat_alt by simp_all
  then have "log2roundup sz = log2roundup_loop sz (0 + 1 + 1 + 1)"
    unfolding log2roundup_def using step [of 0] step [of "0 + 1"] step [of "0 + 1 + 1"] by presburger
  with log2roundup_loop_ge [of "0 + 1 + 1 + 1" sz] have "3 \<le> log2roundup sz" by simp
  then have "3 \<le> unat (order ?r)"
    using memregion_init_spec(3) [where sz = sz and addr = addr and fl = fl] by (rule order_trans)
  moreover have "unat (order ?r) \<le> 64" by (rule memregion_init_spec(2))
  moreover have "order ?r < 64 \<or> order ?r = 64 \<and> base ?r = 0" using memregion_init_spec(5) by blast
  ultimately show ?thesis using memregion_init_spec(4) [of addr sz fl]
    unfolding is_region_valid_def by (auto simp: word_less_nat_alt)
qed

text \<open>The state in which \<^verbatim>\<open>sbi_domain_init\<close> registers the root domain.\<close>

definition root_mask :: "sbi_platform option \<Rightarrow> sbi_hartmask" where
  "root_mask plat = fold (\<lambda>i m. if sbi_platform_hart_invalid plat i then m else sbi_hartmask_set_hart i m)
     [0..<SBI_HARTMASK_MAX_BITS] \<lparr>bits = [0, 0]\<rparr>"

definition fw_region :: "sbi_scratch \<Rightarrow> sbi_domain_memregion" where
  "fw_region scratch = sbi_domain_memregion_init (fw_start scratch) (fw_size scratch) 0"

definition root_domain :: "sbi_platform option \<Rightarrow> sbi_scratch \<Rightarrow> nat \<Rightarrow> sbi_domain" where
  "root_domain plat scratch cold = root_reset\<lparr>regions := Some (fw_region scratch # region_all # replicate 15 no_region),
     boot_hartid := cold, next_arg1 := sbi_scratch.next_arg1 scratch, next_addr := sbi_scratch.next_addr scratch,
     next_mode := sbi_scratch.next_mode scratch, possible_harts := Some (root_mask plat)\<rparr>"

lemma root_mask_harts:
  "mask_wf (root_mask plat)" "harts (root_mask plat) = {h. h < SBI_HARTMASK_MAX_BITS \<and> \<not> sbi_platform_hart_invalid plat h}"
proof -
  have "mask_wf \<lparr>bits = [0, 0]\<rparr>" "harts \<lparr>bits = [0, 0]\<rparr> = {}"
    by (auto simp: mask_wf_def mask_words harts_iff bmap_bit_two SBI_HARTMASK_MAX_BITS_def split: if_splits)
  from fold_set_harts [OF this(1), of "sbi_platform_hart_invalid plat" "[0..<SBI_HARTMASK_MAX_BITS]"] this(2)
  show "mask_wf (root_mask plat)" "harts (root_mask plat) = {h. h < SBI_HARTMASK_MAX_BITS \<and> \<not> sbi_platform_hart_invalid plat h}"
    by (auto simp: root_mask_def)
qed

lemma domain_init_registers:
  "sbi_domain_init plat scratch cold (domain_reset doms) =
     sbi_domain_register plat cold (Some root) (Some (root_mask plat))
       ((domain_reset doms)\<lparr>root_fw_region := fw_region scratch, root_memregs_count := 2,
          domains := doms(root := root_domain plat scratch cold)\<rparr>)"
proof -
  have seven: "(1 OR 2 OR 4 :: u64) = 7" by simp
  show ?thesis
    by (simp add: sbi_domain_init_def Let_def domain_reset_def root_reset_def root_domain_def root_mask_def fw_region_def
        upd_domain_def memregion_init_all seven ROOT_REGION_MAX_def no_region_def numeral_eq_Suc)
qed

lemma root_domain_sane:
  assumes "4 < fw_size scratch" and "sbi_scratch.next_mode scratch = PRV_S \<or> sbi_scratch.next_mode scratch = PRV_U"
    and "\<not> region_contains (fw_region scratch) (sbi_scratch.next_addr scratch)"
  shows "sanitize_domain (fw_region scratch) plat (root_domain plat scratch cold) = (0, root_domain plat scratch cold)"
proof (rule sanitize_fw_all [where z = no_region and rs = "replicate 14 no_region" and pm = "root_mask plat"])
  show "\<forall>h \<in> set (sbi_hartmask_for_each_hart (root_mask plat)). \<not> sbi_platform_hart_invalid plat h"
    using root_mask_harts by (auto simp: for_each_hart_list)
  show "regions (root_domain plat scratch cold) = Some (fw_region scratch # region_all # no_region # replicate 14 no_region)"
    by (simp add: root_domain_def numeral_eq_Suc)
  show "is_region_valid (fw_region scratch)" unfolding fw_region_def by (rule memregion_init_valid [OF assms(1)])
  show "flags (fw_region scratch) = 0" unfolding fw_region_def by (rule memregion_init_spec(1))
qed (use assms(2,3) in \<open>simp_all add: root_domain_def no_region_def\<close>)

text \<open>
  C12: After the start of the firmware the root domain exists and holds every hart of the
  platform, and its access check protects the firmware: an access from supervisor or user
  mode to any address of the firmware image (and of the power-of-two block around it) is
  refused whenever it reads, writes or executes, while every other address is open to all
  accesses but those marked as device accesses. The only conditions are that the image has
  more than four bytes and that the next stage starts in supervisor or user mode outside the
  firmware block.
\<close>

theorem domain_init_protects_firmware:
  assumes "4 < fw_size scratch" and "sbi_scratch.next_mode scratch = PRV_S \<or> sbi_scratch.next_mode scratch = PRV_U"
    and "\<not> region_contains (fw_region scratch) (sbi_scratch.next_addr scratch)"
    and "sbi_domain_init plat scratch cold (domain_reset doms) = (rc, t)"
  shows "rc = 0 \<and> dom_inv t \<and>
    (\<forall>h. hartid_to_domain_table t h =
       (if h < SBI_HARTMASK_MAX_BITS \<and> \<not> sbi_platform_hart_invalid plat h then Some root else None)) \<and>
    (\<forall>a. fw_start scratch \<le> a \<longrightarrow> a \<le> fw_start scratch + fw_size scratch - 1 \<longrightarrow> region_contains (fw_region scratch) a) \<and>
    (\<forall>a mode af. mode \<noteq> PRV_M \<longrightarrow>
       sbi_domain_check_addr (Some (domains t root)) a mode af =
         (af AND SBI_DOMAIN_MMIO = 0 \<and> (region_contains (fw_region scratch) a \<longrightarrow> access_rwx af = 0)))"
proof -
  let ?s = "(domain_reset doms)\<lparr>root_fw_region := fw_region scratch, root_memregs_count := 2,
    domains := doms(root := root_domain plat scratch cold)\<rparr>"
  let ?m = "root_mask plat"
  have reg: "sbi_domain_register plat cold (Some root) (Some ?m) ?s = (rc, t)" using assms(4) by (simp add: domain_init_registers)
  have inv: "dom_inv ?s" "mask_wf (assigned_harts (domains ?s root))"
    by (simp_all add: dom_inv_def domain_reset_def root_domain_def root_reset_def mask_wf_def mask_words)
  have t: "rc = 0 \<and> regions (domains t root) = regions (root_domain plat scratch cold)"
    using reg root_domain_sane [OF assms(1-3), of plat cold]
    by (auto simp: sbi_domain_register_def domain_reset_def Let_def SBI_DOMAIN_MAX_INDEX_def upd_domain_def assign_harts_regions)
  have p: "dom_inv t" "hartid_to_domain_table t = (\<lambda>h. if h \<in> harts ?m \<inter> harts ?m then Some root else hartid_to_domain_table ?s h)"
    using register_spec [OF inv root_mask_harts(1) reg] t by (auto simp: root_domain_def)
  have rs: "regions (domains t root) = Some (fw_region scratch # region_all # replicate 15 no_region)"
    using t by (simp add: root_domain_def)
  have v: "order (fw_region scratch) \<noteq> 0"
    using memregion_init_valid [OF assms(1), of "fw_start scratch" 0] by (auto simp: fw_region_def is_region_valid_def split: if_splits)
  have fe: "for_each_memregion (fw_region scratch # region_all # replicate 15 no_region) = [fw_region scratch, region_all]"
    using v by (simp add: for_each_memregion_def region_all_def no_region_def)
  have "access_ok (fw_region scratch) af \<longleftrightarrow> af AND SBI_DOMAIN_MMIO = 0 \<and> access_rwx af = 0" for af
    by (auto simp: access_ok_def fw_region_def memregion_init_spec(1))
  then have "\<forall>a mode af. mode \<noteq> PRV_M \<longrightarrow> sbi_domain_check_addr (Some (domains t root)) a mode af =
       (af AND SBI_DOMAIN_MMIO = 0 \<and> (region_contains (fw_region scratch) a \<longrightarrow> access_rwx af = 0))"
    by (auto simp: domain_check_find [OF rs] fe access_ok_all)
  moreover have "\<forall>h. hartid_to_domain_table t h =
       (if h < SBI_HARTMASK_MAX_BITS \<and> \<not> sbi_platform_hart_invalid plat h then Some root else None)"
    unfolding p(2) by (simp add: root_mask_harts(2) domain_reset_def)
  moreover have "\<forall>a. fw_start scratch \<le> a \<longrightarrow> a \<le> fw_start scratch + fw_size scratch - 1 \<longrightarrow> region_contains (fw_region scratch) a"
    unfolding fw_region_def using memregion_init_spec(6) by blast
  ultimately show ?thesis using t p(1) by blast
qed

definition sample_scratch :: sbi_scratch where
  "sample_scratch = \<lparr>fw_start = 0x80000000, fw_size = 0x40000, next_arg1 = 0, next_addr = 0x80200000, next_mode = PRV_S,
     warmboot_addr = 0, platform_addr = 0, hartid_to_scratch = 0, trap_exit = 0, tmp0 = 0, options = 0\<rparr>"

lemma unat_power64:
  assumes "n < 64"
  shows "unat (2 ^ n :: u64) = 2 ^ n"
proof -
  have "(2 :: nat) ^ n < 2 ^ 64" using assms by (intro power_strict_increasing) auto
  then show ?thesis using unat_word_of_nat64 [of "2 ^ n"] by simp
qed

lemma log2roundup_power:
  assumes "n < 64"
  shows "log2roundup (2 ^ n) = n"
proof -
  have le: "(2 ^ n :: u64) \<le> push_bit k 1 \<longleftrightarrow> n \<le> k" if "k < 64" for k
    using that assms by (simp add: word_le_nat_alt unat_power64 push_bit_eq_mult)
  have "log2roundup_loop (2 ^ n) k = n" if "k \<le> n" for k
    using that
  proof (induction "n - k" arbitrary: k)
    case 0
    then show ?case using assms le [of k] by (subst log2roundup_loop.simps) simp
  next
    case (Suc m)
    then show ?case using assms le [of k] by (subst log2roundup_loop.simps) simp
  qed
  then show ?thesis by (simp add: log2roundup_def)
qed

lemma sample_fw_region: "fw_region sample_scratch = \<lparr>order = 18, base = 0x80000000, flags = 0\<rparr>"
proof -
  have "memregion_order 0x80000000 0x40000 18 = (18, 0x80000000)"
    by (subst memregion_order.simps) (simp add: Let_def)
  with log2roundup_power [of 18] show ?thesis by (simp add: fw_region_def sample_scratch_def sbi_domain_memregion_init_def)
qed

theorem domain_init_protects_firmware_witness:
  "\<exists>t. sbi_domain_init (Some \<lparr>hart_count = 4, hart_index2id = None\<rparr>) sample_scratch 0 (domain_reset (\<lambda>_. root_reset)) = (0, t) \<and>
     \<not> sbi_domain_check_addr (Some (domains t root)) 0x80000000 PRV_S SBI_DOMAIN_WRITE \<and>
     sbi_domain_check_addr (Some (domains t root)) 0x80200000 PRV_S SBI_DOMAIN_WRITE"
proof -
  obtain rc t where t: "sbi_domain_init (Some \<lparr>hart_count = 4, hart_index2id = None\<rparr>) sample_scratch 0
      (domain_reset (\<lambda>_. root_reset)) = (rc, t)" by fastforce
  have c: "region_contains (fw_region sample_scratch) 0x80000000" "\<not> region_contains (fw_region sample_scratch) 0x80200000"
    by (simp_all add: sample_fw_region region_contains_def region_end_def BIT_def)
  have "4 < fw_size sample_scratch" "sbi_scratch.next_mode sample_scratch = PRV_S" "sbi_scratch.next_addr sample_scratch = 0x80200000"
    by (simp_all add: sample_scratch_def)
  with domain_init_protects_firmware [OF _ _ _ t] c t show ?thesis by (simp add: access_rwx_def)
qed

section \<open>Adding regions\<close>

definition terminated :: "sbi_domain_memregion list \<Rightarrow> bool" where
  "terminated rs \<longleftrightarrow> (\<exists>z \<in> set rs. order z = 0)"

lemma shift_regions_removes:
  "order a \<noteq> 0 \<Longrightarrow> terminated rs \<Longrightarrow>
     for_each_memregion (shift_regions (a # rs)) = for_each_memregion rs \<and> terminated (shift_regions (a # rs))"
proof (induction rs arbitrary: a)
  case (Cons b rs)
  show ?case
  proof (cases "order b = 0")
    case True
    then have "shift_regions (b # rs) = b # rs" by (cases rs) auto
    with True Cons.prems show ?thesis by (auto simp: for_each_memregion_def terminated_def)
  next
    case False
    with Cons.prems have "terminated rs" by (auto simp: terminated_def)
    from Cons.IH [OF False this] False Cons.prems show ?thesis by (auto simp: for_each_memregion_def terminated_def)
  qed
qed (simp add: terminated_def)

lemma merge_pass_shrinks:
  "terminated rs \<Longrightarrow> \<forall>r \<in> set (for_each_memregion rs). order r \<le> 64 \<Longrightarrow> merge_pass rs = (ts, k) \<Longrightarrow>
     terminated ts \<and> length ts = length rs \<and> length (for_each_memregion ts) + k = length (for_each_memregion rs) \<and> (k = 0 \<longrightarrow> ts = rs)"
proof (induction rs arbitrary: ts k rule: merge_pass.induct)
  case (1 a b rs)
  show ?case
  proof (cases "order a = 0")
    case True
    with 1 show ?thesis by (auto simp: for_each_memregion_def)
  next
    case a: False
    have tb: "terminated (b # rs)" using a 1(3) by (auto simp: terminated_def)
    show ?thesis
    proof (cases "order b \<noteq> 0 \<and> mergeable a b")
      case True
      then have "terminated rs" using tb by (auto simp: terminated_def)
      note sh = shift_regions_removes [OF conjunct1 [OF True] this]
      obtain us m where us: "merge_pass (shift_regions (b # rs)) = (us, m)" by fastforce
      have t: "ts = a\<lparr>order := order a + 1\<rparr> # us" "k = Suc m" using 1(5) a True us by auto
      have "order a \<le> 64" using a 1(4) by (simp add: for_each_memregion_def)
      then have "order a + 1 \<noteq> 0" by (auto simp: eq_neg_iff_add_eq_0 [symmetric] word_le_nat_alt)
      moreover have "\<forall>r \<in> set (for_each_memregion (shift_regions (b # rs))). order r \<le> 64"
        using a True 1(4) sh by (auto simp: for_each_memregion_def)
      ultimately show ?thesis using 1(1) [OF a True _ _ us] sh a True by (auto simp: t terminated_def for_each_memregion_def)
    next
      case False
      obtain us m where us: "merge_pass (b # rs) = (us, m)" by fastforce
      have t: "ts = a # us" "k = m" using 1(5) a False us by auto
      have "\<forall>r \<in> set (for_each_memregion (b # rs)). order r \<le> 64" using a 1(4) by (auto simp: for_each_memregion_def)
      from 1(2) [OF a False tb this us] show ?thesis using a by (auto simp: t terminated_def for_each_memregion_def)
    qed
  qed
qed (auto simp: terminated_def)

text \<open>
  The root domain's array of regions: seventeen entries, of which the first
  \<^verbatim>\<open>root_memregs_count\<close> are in use and the next one is the terminator.
\<close>

definition root_ok :: "domain_state \<Rightarrow> bool" where
  "root_ok s \<longleftrightarrow> (\<exists>rs. regions (domains s root) = Some rs \<and> length rs = ROOT_REGION_MAX + 1 \<and> terminated rs \<and>
     root_memregs_count s = length (for_each_memregion rs))"

definition root_sane :: "domain_state \<Rightarrow> bool" where
  "root_sane s \<longleftrightarrow> (\<exists>rs. regions (domains s root) = Some rs \<and> sorted_wrt region_le (for_each_memregion rs) \<and>
     (\<forall>r \<in> set (for_each_memregion rs). is_region_valid r) \<and> root_fw_region s \<in> set (for_each_memregion rs))"

lemma terminated_for_each: "terminated rs \<longleftrightarrow> length (for_each_memregion rs) < length rs"
proof -
  have "length (for_each_memregion rs) < length rs \<longleftrightarrow> for_each_memregion rs \<noteq> rs"
    by (metis for_each_memregion_def length_takeWhile_le order_less_le takeWhile_eq_take take_all_iff nth_length_takeWhile takeWhile_eq_all_conv nth_mem nat_less_le)
  then show ?thesis by (auto simp: terminated_def for_each_memregion_def takeWhile_eq_all_conv)
qed

lemma root_merge_returns:
  "root_ok s \<Longrightarrow> \<exists>rc t. root_merge plat s = Some (rc, t) \<and> (rc = 0 \<longrightarrow> root_ok t \<and> root_sane t)"
proof (induction "root_memregs_count s" arbitrary: s rule: less_induct)
  case less
  obtain c e where ce: "sanitize_domain (root_fw_region s) plat (domains s root) = (c, e)" by fastforce
  let ?u = "upd_domain root (\<lambda>_. e) s"
  show ?case
  proof (cases "c = 0")
    case False
    then show ?thesis by (subst root_merge.simps) (simp add: ce)
  next
    case True
    obtain rs where rs: "regions (domains s root) = Some rs" "length rs = ROOT_REGION_MAX + 1" "terminated rs"
      "root_memregs_count s = length (for_each_memregion rs)" using less.prems by (auto simp: root_ok_def)
    obtain ts where ts: "e = (domains s root)\<lparr>regions := Some ts\<rparr>" "length ts = length rs"
      "mset (for_each_memregion ts) = mset (for_each_memregion rs)" "sorted_wrt region_le (for_each_memregion ts)"
      "\<forall>r \<in> set (for_each_memregion ts). is_region_valid r" "root_fw_region s \<in> set (for_each_memregion ts)"
      by (rule sanitize_accepts [OF ce [unfolded True]]) (use rs(1) in auto)
    have len: "length (for_each_memregion ts) = length (for_each_memregion rs)" using ts(3) by (metis size_mset)
    have tt: "terminated ts" using rs(3) ts(2) len by (simp add: terminated_for_each)
    have "\<forall>r \<in> set (for_each_memregion ts). order r \<le> 64" using ts(5) by (auto simp: is_region_valid_def split: if_splits)
    moreover obtain us k where us: "merge_pass ts = (us, k)" by fastforce
    ultimately have m: "terminated us" "length us = length ts" "length (for_each_memregion us) + k = length (for_each_memregion ts)"
      "k = 0 \<longrightarrow> us = ts" using merge_pass_shrinks [OF tt _ us] by auto
    let ?v = "(upd_domain root (\<lambda>d. d\<lparr>regions := Some us\<rparr>) ?u)\<lparr>root_memregs_count := root_memregs_count s - k\<rparr>"
    have ok: "root_ok ?v" using m rs(2,4) ts(2) len by (simp add: root_ok_def upd_domain_def)
    have run: "root_merge plat s = (if k \<noteq> 0 then root_merge plat ?v else Some (0, ?v))"
      by (subst root_merge.simps) (simp add: ce True us ts(1) upd_domain_def)
    show ?thesis
    proof (cases "k = 0")
      case True
      then have "root_sane ?v" using m(4) ts(4-6) by (simp add: root_sane_def upd_domain_def)
      with ok run True show ?thesis by simp
    next
      case False
      have "root_memregs_count ?v < root_memregs_count s" using False m(3) len rs(4) by (simp add: upd_domain_def)
      from less.hyps [OF this ok] False run show ?thesis by simp
    qed
  qed
qed

lemma append_region:
  assumes "n = length (for_each_memregion rs)" and "n + 1 < length rs" and "order reg \<noteq> 0"
  shows "for_each_memregion (rs[n := reg, n + 1 := z\<lparr>order := 0\<rparr>]) = for_each_memregion rs @ [reg]"
proof -
  have t: "take n rs = for_each_memregion rs" using assms(1) for_each_take by metis
  have "rs = take n rs @ rs ! n # rs ! (n + 1) # drop (n + 2) rs"
    using assms(2) by (simp add: Cons_nth_drop_Suc)
  then obtain a b ys where "rs = take n rs @ a # b # ys" by blast
  moreover have "length (take n rs) = n" using assms(2) by simp
  ultimately have "rs[n := reg, n + 1 := z\<lparr>order := 0\<rparr>] = take n rs @ reg # z\<lparr>order := 0\<rparr> # ys"
    by (metis append_Cons append_Nil list_update_length add.commute length_append_singleton append.assoc plus_1_eq_Suc)
  then have "for_each_memregion (rs[n := reg, n + 1 := z\<lparr>order := 0\<rparr>]) =
      takeWhile (\<lambda>r. order r \<noteq> 0) (take n rs @ reg # z\<lparr>order := 0\<rparr> # ys)"
    by (simp only: for_each_memregion_def)
  also have "\<dots> = take n rs @ [reg]"
    using assms(3) for_each_nonzero [of _ rs] by (subst takeWhile_append2) (auto simp: t)
  finally show ?thesis unfolding t .
qed

text \<open>
  C33: Adding a region to the root domain always returns: the loop that sorts and merges
  regions until nothing can be merged ends, because every merge leaves one region less. When
  it returns success the regions are sorted, each is valid, the firmware's own region is
  among them, and the array still has its terminator behind the counted regions.
\<close>

theorem root_add_memregion_returns:
  assumes "root_ok s" and "order reg \<noteq> 0"
  shows "\<exists>rc t. sbi_domain_root_add_memregion plat (Some reg) s = Some (rc, t) \<and> (rc = 0 \<longrightarrow> root_ok t \<and> root_sane t)"
proof -
  obtain rs where rs: "regions (domains s root) = Some rs" "length rs = ROOT_REGION_MAX + 1"
    "root_memregs_count s = length (for_each_memregion rs)" using assms(1) by (auto simp: root_ok_def)
  let ?c = "root_memregs_count s"
  show ?thesis
  proof (cases "domain_finalized s \<or> ROOT_REGION_MAX \<le> ?c \<or> list_ex (is_region_conflict reg) (for_each_memregion rs)")
    case True
    then show ?thesis using rs(1) by (auto simp: sbi_domain_root_add_memregion_def sbi_error_defs)
  next
    case False
    let ?rs = "rs[?c := reg, ?c + 1 := (rs ! (?c + 1))\<lparr>order := 0\<rparr>]"
    let ?u = "(upd_domain root (\<lambda>d. d\<lparr>regions := Some ?rs\<rparr>) s)\<lparr>root_memregs_count := ?c + 1\<rparr>"
    have c: "?c + 1 < length rs" using False rs(2) by auto
    have fe: "for_each_memregion ?rs = for_each_memregion rs @ [reg]" using append_region [OF rs(3) c assms(2)] by simp
    have "terminated ?rs" using c fe rs(3) by (simp add: terminated_for_each)
    then have "root_ok ?u" using rs(2,3) fe by (simp add: root_ok_def upd_domain_def)
    moreover have "sbi_domain_root_add_memregion plat (Some reg) s = root_merge plat ?u"
      using False rs(1) by (simp add: sbi_domain_root_add_memregion_def Let_def)
    ultimately show ?thesis using root_merge_returns by simp
  qed
qed

definition sample_root :: domain_state where
  "sample_root = (domain_reset (\<lambda>_. root_reset))\<lparr>domains := \<lambda>_. root_domain None sample_scratch 0,
     root_fw_region := fw_region sample_scratch, root_memregs_count := 2\<rparr>"

theorem root_add_memregion_returns_witness:
  "\<exists>rc t. sbi_domain_root_add_memregion None (Some \<lparr>order = 12, base = 0x10000000, flags = 0x80000003\<rparr>) sample_root = Some (rc, t) \<and>
     (rc = 0 \<longrightarrow> root_ok t \<and> root_sane t)"
proof (rule root_add_memregion_returns)
  show "root_ok sample_root"
    by (simp add: root_ok_def sample_root_def root_domain_def sample_fw_region terminated_def no_region_def region_all_def
        for_each_memregion_def ROOT_REGION_MAX_def)
qed simp

section \<open>Weaknesses\<close>

definition missed_regions :: "sbi_domain_memregion list" where
  "missed_regions = [\<lparr>order = 5, base = 0x80200000, flags = 7\<rparr>, \<lparr>order = 4, base = 0x80200000, flags = 1\<rparr>,
     \<lparr>order = 3, base = 0x80200000, flags = 7\<rparr>, \<lparr>order = 18, base = 0x80000000, flags = 0\<rparr>]"

lemma no_harts: "sbi_hartmask_for_each_hart \<lparr>bits = [0, 0]\<rparr> = []"
  by (auto simp: for_each_hart_list mask_wf_def mask_words harts_iff bmap_bit_two SBI_HARTMASK_MAX_BITS_def filter_empty_conv
      split: if_splits)

lemmas region_eval = is_region_conflict_def is_region_subset_def is_region_before_def is_region_valid_def BIT_def
  region_contains_def region_end_def for_each_memregion_def sort_pair_def no_region_def

lemma bindE_Inr_id: "bindE m Inr = m"
  by (cases m) auto

lemma sort_four:
  "sort_regions (Suc (Suc (Suc (Suc 0)))) xs = bindE (sort_pair 0 1 xs) (\<lambda>xs. bindE (sort_pair 0 2 xs) (\<lambda>xs. bindE (sort_pair 0 3 xs)
     (\<lambda>xs. bindE (sort_pair 1 2 xs) (\<lambda>xs. bindE (sort_pair 1 3 xs) (\<lambda>xs. sort_pair 2 3 xs)))))"
  by (simp add: sort_regions_def upt_rec bindE_assoc numeral_eq_Suc bindE_Inr_id)

text \<open>
  The sanity check is meant to refuse a domain in which one region lies inside another
  with the same flags, but it compares only the pairs its exchange sort happens to visit. A
  domain with three nested regions, the outer and the inner one with the same flags, is
  accepted when they are listed from large to small, and the same regions are refused when
  the inner one is listed first.
\<close>

lemma sanitize_misses_conflict:
  "is_region_conflict (missed_regions ! 2) (missed_regions ! 0) \<and>
   fst (sanitize_domain \<lparr>order = 18, base = 0x80000000, flags = 0\<rparr> plat
     (sample_domain\<lparr>regions := Some (missed_regions @ [no_region]), next_addr := 0x80200018\<rparr>)) = 0 \<and>
   fst (sanitize_domain \<lparr>order = 18, base = 0x80000000, flags = 0\<rparr> plat
     (sample_domain\<lparr>regions := Some ([missed_regions ! 2, missed_regions ! 0, missed_regions ! 1, missed_regions ! 3, no_region]),
        next_addr := 0x80200018\<rparr>)) = SBI_EINVAL"
proof -
  let ?a = "\<lparr>order = 5, base = 0x80200000, flags = 7\<rparr> :: sbi_domain_memregion"
  let ?b = "\<lparr>order = 4, base = 0x80200000, flags = 1\<rparr> :: sbi_domain_memregion"
  let ?c = "\<lparr>order = 3, base = 0x80200000, flags = 7\<rparr> :: sbi_domain_memregion"
  let ?fw = "\<lparr>order = 18, base = 0x80000000, flags = 0\<rparr> :: sbi_domain_memregion"
  have "sort_regions (Suc (Suc (Suc (Suc 0)))) [?a, ?b, ?c, ?fw, no_region] = Inr [?c, ?b, ?a, ?fw, no_region]"
    by (simp add: sort_four region_eval)
  moreover have "sort_regions (Suc (Suc (Suc (Suc 0)))) [?c, ?a, ?b, ?fw, no_region] = Inl (SBI_EINVAL, [?c, ?a, ?b, ?fw, no_region])"
    by (simp add: sort_four region_eval)
  ultimately show ?thesis
    by (simp add: missed_regions_def sanitize_domain_def sample_domain_def root_reset_def no_harts domain_check_find
        access_ok_def access_rwx_def region_eval)
qed

lemma sort_three:
  "sort_regions (Suc (Suc (Suc 0))) xs = bindE (sort_pair 0 1 xs) (\<lambda>xs. bindE (sort_pair 0 2 xs) (\<lambda>xs. sort_pair 1 2 xs))"
  by (simp add: sort_regions_def upt_rec bindE_assoc numeral_eq_Suc bindE_Inr_id)

lemma sanitize_needs_fw:
  assumes "regions d = Some rs" and "fw \<notin> set (for_each_memregion rs)"
  shows "sanitize_domain fw plat d = (SBI_EINVAL, d)"
proof -
  have "\<not> list_ex (\<lambda>reg. order reg = order fw \<and> base reg = base fw \<and> flags reg = flags fw) (for_each_memregion rs)"
    using assms(2) by (auto simp: list_ex_iff) (metis sbi_domain_memregion.equality old.unit.exhaust)
  then show ?thesis using assms(1) by (simp add: sanitize_domain_def Let_def split: option.split)
qed

text \<open>
  The run that loses the firmware region: \<open>fw18\<close> is the firmware's region of the sample, \<open>next18\<close> the
  one added behind it, \<open>both19\<close> what they become, and \<open>root_with\<close> the state with given regions.
\<close>

definition fw18 :: sbi_domain_memregion where "fw18 = \<lparr>order = 18, base = 0x80000000, flags = 0\<rparr>"
definition next18 :: sbi_domain_memregion where "next18 = \<lparr>order = 18, base = 0x80040000, flags = 0\<rparr>"
definition both19 :: sbi_domain_memregion where "both19 = \<lparr>order = 19, base = 0x80000000, flags = 0\<rparr>"

definition root_with :: "sbi_domain_memregion list \<Rightarrow> nat \<Rightarrow> domain_state" where
  "root_with rs c = sample_root\<lparr>domains := (domains sample_root)(root :=
     (root_domain None sample_scratch 0)\<lparr>regions := Some (rs @ replicate 14 no_region)\<rparr>), root_memregs_count := c\<rparr>"

lemmas sample_regions = fw18_def next18_def both19_def

lemma sample_region_facts:
  "is_region_valid fw18" "is_region_valid next18" "is_region_valid region_all" "order no_region = 0"
  "order fw18 \<noteq> 0" "order next18 \<noteq> 0" "order both19 \<noteq> 0" "order region_all \<noteq> 0" "fw18 \<noteq> both19" "fw18 \<noteq> region_all"
  "\<not> region_contains fw18 0x80200000" "\<not> region_contains next18 0x80200000"
  "\<not> is_region_conflict next18 fw18" "\<not> is_region_conflict next18 region_all"
  "mergeable fw18 next18" "\<not> mergeable next18 region_all" "fw18\<lparr>order := order fw18 + 1\<rparr> = both19"
  by (simp_all add: region_eval region_all_def mergeable_def sample_regions)

lemma fourteen: "replicate 14 no_region = no_region # no_region # replicate 12 no_region"
  by (simp add: numeral_eq_Suc)

lemma for_each_sample:
  "\<forall>r \<in> set rs. order r \<noteq> 0 \<Longrightarrow> for_each_memregion (rs @ replicate 14 no_region) = rs"
  "\<forall>r \<in> set rs. order r \<noteq> 0 \<Longrightarrow> for_each_memregion (rs @ no_region # zs) = rs"
  by (auto simp: for_each_memregion_def sample_region_facts takeWhile_append fourteen)

lemma root_with_simps:
  "root_fw_region (root_with rs c) = fw18" "root_memregs_count (root_with rs c) = c"
  "domains (root_with rs c) root = (root_domain None sample_scratch 0)\<lparr>regions := Some (rs @ replicate 14 no_region)\<rparr>"
  "upd_domain root (\<lambda>_. (root_domain None sample_scratch 0)\<lparr>regions := Some (ts @ replicate 14 no_region)\<rparr>) (root_with rs c) = root_with ts c"
  "(upd_domain root (\<lambda>d. d\<lparr>regions := Some (ts @ replicate 14 no_region)\<rparr>) (root_with rs c))\<lparr>root_memregs_count := n\<rparr> = root_with ts n"
  by (simp_all add: root_with_def sample_root_def sample_fw_region upd_domain_def fw18_def)

lemma sample_add:
  "sbi_domain_root_add_memregion None (Some next18) sample_root = root_merge None (root_with [fw18, region_all, next18] 3)"
proof -
  let ?rs = "[fw18, region_all, no_region] @ replicate 14 no_region"
  have "regions (root_domain None sample_scratch 0) = Some ?rs"
    by (simp add: root_domain_def sample_fw_region fw18_def numeral_eq_Suc)
  moreover have "domain_finalized sample_root = False" "root_memregs_count sample_root = 2"
    "domains sample_root root = root_domain None sample_scratch 0"
    by (simp_all add: sample_root_def domain_reset_def)
  moreover have "for_each_memregion ?rs = [fw18, region_all]"
    using for_each_sample(2) [of "[fw18, region_all]"] by (simp add: sample_region_facts)
  moreover have "?rs[2 := next18, 3 := (?rs[2 := next18] ! 3)\<lparr>order := 0\<rparr>] = [fw18, region_all, next18] @ replicate 14 no_region"
    unfolding fourteen numeral_3_eq_3 numeral_2_eq_2 by (simp add: no_region_def)
  ultimately show ?thesis
    by (simp add: sbi_domain_root_add_memregion_def ROOT_REGION_MAX_def Let_def upd_domain_def root_with_def sample_region_facts
        del: append.simps list_update.simps nth_Cons_numeral)
qed

lemma sample_sane:
  "sanitize_domain fw18 None ((root_domain None sample_scratch 0)\<lparr>regions := Some ([fw18, region_all, next18] @ replicate 14 no_region)\<rparr>) =
     (0, (root_domain None sample_scratch 0)\<lparr>regions := Some ([fw18, next18, region_all] @ replicate 14 no_region)\<rparr>)"
proof -
  have "sort_regions (Suc (Suc (Suc 0))) ([fw18, region_all, next18] @ zs) = Inr ([fw18, next18, region_all] @ zs)" for zs
    by (simp add: sort_three region_eval region_all_def sample_regions)
  moreover have "\<not> list_ex (sbi_platform_hart_invalid None) (sbi_hartmask_for_each_hart (root_mask None))"
    using root_mask_harts [of None] by (auto simp: list_ex_iff for_each_hart_list)
  moreover have "possible_harts (root_domain None sample_scratch 0) = Some (root_mask None)"
    "next_mode (root_domain None sample_scratch 0) = PRV_S" "next_addr (root_domain None sample_scratch 0) = 0x80200000"
    by (simp_all add: root_domain_def sample_scratch_def)
  ultimately show ?thesis
    by (simp add: sanitize_domain_def for_each_sample domain_check_find access_ok_all sample_region_facts del: append.simps)
qed


end
