(* ===== verification/SbiHsm.thy ===== *)
theory SbiHsm
  imports SbiDomain
begin

text \<open>
  Hart state management of the firmware, \<^verbatim>\<open>opensbi-1.2/lib/sbi/sbi_hsm.c\<close>, with the
  ecall handler \<^verbatim>\<open>sbi_ecall_hsm.c\<close>, \<^verbatim>\<open>sbi_exit\<close> of \<^verbatim>\<open>sbi_init.c\<close> and
  \<^verbatim>\<open>sbi_domain_finalize\<close>. The data block of a hart lies in its scratch area; blocks of
  different harts and different owners are disjoint, so it is one variable per hart here.
  The platform's hart device is a record of optional operations, as in the code. Sending an
  interrupt, \<^verbatim>\<open>sbi_ipi_raw_send\<close>, is a parameter.
\<close>

section \<open>States and data\<close>

definition SBI_HSM_STATE_STARTED :: int where "SBI_HSM_STATE_STARTED = 0"
definition SBI_HSM_STATE_STOPPED :: int where "SBI_HSM_STATE_STOPPED = 1"
definition SBI_HSM_STATE_START_PENDING :: int where "SBI_HSM_STATE_START_PENDING = 2"
definition SBI_HSM_STATE_STOP_PENDING :: int where "SBI_HSM_STATE_STOP_PENDING = 3"
definition SBI_HSM_STATE_SUSPENDED :: int where "SBI_HSM_STATE_SUSPENDED = 4"
definition SBI_HSM_STATE_RESUME_PENDING :: int where "SBI_HSM_STATE_RESUME_PENDING = 6"

lemmas hsm_states = SBI_HSM_STATE_STARTED_def SBI_HSM_STATE_STOPPED_def SBI_HSM_STATE_START_PENDING_def
  SBI_HSM_STATE_STOP_PENDING_def SBI_HSM_STATE_SUSPENDED_def SBI_HSM_STATE_RESUME_PENDING_def

definition SBI_HSM_SUSP_NON_RET_BIT :: u32 where "SBI_HSM_SUSP_NON_RET_BIT = 0x80000000"
definition SBI_HSM_SUSP_PLAT_BASE :: u32 where "SBI_HSM_SUSP_PLAT_BASE = 0x10000000"
definition SBI_HSM_SUSPEND_RET_DEFAULT :: u32 where "SBI_HSM_SUSPEND_RET_DEFAULT = 0"
definition SBI_HSM_SUSPEND_RET_PLATFORM :: u32 where "SBI_HSM_SUSPEND_RET_PLATFORM = SBI_HSM_SUSP_PLAT_BASE"
definition SBI_HSM_SUSPEND_NON_RET_DEFAULT :: u32 where "SBI_HSM_SUSPEND_NON_RET_DEFAULT = SBI_HSM_SUSP_NON_RET_BIT"
definition SBI_HSM_SUSPEND_NON_RET_PLATFORM :: u32 where
  "SBI_HSM_SUSPEND_NON_RET_PLATFORM = SBI_HSM_SUSP_NON_RET_BIT OR SBI_HSM_SUSP_PLAT_BASE"

lemmas hsm_suspend_types = SBI_HSM_SUSP_NON_RET_BIT_def SBI_HSM_SUSP_PLAT_BASE_def SBI_HSM_SUSPEND_RET_DEFAULT_def
  SBI_HSM_SUSPEND_RET_PLATFORM_def SBI_HSM_SUSPEND_NON_RET_DEFAULT_def SBI_HSM_SUSPEND_NON_RET_PLATFORM_def

definition MIP_SSIP :: u64 where "MIP_SSIP = push_bit 1 1"
definition MIP_MSIP :: u64 where "MIP_MSIP = push_bit 3 1"
definition MIP_STIP :: u64 where "MIP_STIP = push_bit 5 1"
definition MIP_MEIP :: u64 where "MIP_MEIP = push_bit 11 1"

record sbi_hsm_data =
  state :: int
  suspend_type :: u32
  saved_mie :: u64
  saved_mip :: u64

text \<open>
  Operations of the platform's device: \<open>hart_stop\<close> returns only when it fails, and
  \<open>hart_suspend\<close> gives \<open>None\<close> when the hart will come back through the warm boot entry.
\<close>

record sbi_hsm_device =
  hart_start :: "(nat \<Rightarrow> u64 \<Rightarrow> int) option"
  hart_stop :: "int option option"
  hart_suspend :: "(u32 \<Rightarrow> int option) option"
  hart_resume :: bool

text \<open>How an operation ends: it returns, the hart hangs, jumps to the warm boot entry or is off.\<close>

datatype hsm_end = Ret int | Hang | Warmboot | Off

datatype hsm_call =
    EarlyExit nat | PmuExit nat | TimerExit nat | IpiExit nat | IrqchipExit nat | FinalExit nat
  | DevStart nat u64 | DevStop nat | DevSuspend nat u32 | DevResume nat | IpiSend nat

record hsm_state =
  scr :: scratch_state
  hdr :: "nat \<Rightarrow> sbi_scratch"
  hart_data_offset :: u64
  hdata :: "nat \<Rightarrow> sbi_hsm_data"
  mie :: "nat \<Rightarrow> u64"
  mip :: "nat \<Rightarrow> u64"
  hsm_dev :: "sbi_hsm_device option"
  init_count :: "nat \<Rightarrow> nat"
  calls :: "hsm_call list"

definition hstate :: "hsm_state \<Rightarrow> nat \<Rightarrow> int" where "hstate s h = state (hdata s h)"

definition has_scratch :: "hsm_state \<Rightarrow> nat \<Rightarrow> bool" where
  "has_scratch s h \<longleftrightarrow> hartid_to_scratch_table (scr s) h \<noteq> None"

definition upd_hdata :: "nat \<Rightarrow> (sbi_hsm_data \<Rightarrow> sbi_hsm_data) \<Rightarrow> hsm_state \<Rightarrow> hsm_state" where
  "upd_hdata h f s = s\<lparr>hdata := (hdata s)(h := f (hdata s h))\<rparr>"

definition call :: "hsm_call \<Rightarrow> hsm_state \<Rightarrow> hsm_state" where
  "call c s = s\<lparr>calls := calls s @ [c]\<rparr>"

definition set_next :: "nat \<Rightarrow> u64 \<Rightarrow> u64 \<Rightarrow> u64 \<Rightarrow> hsm_state \<Rightarrow> hsm_state" where
  "set_next h priv addr mode s = s\<lparr>hdr := (hdr s)(h := (hdr s h)\<lparr>sbi_scratch.next_arg1 := priv,
     sbi_scratch.next_addr := addr, sbi_scratch.next_mode := mode\<rparr>)\<rparr>"

text \<open>\<^verbatim>\<open>atomic_cmpxchg\<close> on the state of a hart: the old value, and the exchange when it was expected.\<close>

definition atomic_cmpxchg :: "nat \<Rightarrow> int \<Rightarrow> int \<Rightarrow> hsm_state \<Rightarrow> int \<times> hsm_state" where
  "atomic_cmpxchg h old new s =
     (hstate s h, if hstate s h = old then upd_hdata h (\<lambda>d. d\<lparr>state := new\<rparr>) s else s)"

section \<open>Queries\<close>

definition hsm_hart_get_state :: "nat \<Rightarrow> hsm_state \<Rightarrow> int" where
  "hsm_hart_get_state hartid s = (if \<not> has_scratch s hartid then SBI_EINVAL else hstate s hartid)"

definition sbi_hsm_hart_get_state :: "sbi_domain option \<Rightarrow> nat \<Rightarrow> hsm_state \<Rightarrow> int" where
  "sbi_hsm_hart_get_state dp hartid s =
     (if \<not> sbi_domain_is_assigned_hart dp hartid then SBI_EINVAL else hsm_hart_get_state hartid s)"

definition interruptible_step :: "nat \<Rightarrow> u64 \<Rightarrow> hsm_state \<Rightarrow> nat \<Rightarrow> u64 \<Rightarrow> u64" where
  "interruptible_step hbase dmask s i out =
     (let hmask = push_bit (i - hbase) 1 in
      if dmask AND hmask \<noteq> 0 then
        let hst = hsm_hart_get_state i s in
        if hst = SBI_HSM_STATE_STARTED \<or> hst = SBI_HSM_STATE_SUSPENDED then out OR hmask else out
      else out)"

definition sbi_hsm_hart_interruptible_mask :: "sbi_domain option \<Rightarrow> nat \<Rightarrow> hsm_state \<Rightarrow> int \<times> u64" where
  "sbi_hsm_hart_interruptible_mask dp hbase s =
     (let hend = last_hartid_having_scratch (scr s) + 1 in
      if hend \<le> hbase then (SBI_EINVAL, 0)
      else
        let hend = (if BITS_PER_LONG < hend - hbase then hbase + BITS_PER_LONG else hend);
            dmask = sbi_domain_get_assigned_hartmask dp hbase
        in (0, fold (interruptible_step hbase dmask s) [hbase..<hend] 0))"

section \<open>The device\<close>

definition sbi_hsm_get_device :: "hsm_state \<Rightarrow> sbi_hsm_device option" where
  "sbi_hsm_get_device s = hsm_dev s"

definition sbi_hsm_set_device :: "sbi_hsm_device option \<Rightarrow> hsm_state \<Rightarrow> hsm_state" where
  "sbi_hsm_set_device dev s = (if dev = None \<or> hsm_dev s \<noteq> None then s else s\<lparr>hsm_dev := dev\<rparr>)"

definition hsm_device_has_hart_hotplug :: "hsm_state \<Rightarrow> bool" where
  "hsm_device_has_hart_hotplug s =
     (case hsm_dev s of None \<Rightarrow> False | Some d \<Rightarrow> hart_start d \<noteq> None \<and> hart_stop d \<noteq> None)"

definition hsm_device_has_hart_secondary_boot :: "hsm_state \<Rightarrow> bool" where
  "hsm_device_has_hart_secondary_boot s =
     (case hsm_dev s of None \<Rightarrow> False | Some d \<Rightarrow> hart_start d \<noteq> None \<and> hart_stop d = None)"

definition hsm_device_hart_start :: "nat \<Rightarrow> u64 \<Rightarrow> hsm_state \<Rightarrow> int \<times> hsm_state" where
  "hsm_device_hart_start hartid saddr s =
     (case hsm_dev s of None \<Rightarrow> (SBI_ENOTSUPP, s)
      | Some d \<Rightarrow> (case hart_start d of None \<Rightarrow> (SBI_ENOTSUPP, s)
          | Some f \<Rightarrow> (f hartid saddr, call (DevStart hartid saddr) s)))"

definition hsm_device_hart_stop :: "nat \<Rightarrow> hsm_state \<Rightarrow> int option \<times> hsm_state" where
  "hsm_device_hart_stop h s =
     (case hsm_dev s of None \<Rightarrow> (Some SBI_ENOTSUPP, s)
      | Some d \<Rightarrow> (case hart_stop d of None \<Rightarrow> (Some SBI_ENOTSUPP, s)
          | Some r \<Rightarrow> (r, call (DevStop h) s)))"

definition hsm_device_hart_suspend :: "nat \<Rightarrow> u32 \<Rightarrow> hsm_state \<Rightarrow> int option \<times> hsm_state" where
  "hsm_device_hart_suspend h st s =
     (case hsm_dev s of None \<Rightarrow> (Some SBI_ENOTSUPP, s)
      | Some d \<Rightarrow> (case hart_suspend d of None \<Rightarrow> (Some SBI_ENOTSUPP, s)
          | Some f \<Rightarrow> (f st, call (DevSuspend h st) s)))"

definition hsm_device_hart_resume :: "nat \<Rightarrow> hsm_state \<Rightarrow> hsm_state" where
  "hsm_device_hart_resume h s =
     (case hsm_dev s of None \<Rightarrow> s | Some d \<Rightarrow> if hart_resume d then call (DevResume h) s else s)"

section \<open>Start, stop and wait\<close>

definition sbi_hsm_prepare_next_jump :: "nat \<Rightarrow> hsm_state \<Rightarrow> hsm_end \<times> hsm_state" where
  "sbi_hsm_prepare_next_jump h s =
     (let (oldstate, s) = atomic_cmpxchg h SBI_HSM_STATE_START_PENDING SBI_HSM_STATE_STARTED s in
      if oldstate \<noteq> SBI_HSM_STATE_START_PENDING then (Hang, s) else (Ret 0, s))"

text \<open>
  The wait of a warm booting hart: it enables the interrupts that can wake it, and the loop
  ends when it reads the awaited state. \<open>None\<close> is another round of the loop.
\<close>

definition hart_wait_begin :: "nat \<Rightarrow> hsm_state \<Rightarrow> u64 \<times> hsm_state" where
  "hart_wait_begin h s = (mie s h, s\<lparr>mie := (mie s)(h := mie s h OR (MIP_MSIP OR MIP_MEIP))\<rparr>)"

definition hart_wait_poll :: "nat \<Rightarrow> u64 \<Rightarrow> hsm_state \<Rightarrow> hsm_state option" where
  "hart_wait_poll h saved s =
     (if hstate s h \<noteq> SBI_HSM_STATE_START_PENDING then None else Some (s\<lparr>mie := (mie s)(h := saved)\<rparr>))"

definition hsm_init_harts :: "nat \<Rightarrow> hsm_state \<Rightarrow> hsm_state" where
  "hsm_init_harts hartid s =
     fold (\<lambda>i s. if \<not> has_scratch s i then s
        else upd_hdata i (\<lambda>d. d\<lparr>state := if i = hartid then SBI_HSM_STATE_START_PENDING else SBI_HSM_STATE_STOPPED\<rparr>) s)
       [0..<last_hartid_having_scratch (scr s) + 1] s"

text \<open>The first call of \<^verbatim>\<open>sbi_hsm_init\<close>, on the cold booting hart; 32 is the size of the data block.\<close>

definition sbi_hsm_init_cold :: "nat \<Rightarrow> hsm_state \<Rightarrow> int \<times> hsm_state" where
  "sbi_hsm_init_cold hartid s =
     (let (off, u) = sbi_scratch_alloc_offset 32 (scr s); s = s\<lparr>hart_data_offset := off, scr := u\<rparr> in
      if off = 0 then (SBI_ENOMEM, s) else (0, hsm_init_harts hartid s))"

definition sbi_hsm_exit :: "nat \<Rightarrow> hsm_state \<Rightarrow> hsm_end \<times> hsm_state" where
  "sbi_hsm_exit h s =
     (let (hst, s) = atomic_cmpxchg h SBI_HSM_STATE_STOP_PENDING SBI_HSM_STATE_STOPPED s in
      if hst \<noteq> SBI_HSM_STATE_STOP_PENDING then (Hang, s)
      else if hsm_device_has_hart_hotplug s then
        case hsm_device_hart_stop h s of (None, s) \<Rightarrow> (Off, s) | (Some _, s) \<Rightarrow> (Hang, s)
      else (Warmboot, s))"

definition sbi_exit :: "sbi_platform option \<Rightarrow> nat \<Rightarrow> hsm_state \<Rightarrow> hsm_end \<times> hsm_state" where
  "sbi_exit plat h s =
     (if sbi_platform_hart_invalid plat h then (Hang, s)
      else sbi_hsm_exit h (call (FinalExit h) (call (IrqchipExit h) (call (IpiExit h) (call (TimerExit h)
        (call (PmuExit h) (call (EarlyExit h) s)))))))"

text \<open>
  Starting a hart: the checks and the exchange that claims it, with the value to return when
  it fails, and the part behind the claim.
\<close>

definition hart_start_claim :: "sbi_domain option \<Rightarrow> nat \<Rightarrow> u64 \<Rightarrow> u64 \<Rightarrow> hsm_state \<Rightarrow> int option \<times> hsm_state" where
  "hart_start_claim dp hartid saddr smode s =
     (if smode \<noteq> PRV_S \<and> smode \<noteq> PRV_U then (Some SBI_EINVAL, s)
      else if dp \<noteq> None \<and> \<not> sbi_domain_is_assigned_hart dp hartid then (Some SBI_EINVAL, s)
      else if dp \<noteq> None \<and> \<not> sbi_domain_check_addr dp saddr smode SBI_DOMAIN_EXECUTE then (Some SBI_EINVALID_ADDR, s)
      else if \<not> has_scratch s hartid then (Some SBI_EINVAL, s)
      else
        let (hst, s) = atomic_cmpxchg hartid SBI_HSM_STATE_STOPPED SBI_HSM_STATE_START_PENDING s in
        if hst = SBI_HSM_STATE_STARTED then (Some SBI_EALREADY, s)
        else if hst \<noteq> SBI_HSM_STATE_STOPPED then (Some SBI_EINVAL, s)
        else (None, s))"

definition hart_start_finish ::
    "(nat \<Rightarrow> int) \<Rightarrow> nat \<Rightarrow> nat \<Rightarrow> u64 \<Rightarrow> u64 \<Rightarrow> u64 \<Rightarrow> hsm_state \<Rightarrow> int \<times> hsm_state" where
  "hart_start_finish ipi_raw_send h hartid saddr smode priv s =
     (let count = init_count s hartid; s = set_next hartid priv saddr smode s in
      if hsm_device_has_hart_hotplug s \<or> hsm_device_has_hart_secondary_boot s \<and> count = 0
      then hsm_device_hart_start hartid (warmboot_addr (hdr s h)) s
      else let rc = ipi_raw_send hartid; s = call (IpiSend hartid) s in if rc \<noteq> 0 then (rc, s) else (0, s))"

definition sbi_hsm_hart_start ::
    "(nat \<Rightarrow> int) \<Rightarrow> nat \<Rightarrow> sbi_domain option \<Rightarrow> nat \<Rightarrow> u64 \<Rightarrow> u64 \<Rightarrow> u64 \<Rightarrow> hsm_state \<Rightarrow> int \<times> hsm_state" where
  "sbi_hsm_hart_start ipi_raw_send h dp hartid saddr smode priv s =
     (case hart_start_claim dp hartid saddr smode s of
        (Some rc, s) \<Rightarrow> (rc, s)
      | (None, s) \<Rightarrow> hart_start_finish ipi_raw_send h hartid saddr smode priv s)"

definition thishart_domain :: "domain_state \<Rightarrow> nat \<Rightarrow> sbi_domain option" where
  "thishart_domain ds h = map_option (domains ds) (hartid_to_domain_table ds h)"

definition sbi_hsm_hart_stop :: "sbi_platform option \<Rightarrow> domain_state \<Rightarrow> nat \<Rightarrow> bool \<Rightarrow> hsm_state \<Rightarrow> hsm_end \<times> hsm_state" where
  "sbi_hsm_hart_stop plat ds h exitnow s =
     (if thishart_domain ds h = None then (Ret SBI_EFAIL, s)
      else
        let (oldstate, s) = atomic_cmpxchg h SBI_HSM_STATE_STARTED SBI_HSM_STATE_STOP_PENDING s in
        if oldstate \<noteq> SBI_HSM_STATE_STARTED then (Ret SBI_EFAIL, s)
        else if exitnow then sbi_exit plat h s else (Ret 0, s))"

section \<open>Suspend and resume\<close>

definition non_ret :: "u32 \<Rightarrow> bool" where "non_ret st \<longleftrightarrow> st AND SBI_HSM_SUSP_NON_RET_BIT \<noteq> 0"

definition suspend_non_ret_save :: "nat \<Rightarrow> hsm_state \<Rightarrow> hsm_state" where
  "suspend_non_ret_save h s = upd_hdata h (\<lambda>d. d\<lparr>saved_mie := mie s h, saved_mip := mip s h AND (MIP_SSIP OR MIP_STIP)\<rparr>) s"

text \<open>Writing \<^verbatim>\<open>mip\<close> changes its supervisor bits only; the machine bits are set by devices.\<close>

definition csr_write_mip :: "nat \<Rightarrow> u64 \<Rightarrow> hsm_state \<Rightarrow> hsm_state" where
  "csr_write_mip h v s = s\<lparr>mip := (mip s)(h := (mip s h AND NOT (MIP_SSIP OR MIP_STIP)) OR (v AND (MIP_SSIP OR MIP_STIP)))\<rparr>"

definition suspend_non_ret_restore :: "nat \<Rightarrow> hsm_state \<Rightarrow> hsm_state" where
  "suspend_non_ret_restore h s =
     (let s = s\<lparr>mie := (mie s)(h := saved_mie (hdata s h))\<rparr> in
      csr_write_mip h (saved_mip (hdata s h) AND (MIP_SSIP OR MIP_STIP)) s)"

definition sbi_hsm_hart_resume_start :: "nat \<Rightarrow> hsm_state \<Rightarrow> hsm_end \<times> hsm_state" where
  "sbi_hsm_hart_resume_start h s =
     (let (oldstate, s) = atomic_cmpxchg h SBI_HSM_STATE_SUSPENDED SBI_HSM_STATE_RESUME_PENDING s in
      if oldstate \<noteq> SBI_HSM_STATE_SUSPENDED then (Hang, s) else (Ret 0, hsm_device_hart_resume h s))"

definition sbi_hsm_hart_resume_finish :: "nat \<Rightarrow> hsm_state \<Rightarrow> hsm_end \<times> hsm_state" where
  "sbi_hsm_hart_resume_finish h s =
     (let (oldstate, s) = atomic_cmpxchg h SBI_HSM_STATE_RESUME_PENDING SBI_HSM_STATE_STARTED s in
      if oldstate \<noteq> SBI_HSM_STATE_RESUME_PENDING then (Hang, s) else (Ret 0, suspend_non_ret_restore h s))"

text \<open>The checks of a suspend request, with the error to return.\<close>

definition suspend_check :: "sbi_domain option \<Rightarrow> u32 \<Rightarrow> u64 \<Rightarrow> u64 \<Rightarrow> int option" where
  "suspend_check dp st raddr rmode =
     (if dp = None then Some SBI_EINVAL
      else if SBI_HSM_SUSPEND_RET_DEFAULT < st \<and> st < SBI_HSM_SUSPEND_RET_PLATFORM then Some SBI_EINVAL
      else if SBI_HSM_SUSPEND_NON_RET_DEFAULT < st \<and> st < SBI_HSM_SUSPEND_NON_RET_PLATFORM then Some SBI_EINVAL
      else if non_ret st \<and> rmode \<noteq> PRV_S \<and> rmode \<noteq> PRV_U then Some SBI_EINVAL
      else if non_ret st \<and> \<not> sbi_domain_check_addr dp raddr rmode SBI_DOMAIN_EXECUTE then Some SBI_EINVALID_ADDR
      else None)"

text \<open>The label \<^verbatim>\<open>fail_restore_state\<close>.\<close>

definition suspend_restore :: "nat \<Rightarrow> int \<Rightarrow> hsm_state \<Rightarrow> hsm_end \<times> hsm_state" where
  "suspend_restore h ret s =
     (let (oldstate, s) = atomic_cmpxchg h SBI_HSM_STATE_SUSPENDED SBI_HSM_STATE_STARTED s in
      if oldstate \<noteq> SBI_HSM_STATE_SUSPENDED then (Hang, s) else (Ret ret, s))"

text \<open>From the exchange to the platform's suspend, and what follows when that returns \<open>ret\<close>.\<close>

definition suspend_begin :: "nat \<Rightarrow> u32 \<Rightarrow> u64 \<Rightarrow> u64 \<Rightarrow> u64 \<Rightarrow> hsm_state \<Rightarrow> bool \<times> hsm_state" where
  "suspend_begin h st raddr rmode priv s =
     (let s = set_next h priv raddr rmode s;
          (oldstate, s) = atomic_cmpxchg h SBI_HSM_STATE_STARTED SBI_HSM_STATE_SUSPENDED s
      in if oldstate \<noteq> SBI_HSM_STATE_STARTED then (False, s)
         else let s = upd_hdata h (\<lambda>d. d\<lparr>suspend_type := st\<rparr>) s in
           (True, if non_ret st then suspend_non_ret_save h s else s))"

definition suspend_end :: "nat \<Rightarrow> u32 \<Rightarrow> int \<Rightarrow> hsm_state \<Rightarrow> hsm_end \<times> hsm_state" where
  "suspend_end h st ret s =
     (let ret = (if ret = SBI_ENOTSUPP \<and> (st = SBI_HSM_SUSPEND_RET_DEFAULT \<or> st = SBI_HSM_SUSPEND_NON_RET_DEFAULT) then 0 else ret) in
      if ret = 0 \<and> non_ret st then (Warmboot, s) else suspend_restore h ret s)"

definition sbi_hsm_hart_suspend ::
    "domain_state \<Rightarrow> nat \<Rightarrow> u32 \<Rightarrow> u64 \<Rightarrow> u64 \<Rightarrow> u64 \<Rightarrow> hsm_state \<Rightarrow> hsm_end \<times> hsm_state" where
  "sbi_hsm_hart_suspend ds h st raddr rmode priv s =
     (case suspend_check (thishart_domain ds h) st raddr rmode of
        Some rc \<Rightarrow> (Ret rc, s)
      | None \<Rightarrow>
          (case suspend_begin h st raddr rmode priv s of
             (False, s) \<Rightarrow> suspend_restore h SBI_EDENIED s
           | (True, s) \<Rightarrow>
               (case hsm_device_hart_suspend h st s of
                  (None, s) \<Rightarrow> (Warmboot, s)
                | (Some ret, s) \<Rightarrow> suspend_end h st ret s)))"

section \<open>Calls from the supervisor\<close>

text \<open>
  The handler of the hart state extension: \<open>a0\<close>, \<open>a1\<close>, \<open>a2\<close> are the caller's registers
  and \<open>smode\<close> the mode it was in. The number of the hart is cut to 32 bits. On success the result is the value returned.
\<close>

definition sbi_ecall_hsm_handler ::
    "(nat \<Rightarrow> int) \<Rightarrow> sbi_platform option \<Rightarrow> domain_state \<Rightarrow> nat \<Rightarrow> u64 \<Rightarrow> u64 \<Rightarrow> u64 \<Rightarrow> u64 \<Rightarrow> u64 \<Rightarrow> hsm_state
      \<Rightarrow> hsm_end \<times> int option \<times> hsm_state" where
  "sbi_ecall_hsm_handler ipi plat ds h smode funcid a0 a1 a2 s =
     (let hartid = unat (ucast a0 :: u32); dp = thishart_domain ds h;
          (e, s) = (if funcid = 0 then case sbi_hsm_hart_start ipi h dp hartid a1 smode a2 s of (rc, s) \<Rightarrow> (Ret rc, s)
            else if funcid = 1 then sbi_hsm_hart_stop plat ds h True s
            else if funcid = 2 then (Ret (sbi_hsm_hart_get_state dp hartid s), s)
            else if funcid = 3 then sbi_hsm_hart_suspend ds h (ucast a0) a1 smode a2 s
            else (Ret SBI_ENOTSUPP, s))
      in case e of Ret r \<Rightarrow> if 0 \<le> r then (Ret 0, Some r, s) else (Ret r, None, s) | _ \<Rightarrow> (e, None, s))"

section \<open>Starting the domains\<close>

fun finalize_loop :: "(nat \<Rightarrow> int) \<Rightarrow> nat \<Rightarrow> domain_state \<Rightarrow> nat list \<Rightarrow> hsm_state \<Rightarrow> int \<times> hsm_state" where
  "finalize_loop ipi cold ds [] s = (0, s)"
| "finalize_loop ipi cold ds (d # rest) s =
     (let dd = domains ds d; dhart = boot_hartid dd in
      if SBI_HARTMASK_MAX_BITS \<le> dhart then finalize_loop ipi cold ds rest s
      else if \<not> sbi_hartmask_test_hart dhart (the (possible_harts dd)) then finalize_loop ipi cold ds rest s
      else if hartid_to_domain_table ds dhart \<noteq> Some d \<or> \<not> sbi_hartmask_test_hart dhart (assigned_harts dd)
      then finalize_loop ipi cold ds rest s
      else if dhart = cold then
        finalize_loop ipi cold ds rest (set_next cold (next_arg1 dd) (next_addr dd) (next_mode dd) s)
      else case sbi_hsm_hart_start ipi cold None dhart (next_addr dd) (next_mode dd) (next_arg1 dd) s of
        (rc, s) \<Rightarrow> if rc \<noteq> 0 then (rc, s) else finalize_loop ipi cold ds rest s)"

text \<open>\<open>domains_init\<close> is the platform's hook that registers further domains.\<close>

definition sbi_domain_finalize ::
    "(domain_state \<Rightarrow> int \<times> domain_state) \<Rightarrow> (nat \<Rightarrow> int) \<Rightarrow> nat \<Rightarrow> domain_state \<Rightarrow> hsm_state \<Rightarrow> int \<times> domain_state \<times> hsm_state" where
  "sbi_domain_finalize domains_init ipi cold ds s =
     (case domains_init ds of (rc, ds) \<Rightarrow>
        if rc \<noteq> 0 then (rc, ds, s)
        else case finalize_loop ipi cold ds (domidx_to_domain_table ds) s of (rc, s) \<Rightarrow>
          if rc \<noteq> 0 then (rc, ds, s) else (0, ds\<lparr>domain_finalized := True\<rparr>, s))"

end
