(* ===== verification/SbiHsmRun.thy ===== *)
theory SbiHsmRun
  imports SbiHsm
begin

text \<open>
  The harts of the machine running the operations of hart state management together. Every
  hart has a place in the firmware; one step is one hart going from one access to the shared
  state of a hart to the next, so that the steps of different harts interleave between any two such
  accesses. The warm boot of \<^verbatim>\<open>sbi_init.c\<close> resumes a suspended hart and lets any other wait.
\<close>

section \<open>Steps\<close>

datatype place =
    Waiting u64
  | Booting
  | Running u64
  | Starting u64 nat u64 u64 u64
  | Stopping
  | Suspended u64 u32
  | Resumable
  | Resuming
  | Powered_off
  | Hung

type_synonym harts_machine = "(nat \<Rightarrow> place) \<times> hsm_state"

inductive hstep :: "(nat \<Rightarrow> int) \<Rightarrow> sbi_platform option \<Rightarrow> domain_state \<Rightarrow> harts_machine \<Rightarrow> harts_machine \<Rightarrow> bool"
  for ipi :: "nat \<Rightarrow> int" and plat :: "sbi_platform option" and ds :: domain_state
where
  start_claim: "pc h = Running a \<Longrightarrow> hart_start_claim (thishart_domain ds h) t saddr smode s = (None, s') \<Longrightarrow>
     hstep ipi plat ds (pc, s) (pc(h := Starting a t saddr smode priv), s')"
| start_refused: "pc h = Running a \<Longrightarrow> hart_start_claim (thishart_domain ds h) t saddr smode s = (Some rc, s') \<Longrightarrow>
     hstep ipi plat ds (pc, s) (pc, s')"
| start_finish: "pc h = Starting a t saddr smode priv \<Longrightarrow> hart_start_finish ipi h t saddr smode priv s = (rc, s') \<Longrightarrow>
     hstep ipi plat ds (pc, s) (pc(h := Running a), s')"
| wait_end: "pc h = Waiting saved \<Longrightarrow> hart_wait_poll h saved s = Some s' \<Longrightarrow>
     hstep ipi plat ds (pc, s) (pc(h := Booting), s')"
| next_jump: "pc h = Booting \<Longrightarrow> sbi_hsm_prepare_next_jump h s = (Ret rc, s') \<Longrightarrow>
     hstep ipi plat ds (pc, s) (pc(h := Running (sbi_scratch.next_addr (hdr s' h))), s')"
| next_jump_hang: "pc h = Booting \<Longrightarrow> sbi_hsm_prepare_next_jump h s = (Hang, s') \<Longrightarrow>
     hstep ipi plat ds (pc, s) (pc(h := Hung), s')"
| stop: "pc h = Running a \<Longrightarrow> sbi_hsm_hart_stop plat ds h False s = (Ret 0, s') \<Longrightarrow>
     hstep ipi plat ds (pc, s) (pc(h := Stopping), s')"
| stop_refused: "pc h = Running a \<Longrightarrow> sbi_hsm_hart_stop plat ds h False s = (Ret rc, s') \<Longrightarrow> rc \<noteq> 0 \<Longrightarrow>
     hstep ipi plat ds (pc, s) (pc, s')"
| stopped: "pc h = Stopping \<Longrightarrow> sbi_exit plat h s = (Warmboot, s1) \<Longrightarrow> hart_wait_begin h s1 = (saved, s') \<Longrightarrow>
     hstep ipi plat ds (pc, s) (pc(h := Waiting saved), s')"
| power_off: "pc h = Stopping \<Longrightarrow> sbi_exit plat h s = (Off, s') \<Longrightarrow>
     hstep ipi plat ds (pc, s) (pc(h := Powered_off), s')"
| stop_hang: "pc h = Stopping \<Longrightarrow> sbi_exit plat h s = (Hang, s') \<Longrightarrow>
     hstep ipi plat ds (pc, s) (pc(h := Hung), s')"
| power_on: "pc h = Powered_off \<Longrightarrow> hart_wait_begin h s = (saved, s') \<Longrightarrow>
     hstep ipi plat ds (pc, s) (pc(h := Waiting saved), s')"
| suspend: "pc h = Running a \<Longrightarrow> suspend_check (thishart_domain ds h) st raddr rmode = None \<Longrightarrow>
     suspend_begin h st raddr rmode priv s = (True, s') \<Longrightarrow>
     hstep ipi plat ds (pc, s) (pc(h := Suspended a st), s')"
| suspend_hang: "pc h = Running a \<Longrightarrow> suspend_check (thishart_domain ds h) st raddr rmode = None \<Longrightarrow>
     suspend_begin h st raddr rmode priv s = (False, s1) \<Longrightarrow> suspend_restore h SBI_EDENIED s1 = (Hang, s') \<Longrightarrow>
     hstep ipi plat ds (pc, s) (pc(h := Hung), s')"
| suspend_denied: "pc h = Running a \<Longrightarrow> suspend_check (thishart_domain ds h) st raddr rmode = None \<Longrightarrow>
     suspend_begin h st raddr rmode priv s = (False, s1) \<Longrightarrow> suspend_restore h SBI_EDENIED s1 = (Ret rc, s') \<Longrightarrow>
     hstep ipi plat ds (pc, s) (pc, s')"
| suspend_gone: "pc h = Suspended a st \<Longrightarrow> hsm_device_hart_suspend h st s = (None, s') \<Longrightarrow>
     hstep ipi plat ds (pc, s) (pc(h := Resumable), s')"
| suspend_warmboot: "pc h = Suspended a st \<Longrightarrow> hsm_device_hart_suspend h st s = (Some ret, s1) \<Longrightarrow>
     suspend_end h st ret s1 = (Warmboot, s') \<Longrightarrow>
     hstep ipi plat ds (pc, s) (pc(h := Resumable), s')"
| suspend_return: "pc h = Suspended a st \<Longrightarrow> hsm_device_hart_suspend h st s = (Some ret, s1) \<Longrightarrow>
     suspend_end h st ret s1 = (Ret rc, s') \<Longrightarrow>
     hstep ipi plat ds (pc, s) (pc(h := Running a), s')"
| suspend_end_hang: "pc h = Suspended a st \<Longrightarrow> hsm_device_hart_suspend h st s = (Some ret, s1) \<Longrightarrow>
     suspend_end h st ret s1 = (Hang, s') \<Longrightarrow>
     hstep ipi plat ds (pc, s) (pc(h := Hung), s')"
| resume_start: "pc h = Resumable \<Longrightarrow> sbi_hsm_hart_resume_start h s = (Ret rc, s') \<Longrightarrow>
     hstep ipi plat ds (pc, s) (pc(h := Resuming), s')"
| resume_start_hang: "pc h = Resumable \<Longrightarrow> sbi_hsm_hart_resume_start h s = (Hang, s') \<Longrightarrow>
     hstep ipi plat ds (pc, s) (pc(h := Hung), s')"
| resume_finish: "pc h = Resuming \<Longrightarrow> sbi_hsm_hart_resume_finish h s = (Ret rc, s') \<Longrightarrow>
     hstep ipi plat ds (pc, s) (pc(h := Running (sbi_scratch.next_addr (hdr s' h))), s')"
| resume_finish_hang: "pc h = Resuming \<Longrightarrow> sbi_hsm_hart_resume_finish h s = (Hang, s') \<Longrightarrow>
     hstep ipi plat ds (pc, s) (pc(h := Hung), s')"

inductive_cases hstepE: "hstep ipi plat ds (pc, s) (pc', s')"

inductive hreach :: "(nat \<Rightarrow> int) \<Rightarrow> sbi_platform option \<Rightarrow> domain_state \<Rightarrow> harts_machine \<Rightarrow> harts_machine \<Rightarrow> bool"
  for ipi :: "nat \<Rightarrow> int" and plat :: "sbi_platform option" and ds :: domain_state and m :: harts_machine
where
  hreach_start: "hreach ipi plat ds m m"
| hreach_step: "hreach ipi plat ds m m1 \<Longrightarrow> hstep ipi plat ds m1 m2 \<Longrightarrow> hreach ipi plat ds m m2"

section \<open>Places and states agree\<close>

text \<open>What the state of a hart must be at each of its places.\<close>

fun place_ok :: "domain_state \<Rightarrow> nat \<Rightarrow> place \<Rightarrow> int \<Rightarrow> bool" where
  "place_ok ds h (Waiting _) v \<longleftrightarrow> v = SBI_HSM_STATE_STOPPED \<or> v = SBI_HSM_STATE_START_PENDING"
| "place_ok ds h Powered_off v \<longleftrightarrow> v = SBI_HSM_STATE_STOPPED \<or> v = SBI_HSM_STATE_START_PENDING"
| "place_ok ds h Booting v \<longleftrightarrow> v = SBI_HSM_STATE_START_PENDING"
| "place_ok ds h (Running _) v \<longleftrightarrow> v = SBI_HSM_STATE_STARTED"
| "place_ok ds h (Starting _ _ _ _ _) v \<longleftrightarrow> v = SBI_HSM_STATE_STARTED"
| "place_ok ds h Stopping v \<longleftrightarrow> v = SBI_HSM_STATE_STOP_PENDING \<and> hartid_to_domain_table ds h \<noteq> None"
| "place_ok ds h (Suspended _ _) v \<longleftrightarrow> v = SBI_HSM_STATE_SUSPENDED"
| "place_ok ds h Resumable v \<longleftrightarrow> v = SBI_HSM_STATE_SUSPENDED"
| "place_ok ds h Resuming v \<longleftrightarrow> v = SBI_HSM_STATE_RESUME_PENDING"
| "place_ok ds h Hung v \<longleftrightarrow> False"

definition machine_ok :: "domain_state \<Rightarrow> harts_machine \<Rightarrow> bool" where
  "machine_ok ds m \<longleftrightarrow> (\<forall>h. place_ok ds h (fst m h) (hstate (snd m) h))"

text \<open>The platform's own stop operation does not return, as its documentation demands.\<close>

definition stop_works :: "hsm_state \<Rightarrow> bool" where
  "stop_works s \<longleftrightarrow> (\<forall>d r. hsm_dev s = Some d \<longrightarrow> hart_stop d = Some r \<longrightarrow> r = None)"

lemma place_ok_start: "place_ok ds h p SBI_HSM_STATE_STOPPED \<Longrightarrow> place_ok ds h p SBI_HSM_STATE_START_PENDING"
  by (cases p) (simp_all add: hsm_states)

text \<open>
  Every operation changes the state of at most one hart, in the way named here, and no device.
\<close>

definition moves :: "nat \<Rightarrow> int \<Rightarrow> hsm_state \<Rightarrow> hsm_state \<Rightarrow> bool" where
  "moves h v s s' \<longleftrightarrow> hstate s' = (hstate s)(h := v) \<and> hsm_dev s' = hsm_dev s"

definition stays :: "hsm_state \<Rightarrow> hsm_state \<Rightarrow> bool" where
  "stays s s' \<longleftrightarrow> hstate s' = hstate s \<and> hsm_dev s' = hsm_dev s"

lemma hstate_simps [simp]:
  "hstate (call c s) = hstate s" "hstate (set_next h p a m s) = hstate s" "hstate (s\<lparr>mie := x\<rparr>) = hstate s"
  "hstate (csr_write_mip h v s) = hstate s" "hstate (s\<lparr>calls := cs\<rparr>) = hstate s"
  "hsm_dev (call c s) = hsm_dev s" "hsm_dev (set_next h p a m s) = hsm_dev s" "hsm_dev (csr_write_mip h v s) = hsm_dev s"
  "hsm_dev (upd_hdata h f s) = hsm_dev s"
  by (simp_all add: hstate_def call_def set_next_def csr_write_mip_def upd_hdata_def fun_eq_iff)

lemma hstate_upd [simp]: "hstate (upd_hdata h f s) = (hstate s)(h := state (f (hdata s h)))"
  by (auto simp: hstate_def upd_hdata_def fun_eq_iff)

lemma claim_moves:
  "hart_start_claim dp t a m s = (None, s') \<Longrightarrow> hstate s t = SBI_HSM_STATE_STOPPED \<and> moves t SBI_HSM_STATE_START_PENDING s s'"
  by (auto simp: hart_start_claim_def atomic_cmpxchg_def moves_def Let_def hsm_states split: if_splits)

lemma claim_refused: "hart_start_claim dp t a m s = (Some rc, s') \<Longrightarrow> s' = s"
  by (auto simp: hart_start_claim_def atomic_cmpxchg_def Let_def hsm_states split: if_splits)

lemma finish_stays: "hart_start_finish ipi h t a m p s = (rc, s') \<Longrightarrow> stays s s'"
  by (auto simp: hart_start_finish_def hsm_device_hart_start_def stays_def Let_def split: if_splits option.splits)

lemma poll_stays: "hart_wait_poll h saved s = Some s' \<Longrightarrow> hstate s h = SBI_HSM_STATE_START_PENDING \<and> stays s s'"
  by (auto simp: hart_wait_poll_def stays_def split: if_splits)

lemma wait_begin_stays: "hart_wait_begin h s = (saved, s') \<Longrightarrow> stays s s'"
  by (auto simp: hart_wait_begin_def stays_def)

lemma jump_moves:
  "hstate s h = SBI_HSM_STATE_START_PENDING \<Longrightarrow> sbi_hsm_prepare_next_jump h s = (e, s') \<Longrightarrow> e = Ret 0 \<and> moves h SBI_HSM_STATE_STARTED s s'"
  by (auto simp: sbi_hsm_prepare_next_jump_def atomic_cmpxchg_def moves_def)

lemma stop_moves:
  "sbi_hsm_hart_stop plat ds h False s = (Ret 0, s') \<Longrightarrow>
     moves h SBI_HSM_STATE_STOP_PENDING s s' \<and> hartid_to_domain_table ds h \<noteq> None"
  by (auto simp: sbi_hsm_hart_stop_def atomic_cmpxchg_def moves_def thishart_domain_def SBI_EFAIL_def split: if_splits)

lemma stop_refused_same: "sbi_hsm_hart_stop plat ds h False s = (Ret rc, s') \<Longrightarrow> rc \<noteq> 0 \<Longrightarrow> s' = s"
  by (auto simp: sbi_hsm_hart_stop_def atomic_cmpxchg_def split: if_splits)

lemma exit_moves:
  assumes "sbi_exit plat h s = (e, s')" and "hstate s h = SBI_HSM_STATE_STOP_PENDING" and "\<not> sbi_platform_hart_invalid plat h"
    and "stop_works s"
  shows "(e = Warmboot \<or> e = Off) \<and> moves h SBI_HSM_STATE_STOPPED s s'"
  using assms
  by (auto simp: sbi_exit_def sbi_hsm_exit_def atomic_cmpxchg_def Let_def hsm_device_has_hart_hotplug_def hsm_device_hart_stop_def
      moves_def stop_works_def hsm_states split: option.splits prod.splits if_splits)

lemma suspend_begin_moves:
  "hstate s h = SBI_HSM_STATE_STARTED \<Longrightarrow> suspend_begin h st raddr rmode priv s = (b, s') \<Longrightarrow> b \<and> moves h SBI_HSM_STATE_SUSPENDED s s'"
  by (auto simp: suspend_begin_def atomic_cmpxchg_def suspend_non_ret_save_def Let_def moves_def fun_eq_iff
      upd_hdata_def hstate_def set_next_def split: if_splits)

lemma dev_suspend_stays: "hsm_device_hart_suspend h st s = (r, s') \<Longrightarrow> stays s s'"
  by (auto simp: hsm_device_hart_suspend_def stays_def split: option.splits)

lemma suspend_end_moves:
  "hstate s h = SBI_HSM_STATE_SUSPENDED \<Longrightarrow> suspend_end h st ret s = (e, s') \<Longrightarrow>
     (e = Warmboot \<and> s' = s) \<or> (\<exists>rc. e = Ret rc) \<and> moves h SBI_HSM_STATE_STARTED s s'"
  by (auto simp: suspend_end_def suspend_restore_def atomic_cmpxchg_def Let_def moves_def split: if_splits)

lemma resume_start_moves:
  "hstate s h = SBI_HSM_STATE_SUSPENDED \<Longrightarrow> sbi_hsm_hart_resume_start h s = (e, s') \<Longrightarrow>
     (\<exists>rc. e = Ret rc) \<and> moves h SBI_HSM_STATE_RESUME_PENDING s s'"
  by (auto simp: sbi_hsm_hart_resume_start_def atomic_cmpxchg_def hsm_device_hart_resume_def moves_def split: option.splits)

lemma resume_finish_moves:
  "hstate s h = SBI_HSM_STATE_RESUME_PENDING \<Longrightarrow> sbi_hsm_hart_resume_finish h s = (e, s') \<Longrightarrow>
     (\<exists>rc. e = Ret rc) \<and> moves h SBI_HSM_STATE_STARTED s s'"
  by (auto simp: sbi_hsm_hart_resume_finish_def atomic_cmpxchg_def suspend_non_ret_restore_def moves_def Let_def)

lemmas hsm_moves = claim_moves claim_refused finish_stays poll_stays wait_begin_stays jump_moves stop_moves
  stop_refused_same suspend_begin_moves dev_suspend_stays suspend_end_moves resume_start_moves resume_finish_moves

lemma machine_ok_place: "machine_ok ds (pc, s) \<Longrightarrow> pc h = p \<Longrightarrow> place_ok ds h p (hstate s h)"
  by (auto simp: machine_ok_def)

lemma machine_ok_move:
  "machine_ok ds (pc, s) \<Longrightarrow> moves h v s s' \<Longrightarrow> place_ok ds h p v \<Longrightarrow> machine_ok ds (pc(h := p), s') \<and> hsm_dev s' = hsm_dev s"
  by (auto simp: machine_ok_def moves_def)

lemma machine_ok_stay:
  "machine_ok ds (pc, s) \<Longrightarrow> stays s s' \<Longrightarrow> place_ok ds h p (hstate s h) \<Longrightarrow>
   machine_ok ds (pc(h := p), s') \<and> hsm_dev s' = hsm_dev s"
  by (auto simp: machine_ok_def stays_def)

lemma machine_ok_claim:
  assumes "machine_ok ds (pc, s)" and "moves t SBI_HSM_STATE_START_PENDING s s'" and "hstate s t = SBI_HSM_STATE_STOPPED"
    and "place_ok ds h p (hstate s h)" and "h \<noteq> t"
  shows "machine_ok ds (pc(h := p), s') \<and> hsm_dev s' = hsm_dev s"
proof -
  have "place_ok ds t (pc t) SBI_HSM_STATE_START_PENDING" using machine_ok_place [OF assms(1) refl, of t] assms(3) by (intro place_ok_start) simp
  with assms show ?thesis by (auto simp: machine_ok_def moves_def)
qed

lemma moves_stays: "moves h v s t \<Longrightarrow> stays t u \<Longrightarrow> moves h v s u" and stays_moves: "stays s t \<Longrightarrow> moves h v t u \<Longrightarrow> moves h v s u"
  by (auto simp: moves_def stays_def)

text \<open>The assumptions on the platform: only harts of the platform have a domain, and stopping works.\<close>

definition platform_ok :: "sbi_platform option \<Rightarrow> domain_state \<Rightarrow> hsm_state \<Rightarrow> bool" where
  "platform_ok plat ds s \<longleftrightarrow> stop_works s \<and> (\<forall>h. hartid_to_domain_table ds h \<noteq> None \<longrightarrow> \<not> sbi_platform_hart_invalid plat h)"

lemma hstep_ok:
  assumes "hstep ipi plat ds m m'" and "machine_ok ds m" and "platform_ok plat ds (snd m)"
  shows "machine_ok ds m' \<and> hsm_dev (snd m') = hsm_dev (snd m)"
  using assms
proof (induction rule: hstep.induct)
  case (start_claim pc h a t saddr smode s s' priv)
  note c = claim_moves [OF start_claim.hyps(2)] and p = machine_ok_place [OF start_claim.prems(1) start_claim.hyps(1)]
  have "h \<noteq> t" using c p by (auto simp: hsm_states)
  then have "machine_ok ds (pc(h := Starting a t saddr smode priv), s') \<and> hsm_dev s' = hsm_dev s"
    using c p by (intro machine_ok_claim [OF start_claim.prems(1)]) auto
  then show ?case by simp
next
  case (start_refused pc h a t saddr smode s rc s')
  then show ?case by (auto dest: claim_refused)
next
  case (start_finish pc h a t saddr smode priv s rc s')
  show ?case using machine_ok_place [OF start_finish.prems(1) start_finish.hyps(1)] machine_ok_stay [OF start_finish.prems(1) finish_stays [OF start_finish.hyps(2)], of h "Running a"] by simp
next
  case (wait_end pc h saved s s')
  note w = poll_stays [OF wait_end.hyps(2)]
  show ?case using w machine_ok_stay [OF wait_end.prems(1) conjunct2 [OF w], of h Booting] by simp
next
  case (next_jump pc h s rc s')
  from machine_ok_place [OF next_jump.prems(1) next_jump.hyps(1)] have "moves h SBI_HSM_STATE_STARTED s s'" using jump_moves [OF _ next_jump.hyps(2)] by simp
  from machine_ok_move [OF next_jump.prems(1) this, of "Running (sbi_scratch.next_addr (hdr s' h))"] show ?case by simp
next
  case (next_jump_hang pc h s s')
  from machine_ok_place [OF next_jump_hang.prems(1) next_jump_hang.hyps(1)] show ?case using jump_moves [OF _ next_jump_hang.hyps(2)] by simp
next
  case (stop pc h a s s')
  note w = stop_moves [OF stop.hyps(2)]
  from machine_ok_move [OF stop.prems(1) conjunct1 [OF w], of Stopping] w show ?case by simp
next
  case (stop_refused pc h a s rc s')
  then show ?case by (auto dest: stop_refused_same)
next
  case (stopped pc h s s1 saved s')
  have "place_ok ds h Stopping (hstate s h)" by (rule machine_ok_place [OF stopped.prems(1) stopped.hyps(1)])
  with stopped.prems(2) have w: "moves h SBI_HSM_STATE_STOPPED s s1"
    using exit_moves [OF stopped.hyps(2)] by (simp add: platform_ok_def)
  show ?case using machine_ok_move [OF stopped.prems(1) moves_stays [OF w wait_begin_stays [OF stopped.hyps(3)]], of "Waiting saved"] by simp
next
  case (power_off pc h s s')
  have "place_ok ds h Stopping (hstate s h)" by (rule machine_ok_place [OF power_off.prems(1) power_off.hyps(1)])
  with power_off.prems(2) have w: "moves h SBI_HSM_STATE_STOPPED s s'"
    using exit_moves [OF power_off.hyps(2)] by (simp add: platform_ok_def)
  show ?case using machine_ok_move [OF power_off.prems(1) w, of Powered_off] by simp
next
  case (stop_hang pc h s s')
  have "place_ok ds h Stopping (hstate s h)" by (rule machine_ok_place [OF stop_hang.prems(1) stop_hang.hyps(1)])
  with stop_hang.prems(2) show ?case using exit_moves [OF stop_hang.hyps(2)] by (simp add: platform_ok_def)
next
  case (power_on pc h s saved s')
  show ?case using machine_ok_place [OF power_on.prems(1) power_on.hyps(1)] machine_ok_stay [OF power_on.prems(1) wait_begin_stays [OF power_on.hyps(2)], of h "Waiting saved"] by simp
next
  case (suspend pc h a st raddr rmode priv s s')
  from machine_ok_place [OF suspend.prems(1) suspend.hyps(1)] have "moves h SBI_HSM_STATE_SUSPENDED s s'" using suspend_begin_moves [OF _ suspend.hyps(3)] by simp
  from machine_ok_move [OF suspend.prems(1) this, of "Suspended a st"] show ?case by simp
next
  case (suspend_hang pc h a st raddr rmode priv s s1 s')
  from machine_ok_place [OF suspend_hang.prems(1) suspend_hang.hyps(1)] show ?case using suspend_begin_moves [OF _ suspend_hang.hyps(3)] by simp
next
  case (suspend_denied pc h a st raddr rmode priv s s1 rc s')
  from machine_ok_place [OF suspend_denied.prems(1) suspend_denied.hyps(1)] show ?case using suspend_begin_moves [OF _ suspend_denied.hyps(3)] by simp
next
  case (suspend_gone pc h a st s s')
  show ?case using machine_ok_place [OF suspend_gone.prems(1) suspend_gone.hyps(1)] machine_ok_stay [OF suspend_gone.prems(1) dev_suspend_stays [OF suspend_gone.hyps(2)], of h Resumable] by simp
next
  case (suspend_warmboot pc h a st s ret s1 s')
  note d = dev_suspend_stays [OF suspend_warmboot.hyps(2)] and p = machine_ok_place [OF suspend_warmboot.prems(1) suspend_warmboot.hyps(1)]
  have "hstate s1 h = SBI_HSM_STATE_SUSPENDED" using d p by (simp add: stays_def)
  note e = suspend_end_moves [OF this suspend_warmboot.hyps(3)]
  show ?case using e d p machine_ok_stay [OF suspend_warmboot.prems(1) d, of h Resumable] by simp
next
  case (suspend_return pc h a st s ret s1 rc s')
  note d = dev_suspend_stays [OF suspend_return.hyps(2)] and p = machine_ok_place [OF suspend_return.prems(1) suspend_return.hyps(1)]
  have "hstate s1 h = SBI_HSM_STATE_SUSPENDED" using d p by (simp add: stays_def)
  note e = suspend_end_moves [OF this suspend_return.hyps(3)]
  have "moves h SBI_HSM_STATE_STARTED s s'" using e d stays_moves by blast
  from machine_ok_move [OF suspend_return.prems(1) this, of "Running a"] show ?case by simp
next
  case (suspend_end_hang pc h a st s ret s1 s')
  note d = dev_suspend_stays [OF suspend_end_hang.hyps(2)] and p = machine_ok_place [OF suspend_end_hang.prems(1) suspend_end_hang.hyps(1)]
  have "hstate s1 h = SBI_HSM_STATE_SUSPENDED" using d p by (simp add: stays_def)
  note e = suspend_end_moves [OF this suspend_end_hang.hyps(3)]
  then show ?case by simp
next
  case (resume_start pc h s rc s')
  from machine_ok_place [OF resume_start.prems(1) resume_start.hyps(1)] have "moves h SBI_HSM_STATE_RESUME_PENDING s s'" using resume_start_moves [OF _ resume_start.hyps(2)] by simp
  from machine_ok_move [OF resume_start.prems(1) this, of "Resuming"] show ?case by simp
next
  case (resume_start_hang pc h s s')
  from machine_ok_place [OF resume_start_hang.prems(1) resume_start_hang.hyps(1)] show ?case using resume_start_moves [OF _ resume_start_hang.hyps(2)] by simp
next
  case (resume_finish pc h s rc s')
  from machine_ok_place [OF resume_finish.prems(1) resume_finish.hyps(1)] have "moves h SBI_HSM_STATE_STARTED s s'" using resume_finish_moves [OF _ resume_finish.hyps(2)] by simp
  from machine_ok_move [OF resume_finish.prems(1) this, of "Running (sbi_scratch.next_addr (hdr s' h))"] show ?case by simp
next
  case (resume_finish_hang pc h s s')
  from machine_ok_place [OF resume_finish_hang.prems(1) resume_finish_hang.hyps(1)] show ?case using resume_finish_moves [OF _ resume_finish_hang.hyps(2)] by simp
qed

lemma platform_ok_cong: "hsm_dev t = hsm_dev s \<Longrightarrow> platform_ok plat ds t = platform_ok plat ds s"
  by (simp add: platform_ok_def stop_works_def)

lemma hreach_ok:
  "hreach ipi plat ds m m' \<Longrightarrow> machine_ok ds m \<Longrightarrow> platform_ok plat ds (snd m) \<Longrightarrow>
     machine_ok ds m' \<and> platform_ok plat ds (snd m')"
proof (induction rule: hreach.induct)
  case (hreach_step m1 m2)
  then have "machine_ok ds m1" "platform_ok plat ds (snd m1)" by simp_all
  note h = hstep_ok [OF hreach_step.hyps(2) this]
  with platform_ok_cong [OF conjunct2 [OF h]] \<open>platform_ok plat ds (snd m1)\<close> show ?case by blast
qed simp


text \<open>
  The sample machine: hart 0 runs, hart 1 waits to be started, both belong to the root domain
  of the sample, and there is no device.
\<close>

definition two_harts :: domain_state where
  "two_harts = (domain_reset (\<lambda>_. root_reset))\<lparr>domains := \<lambda>_. sample_domain\<lparr>assigned_harts := \<lparr>bits = [3, 0]\<rparr>\<rparr>,
     hartid_to_domain_table := (\<lambda>h. if h < 2 then Some 0 else None)\<rparr>"

definition two_plat :: "sbi_platform option" where
  "two_plat = Some \<lparr>hart_count = 2, hart_index2id = None\<rparr>"

definition old_header :: sbi_scratch where
  "old_header = \<lparr>fw_start = 0x80000000, fw_size = 0x40000, next_arg1 = 0, next_addr = 0x80300000, next_mode = PRV_S,
     warmboot_addr = 0x80000100, platform_addr = 0, hartid_to_scratch = 0, trap_exit = 0, tmp0 = 0, options = 0\<rparr>"

definition two_state :: hsm_state where
  "two_state = \<lparr>scr = (scratch_reset (\<lambda>_. 0))\<lparr>hartid_to_scratch_table := (\<lambda>h. if h < 2 then Some 0x80040000 else None)\<rparr>,
     hdr = (\<lambda>_. old_header), hart_data_offset = 88,
     hdata = (\<lambda>h. \<lparr>state = if h = 0 then SBI_HSM_STATE_STARTED else SBI_HSM_STATE_STOPPED, suspend_type = 0, saved_mie = 0, saved_mip = 0\<rparr>),
     mie = (\<lambda>_. 0), mip = (\<lambda>_. 0), hsm_dev = None, init_count = (\<lambda>_. 0), calls = []\<rparr>"

definition two_places :: "nat \<Rightarrow> place" where
  "two_places h = (if h = 0 then Running 0x80200000 else Waiting 0)"

lemma two_ok: "machine_ok two_harts (two_places, two_state)" "platform_ok two_plat two_harts two_state"
  by (auto simp: machine_ok_def two_places_def two_state_def hstate_def platform_ok_def stop_works_def two_harts_def two_plat_def
      sbi_platform_hart_invalid_def sbi_platform_hart_index_def split: if_splits)

lemma two_claim:
  "hart_start_claim (thishart_domain two_harts 0) 1 0x80200000 PRV_S two_state =
     (None, upd_hdata 1 (\<lambda>d. d\<lparr>state := SBI_HSM_STATE_START_PENDING\<rparr>) two_state)"
proof -
  let ?d = "sample_domain\<lparr>assigned_harts := \<lparr>bits = [3, 0]\<rparr>\<rparr>"
  have "regions ?d = Some [\<lparr>order = 18, base = 0x80000000, flags = 0\<rparr>, region_all, no_region]" by (simp add: sample_domain_def)
  then have "sbi_domain_check_addr (Some ?d) 0x80200000 PRV_S SBI_DOMAIN_EXECUTE"
    by (simp add: domain_check_find for_each_memregion_def region_all_def no_region_def region_contains_def region_end_def
        BIT_def access_ok_def access_rwx_def)
  moreover have "sbi_domain_is_assigned_hart (Some ?d) 1"
    by (simp add: sbi_domain_is_assigned_hart_def sbi_hartmask_test_hart_def SBI_HARTMASK_MAX_BITS_def sbi_test_bit_def BIT_WORD_def)
  moreover have "thishart_domain two_harts 0 = Some ?d" by (simp add: thishart_domain_def two_harts_def)
  ultimately show ?thesis
    by (simp add: hart_start_claim_def has_scratch_def atomic_cmpxchg_def two_state_def hstate_def hsm_states)
qed


text \<open>
  C34: A hart that is being started can run away to the wrong address. The starting hart first
  marks the target as pending and only then writes where it is to begin, while the target
  leaves its wait loop as soon as it reads the pending state. In this run hart 0 has asked for
  hart 1 to begin at 0x80200000, and hart 1 already runs at 0x80300000, the address left over
  from an earlier time, before hart 0 has written the new one.
\<close>

theorem hsm_start_race:
  "\<exists>pc s. hreach (\<lambda>_. 0) two_plat two_harts (two_places, two_state) (pc, s) \<and>
     pc 0 = Starting 0x80200000 1 0x80200000 PRV_S 7 \<and> pc 1 = Running 0x80300000 \<and> hstate s 1 = SBI_HSM_STATE_STARTED"
proof -
  let ?s1 = "upd_hdata 1 (\<lambda>d. d\<lparr>state := SBI_HSM_STATE_START_PENDING\<rparr>) two_state"
  let ?s2 = "?s1\<lparr>mie := (mie ?s1)(1 := 0)\<rparr>"
  let ?s3 = "upd_hdata 1 (\<lambda>d. d\<lparr>state := SBI_HSM_STATE_STARTED\<rparr>) ?s2"
  let ?p1 = "two_places(0 := Starting 0x80200000 1 0x80200000 PRV_S 7)"
  have h1: "hstate ?s1 1 = SBI_HSM_STATE_START_PENDING" by simp
  have "hstep (\<lambda>_. 0) two_plat two_harts (two_places, two_state) (?p1, ?s1)"
    using two_claim by (intro hstep.start_claim) (simp_all add: two_places_def)
  moreover have "hstep (\<lambda>_. 0) two_plat two_harts (?p1, ?s1) (?p1(1 := Booting), ?s2)"
    using h1 by (intro hstep.wait_end [where saved = 0]) (simp_all add: two_places_def hart_wait_poll_def)
  moreover have "hstep (\<lambda>_. 0) two_plat two_harts (?p1(1 := Booting), ?s2)
      (?p1(1 := Booting, 1 := Running (sbi_scratch.next_addr (hdr ?s3 1))), ?s3)"
    using h1 by (intro hstep.next_jump [where rc = 0]) (simp_all add: sbi_hsm_prepare_next_jump_def atomic_cmpxchg_def)
  ultimately have "hreach (\<lambda>_. 0) two_plat two_harts (two_places, two_state)
      (?p1(1 := Booting, 1 := Running (sbi_scratch.next_addr (hdr ?s3 1))), ?s3)"
    by (blast intro: hreach_start hreach_step)
  moreover have "sbi_scratch.next_addr (hdr ?s3 1) = 0x80300000" by (simp add: upd_hdata_def two_state_def old_header_def)
  moreover have "hstate ?s3 1 = SBI_HSM_STATE_STARTED" by simp
  ultimately show ?thesis by fastforce
qed

section \<open>Start requests\<close>

text \<open>What a start request must satisfy before the hart's state is looked at.\<close>

definition start_allowed :: "sbi_domain option \<Rightarrow> nat \<Rightarrow> u64 \<Rightarrow> u64 \<Rightarrow> hsm_state \<Rightarrow> bool" where
  "start_allowed dp t saddr smode s \<longleftrightarrow> (smode = PRV_S \<or> smode = PRV_U) \<and> has_scratch s t \<and>
     (dp \<noteq> None \<longrightarrow> sbi_domain_is_assigned_hart dp t \<and> sbi_domain_check_addr dp saddr smode SBI_DOMAIN_EXECUTE)"

lemma claim_allowed:
  assumes "start_allowed dp t saddr smode s"
  shows "hart_start_claim dp t saddr smode s =
    (if hstate s t = SBI_HSM_STATE_STOPPED then (None, upd_hdata t (\<lambda>d. d\<lparr>state := SBI_HSM_STATE_START_PENDING\<rparr>) s)
     else if hstate s t = SBI_HSM_STATE_STARTED then (Some SBI_EALREADY, s) else (Some SBI_EINVAL, s))"
  using assms by (auto simp: start_allowed_def hart_start_claim_def atomic_cmpxchg_def hsm_states)

lemma finish_next:
  "hart_start_finish ipi h t saddr smode priv s = (rc, u) \<Longrightarrow>
     hdr u = (hdr s)(t := (hdr s t)\<lparr>sbi_scratch.next_arg1 := priv, sbi_scratch.next_addr := saddr, sbi_scratch.next_mode := smode\<rparr>)"
  by (auto simp: hart_start_finish_def hsm_device_hart_start_def set_next_def call_def Let_def split: if_splits option.splits)

text \<open>
  C18: A start request that passes the checks of mode, domain and address is answered by the
  state of the hart: a started hart is reported as already started and one in transition as an
  invalid request, both without any change. A stopped hart becomes pending, no other hart's
  state changes, and when the request is finished before the hart looks, the hart leaves its wait,
  becomes started and continues at the requested address, mode and argument.
\<close>

theorem hart_start_spec:
  assumes "start_allowed dp t saddr smode s" and "sbi_hsm_hart_start ipi h dp t saddr smode priv s = (rc, u)"
  shows "if hstate s t = SBI_HSM_STATE_STOPPED then
      hstate u = (hstate s)(t := SBI_HSM_STATE_START_PENDING) \<and>
      (\<exists>v w. hart_wait_poll t saved u = Some v \<and> sbi_hsm_prepare_next_jump t v = (Ret 0, w) \<and>
         hstate w t = SBI_HSM_STATE_STARTED \<and> mie w t = saved \<and> sbi_scratch.next_addr (hdr w t) = saddr \<and>
         sbi_scratch.next_mode (hdr w t) = smode \<and> sbi_scratch.next_arg1 (hdr w t) = priv)
    else u = s \<and> rc = (if hstate s t = SBI_HSM_STATE_STARTED then SBI_EALREADY else SBI_EINVAL)"
proof (cases "hstate s t = SBI_HSM_STATE_STOPPED")
  case True
  let ?c = "upd_hdata t (\<lambda>d. d\<lparr>state := SBI_HSM_STATE_START_PENDING\<rparr>) s"
  have f: "hart_start_finish ipi h t saddr smode priv ?c = (rc, u)"
    using assms True by (simp add: sbi_hsm_hart_start_def claim_allowed)
  have hu: "hstate u = (hstate s)(t := SBI_HSM_STATE_START_PENDING)" using finish_stays [OF f] by (simp add: stays_def)
  let ?v = "u\<lparr>mie := (mie u)(t := saved)\<rparr>"
  let ?w = "upd_hdata t (\<lambda>d. d\<lparr>state := SBI_HSM_STATE_STARTED\<rparr>) ?v"
  have "hart_wait_poll t saved u = Some ?v" "sbi_hsm_prepare_next_jump t ?v = (Ret 0, ?w)"
    using hu by (simp_all add: hart_wait_poll_def sbi_hsm_prepare_next_jump_def atomic_cmpxchg_def)
  moreover have "hdr ?w = hdr u" "mie ?w t = saved" "hstate ?w t = SBI_HSM_STATE_STARTED" by (simp_all add: upd_hdata_def hstate_def)
  ultimately show ?thesis using True hu finish_next [OF f] by (simp add: upd_hdata_def)
next
  case False
  then show ?thesis using assms by (auto simp: sbi_hsm_hart_start_def claim_allowed split: if_splits)
qed

lemma two_allowed: "start_allowed (thishart_domain two_harts 0) 1 0x80200000 PRV_S two_state"
  using two_claim by (auto simp: start_allowed_def hart_start_claim_def split: if_splits)

theorem hart_start_spec_witness:
  "\<exists>rc u v w. sbi_hsm_hart_start (\<lambda>_. 0) 0 (thishart_domain two_harts 0) 1 0x80200000 PRV_S 7 two_state = (rc, u) \<and>
     hart_wait_poll 1 0 u = Some v \<and> sbi_hsm_prepare_next_jump 1 v = (Ret 0, w) \<and> sbi_scratch.next_addr (hdr w 1) = 0x80200000"
proof -
  obtain rc u where u: "sbi_hsm_hart_start (\<lambda>_. 0) 0 (thishart_domain two_harts 0) 1 0x80200000 PRV_S 7 two_state = (rc, u)" by fastforce
  have "hstate two_state 1 = SBI_HSM_STATE_STOPPED" by (simp add: two_state_def hstate_def)
  with hart_start_spec [OF two_allowed u, of 0] u show ?thesis by auto
qed



section \<open>Harts that can be interrupted\<close>

lemma assigned_hartmask_bit:
  assumes "mask_wf (assigned_harts d)" and "hbase < SBI_HARTMASK_MAX_BITS" and "j < 64"
  shows "bit (sbi_domain_get_assigned_hartmask (Some d) hbase) j \<longleftrightarrow> hbase + j \<in> harts (assigned_harts d)"
proof -
  obtain a b where ab: "bits (assigned_harts d) = [a, b]" using mask_wf_two [OF assms(1)] by blast
  have h: "j + hbase \<in> harts (assigned_harts d) \<longleftrightarrow>
      j + hbase < 128 \<and> (if j + hbase < 64 then bit a (j + hbase) else bit b (j + hbase - 64))"
    by (auto simp: harts_iff SBI_HARTMASK_MAX_BITS_def ab bmap_bit_two)
  have m: "bit (2 ^ k - 1 :: u64) i \<longleftrightarrow> i < k" if "k < 64" for k i
    unfolding mask_eq_exp_minus_1 [symmetric] using that by (auto simp: bit_simps)
  show ?thesis
  proof (cases "hbase < 64")
    case True
    then have "hbase div 64 = 0" "hbase mod 64 = hbase" by auto
    then show ?thesis using True assms(3)
      by (auto simp: sbi_domain_get_assigned_hartmask_def ab h BIT_WORD_def SBI_HARTMASK_MAX_BITS_def Let_def bit_simps m add.commute [of hbase j]
          dest: bit_imp_le_length split: if_splits)
  next
    case False
    then have "hbase div 64 = 1" "hbase mod 64 = hbase - 64" using assms(2) by (auto simp: SBI_HARTMASK_MAX_BITS_def div_if le_mod_geq)
    then show ?thesis using False assms(2,3)
      by (auto simp: sbi_domain_get_assigned_hartmask_def ab h BIT_WORD_def SBI_HARTMASK_MAX_BITS_def Let_def bit_simps add.commute [of hbase j]
          dest: bit_imp_le_length)
  qed
qed

definition interruptible :: "hsm_state \<Rightarrow> nat \<Rightarrow> bool" where
  "interruptible s h \<longleftrightarrow> has_scratch s h \<and> (hstate s h = SBI_HSM_STATE_STARTED \<or> hstate s h = SBI_HSM_STATE_SUSPENDED)"

lemma interruptible_fold:
  assumes "\<forall>i \<in> set xs. hbase \<le> i \<and> i < hbase + 64" and "j < 64"
  shows "bit (fold (interruptible_step hbase dmask s) xs out) j \<longleftrightarrow>
    bit out j \<or> hbase + j \<in> set xs \<and> bit dmask j \<and> interruptible s (hbase + j)"
  using assms(1)
proof (induction xs arbitrary: out)
  case (Cons i xs)
  have i: "hbase \<le> i" "i - hbase < 64" using Cons.prems by auto
  have "dmask AND push_bit (i - hbase) 1 \<noteq> 0 \<longleftrightarrow> bit dmask (i - hbase)"
    by (simp add: and_exp_eq_0_iff_not_bit)
  then have "bit (interruptible_step hbase dmask s i out) j \<longleftrightarrow> bit out j \<or> i = hbase + j \<and> bit dmask j \<and> interruptible s i"
    using i assms(2)
    by (auto simp: interruptible_step_def Let_def hsm_hart_get_state_def interruptible_def bit_simps hsm_states SBI_EINVAL_def)
  with Cons show ?case by auto
qed simp

text \<open>
  The mask of interruptible harts a supervisor asks for, from hart \<open>hbase\<close> on, has
  exactly the bits of the harts of its domain that have a scratch area, lie within the next 64 harts
  and are started or suspended; when \<open>hbase\<close> is past the last hart the call is
  refused with an empty mask.
\<close>

lemma interruptible_mask_bit:
  assumes "mask_wf (assigned_harts d)" and "last_hartid_having_scratch (scr s) < SBI_HARTMASK_MAX_BITS"
    and "sbi_hsm_hart_interruptible_mask (Some d) hbase s = (rc, out)" and "j < 64"
  shows "if last_hartid_having_scratch (scr s) < hbase then rc = SBI_EINVAL \<and> out = 0
    else rc = 0 \<and> (bit out j \<longleftrightarrow> hbase + j \<le> last_hartid_having_scratch (scr s) \<and>
      hbase + j \<in> harts (assigned_harts d) \<and> interruptible s (hbase + j))"
proof (cases "last_hartid_having_scratch (scr s) < hbase")
  case True
  with assms(3) show ?thesis by (simp add: sbi_hsm_hart_interruptible_mask_def)
next
  case False
  define hend where "hend = (if 64 < last_hartid_having_scratch (scr s) + 1 - hbase then hbase + 64 else last_hartid_having_scratch (scr s) + 1)"
  have o: "rc = 0" "out = fold (interruptible_step hbase (sbi_domain_get_assigned_hartmask (Some d) hbase) s) [hbase..<hend] 0"
    using assms(3) False by (auto simp: sbi_hsm_hart_interruptible_mask_def hend_def Let_def split: if_splits)
  have "\<forall>i \<in> set [hbase..<hend]. hbase \<le> i \<and> i < hbase + 64" using False by (auto simp: hend_def split: if_splits)
  note f = interruptible_fold [OF this assms(4)]
  have "hbase + j \<in> set [hbase..<hend] \<longleftrightarrow> hbase + j \<le> last_hartid_having_scratch (scr s)"
    using False assms(4) by (auto simp: hend_def)
  with f assigned_hartmask_bit [OF assms(1) _ assms(4)] False assms(2) o show ?thesis by auto
qed

section \<open>Boot harts of the domains\<close>

definition bootable :: "domain_state \<Rightarrow> nat \<Rightarrow> bool" where
  "bootable ds d \<longleftrightarrow> (let b = boot_hartid (domains ds d) in b < SBI_HARTMASK_MAX_BITS \<and>
     sbi_hartmask_test_hart b (the (possible_harts (domains ds d))) \<and>
     hartid_to_domain_table ds b = Some d \<and> sbi_hartmask_test_hart b (assigned_harts (domains ds d)))"

definition next_of :: "sbi_domain \<Rightarrow> sbi_scratch \<Rightarrow> bool" where
  "next_of d c \<longleftrightarrow> sbi_scratch.next_arg1 c = next_arg1 d \<and> sbi_scratch.next_addr c = next_addr d \<and> sbi_scratch.next_mode c = next_mode d"

lemma bootable_tab: "bootable ds d \<Longrightarrow> hartid_to_domain_table ds (boot_hartid (domains ds d)) = Some d"
  by (simp add: bootable_def Let_def)

lemma start_success:
  assumes "sbi_hsm_hart_start ipi h dp t saddr smode priv s = (0, u)"
  shows "hstate s t = SBI_HSM_STATE_STOPPED \<and> hstate u = (hstate s)(t := SBI_HSM_STATE_START_PENDING) \<and>
    hdr u = (hdr s)(t := (hdr s t)\<lparr>sbi_scratch.next_arg1 := priv, sbi_scratch.next_addr := saddr, sbi_scratch.next_mode := smode\<rparr>)"
proof -
  obtain r c where rc: "hart_start_claim dp t saddr smode s = (r, c)" by fastforce
  show ?thesis
  proof (cases r)
    case None
    with rc have "hdr c = hdr s" by (auto simp: hart_start_claim_def atomic_cmpxchg_def upd_hdata_def Let_def split: if_splits)
    moreover have f: "hart_start_finish ipi h t saddr smode priv c = (0, u)" using assms rc None by (simp add: sbi_hsm_hart_start_def)
    ultimately show ?thesis using claim_moves rc None finish_stays [OF f] finish_next [OF f] by (fastforce simp: moves_def stays_def)
  next
    case (Some e)
    with rc have "e \<noteq> 0" by (auto simp: hart_start_claim_def Let_def sbi_error_defs split: if_splits prod.splits)
    with assms rc Some show ?thesis by (simp add: sbi_hsm_hart_start_def)
  qed
qed

lemma finalize_loop_boots:
  assumes "finalize_loop ipi cold ds ids s = (0, u)" and "distinct ids"
  shows "(\<forall>d \<in> set ids. bootable ds d \<longrightarrow> next_of (domains ds d) (hdr u (boot_hartid (domains ds d))) \<and>
      (boot_hartid (domains ds d) \<noteq> cold \<longrightarrow> hstate u (boot_hartid (domains ds d)) = SBI_HSM_STATE_START_PENDING)) \<and>
    (\<forall>h. (\<forall>d \<in> set ids. bootable ds d \<longrightarrow> boot_hartid (domains ds d) \<noteq> h) \<longrightarrow> hstate u h = hstate s h \<and> hdr u h = hdr s h)"
  using assms
proof (induction ids arbitrary: s)
  case (Cons d ids)
  let ?b = "boot_hartid (domains ds d)"
  have other: "boot_hartid (domains ds e) \<noteq> ?b" if "bootable ds d" "e \<in> set ids" "bootable ds e" for e
  proof
    assume "boot_hartid (domains ds e) = ?b"
    with bootable_tab [OF that(1)] bootable_tab [OF that(3)] have "e = d" by simp
    with that(2) Cons.prems(2) show False by simp
  qed
  show ?case
  proof (cases "bootable ds d")
    case False
    then have "finalize_loop ipi cold ds ids s = (0, u)" using Cons.prems(1) by (auto simp: bootable_def Let_def split: if_splits)
    with Cons.IH Cons.prems(2) False show ?thesis by auto
  next
    case True
    obtain v where v: "finalize_loop ipi cold ds ids v = (0, u)" "next_of (domains ds d) (hdr v ?b)"
      "?b \<noteq> cold \<longrightarrow> hstate v ?b = SBI_HSM_STATE_START_PENDING" "\<forall>h. h \<noteq> ?b \<longrightarrow> hstate v h = hstate s h \<and> hdr v h = hdr s h"
    proof (cases "?b = cold")
      case yes: True
      show thesis
        using that [of "set_next cold (next_arg1 (domains ds d)) (next_addr (domains ds d)) (next_mode (domains ds d)) s"]
          True yes Cons.prems(1) by (auto simp: bootable_def Let_def set_next_def next_of_def hstate_def)
    next
      case no: False
      obtain rc v where rv: "sbi_hsm_hart_start ipi cold None ?b (next_addr (domains ds d)) (next_mode (domains ds d))
          (next_arg1 (domains ds d)) s = (rc, v)" by fastforce
      have "rc = 0" "finalize_loop ipi cold ds ids v = (0, u)"
        using Cons.prems(1) True no rv by (auto simp: bootable_def Let_def split: if_splits)
      with start_success [of ipi cold None ?b] rv that [of v] no show thesis by (auto simp: next_of_def)
    qed
    from Cons.IH [OF v(1)] Cons.prems(2) have ih:
      "\<And>h. (\<forall>d \<in> set ids. bootable ds d \<longrightarrow> boot_hartid (domains ds d) \<noteq> h) \<Longrightarrow> hstate u h = hstate v h \<and> hdr u h = hdr v h"
      "\<forall>d \<in> set ids. bootable ds d \<longrightarrow> next_of (domains ds d) (hdr u (boot_hartid (domains ds d))) \<and>
        (boot_hartid (domains ds d) \<noteq> cold \<longrightarrow> hstate u (boot_hartid (domains ds d)) = SBI_HSM_STATE_START_PENDING)"
      by auto
    from ih(1) [of ?b] other True have "hstate u ?b = hstate v ?b" "hdr u ?b = hdr v ?b" by blast+
    with v ih True show ?thesis by auto
  qed
qed simp

text \<open>
  C32: When the firmware has finalized its domains successfully, every registered domain with a
  usable boot hart will be booted on it: the hart's scratch area holds the domain's own entry
  address, mode and argument, the hart is pending to start unless it is the cold boot hart, which goes
  there itself, and no other hart was touched. The domains can no longer be changed.
\<close>

theorem domain_finalize_boots:
  assumes "sbi_domain_finalize domains_init ipi cold ds0 s = (0, ds, u)" and "distinct (domidx_to_domain_table ds)"
  shows "domain_finalized ds \<and> (\<forall>d \<in> set (domidx_to_domain_table ds). bootable ds d \<longrightarrow>
      next_of (domains ds d) (hdr u (boot_hartid (domains ds d))) \<and>
      (boot_hartid (domains ds d) \<noteq> cold \<longrightarrow> hstate u (boot_hartid (domains ds d)) = SBI_HSM_STATE_START_PENDING)) \<and>
    (\<forall>h. (\<forall>d \<in> set (domidx_to_domain_table ds). bootable ds d \<longrightarrow> boot_hartid (domains ds d) \<noteq> h) \<longrightarrow>
      hstate u h = hstate s h \<and> hdr u h = hdr s h)"
proof -
  obtain ds1 where d: "finalize_loop ipi cold ds1 (domidx_to_domain_table ds1) s = (0, u)" "ds = ds1\<lparr>domain_finalized := True\<rparr>"
    using assms(1) by (auto simp: sbi_domain_finalize_def split: prod.splits if_splits)
  have b: "bootable ds = bootable ds1" by (simp add: d(2) bootable_def fun_eq_iff)
  have "distinct (domidx_to_domain_table ds1)" using assms(2) by (simp add: d(2))
  from finalize_loop_boots [OF d(1) this] show ?thesis unfolding b by (simp add: d(2))
qed

definition boot_domains :: domain_state where
  "boot_domains = two_harts\<lparr>domidx_to_domain_table := [0], domains := \<lambda>_. sample_domain\<lparr>assigned_harts := \<lparr>bits = [3, 0]\<rparr>,
     possible_harts := Some \<lparr>bits = [3, 0]\<rparr>, boot_hartid := 1\<rparr>\<rparr>"

theorem domain_finalize_boots_witness:
  "\<exists>ds u. sbi_domain_finalize (\<lambda>ds. (0, ds)) (\<lambda>_. 0) 0 boot_domains two_state = (0, ds, u) \<and>
     sbi_scratch.next_addr (hdr u 1) = 0x80200000 \<and> hstate u 1 = SBI_HSM_STATE_START_PENDING"
proof -
  let ?ds = "boot_domains\<lparr>domain_finalized := True\<rparr>"
  have t: "sbi_hartmask_test_hart 1 \<lparr>bits = [3, 0]\<rparr>"
    by (simp add: sbi_hartmask_test_hart_def SBI_HARTMASK_MAX_BITS_def sbi_test_bit_def BIT_WORD_def)
  have d: "domains boot_domains 0 = sample_domain\<lparr>assigned_harts := \<lparr>bits = [3, 0]\<rparr>, possible_harts := Some \<lparr>bits = [3, 0]\<rparr>, boot_hartid := 1\<rparr>"
    "hartid_to_domain_table boot_domains 1 = Some 0" "domidx_to_domain_table boot_domains = [0]"
    by (simp_all add: boot_domains_def two_harts_def)
  have nm: "next_mode sample_domain = PRV_S" "next_addr sample_domain = 0x80200000" by (simp_all add: sample_domain_def)
  have st: "has_scratch two_state 1" "hstate two_state 1 = SBI_HSM_STATE_STOPPED" "hsm_dev two_state = None"
    by (simp_all add: two_state_def has_scratch_def hstate_def)
  have al: "start_allowed None 1 0x80200000 PRV_S two_state" using st(1) by (simp add: start_allowed_def)
  obtain u where "sbi_hsm_hart_start (\<lambda>_. 0) 0 None 1 0x80200000 PRV_S (next_arg1 sample_domain) two_state = (0, u)"
    using st(2,3) by (simp add: sbi_hsm_hart_start_def claim_allowed [OF al] hart_start_finish_def hsm_device_has_hart_hotplug_def
        hsm_device_has_hart_secondary_boot_def Let_def del: One_nat_def)
  then have f: "sbi_domain_finalize (\<lambda>ds. (0, ds)) (\<lambda>_. 0) 0 boot_domains two_state = (0, ?ds, u)"
    using t by (simp add: sbi_domain_finalize_def d nm Let_def SBI_HARTMASK_MAX_BITS_def del: One_nat_def)
  have "bootable ?ds 0" using t by (simp add: bootable_def d SBI_HARTMASK_MAX_BITS_def del: One_nat_def)
  with domain_finalize_boots [OF f] f show ?thesis by (simp add: d next_of_def nm del: One_nat_def)
qed

end
