(* ===== verification/QemuAclint.thy ===== *)
theory QemuAclint
  imports Prelude
begin

text \<open>
  The timer and the software-interrupt device of the board,
  \<^verbatim>\<open>qemu-8.0.2/hw/intc/riscv_aclint.c\<close>, with \<^verbatim>\<open>muldiv64\<close> of
  \<^verbatim>\<open>include/qemu/host-utils.h\<close>. The virtual clock in nanoseconds is an argument; a
  register access takes no virtual time. An interrupt line is a boolean, an armed timer of the
  emulator is the time it expires at. The processors that exist are an argument, and an array
  access out of range is the error \<open>OutOfRange\<close>.
\<close>

section \<open>Multiply and divide\<close>

definition muldiv64 :: "u64 \<Rightarrow> u32 \<Rightarrow> u32 \<Rightarrow> u64" where
  "muldiv64 a b c = word_of_nat ((unat a * unat b) div unat c)"

text \<open>The version for hosts without 128-bit integers.\<close>

definition muldiv64_portable :: "u64 \<Rightarrow> u32 \<Rightarrow> u32 \<Rightarrow> u64" where
  "muldiv64_portable a b c =
     (let low = ucast a :: u32; high = ucast (drop_bit 32 a) :: u32;
          rl = ucast low * ucast b :: u64; rh = ucast high * ucast b :: u64;
          rh = rh + drop_bit 32 rl;
          res_high = ucast (rh div ucast c) :: u32;
          res_low = ucast ((push_bit 32 (rh mod ucast c) + (rl AND 0xFFFFFFFF)) div ucast c) :: u32
      in push_bit 32 (ucast res_high) OR ucast res_low)"

section \<open>The timer device\<close>

definition NANOSECONDS_PER_SECOND :: u32 where "NANOSECONDS_PER_SECOND = 1000000000"
definition RISCV_ACLINT_DEFAULT_MTIMECMP :: u32 where "RISCV_ACLINT_DEFAULT_MTIMECMP = 0"
definition RISCV_ACLINT_DEFAULT_MTIME :: u32 where "RISCV_ACLINT_DEFAULT_MTIME = 0x7FF8"
definition RISCV_ACLINT_DEFAULT_TIMEBASE_FREQ :: u32 where "RISCV_ACLINT_DEFAULT_TIMEBASE_FREQ = 10000000"
definition INT64_MAX :: u64 where "INT64_MAX = 0x7FFFFFFFFFFFFFFF"

record RISCVAclintMTimerState =
  time_delta :: u64
  timecmp :: "u64 list"
  timers :: "u64 option list"
  hartid_base :: nat
  num_harts :: nat
  timecmp_base :: u32
  time_base :: u32
  timebase_freq :: u32
  timer_irqs :: "bool list"

definition cpu_riscv_read_rtc_raw :: "u32 \<Rightarrow> u64 \<Rightarrow> u64" where
  "cpu_riscv_read_rtc_raw freq now = muldiv64 now freq NANOSECONDS_PER_SECOND"

definition cpu_riscv_read_rtc :: "u64 \<Rightarrow> RISCVAclintMTimerState \<Rightarrow> u64" where
  "cpu_riscv_read_rtc now mtimer = cpu_riscv_read_rtc_raw (timebase_freq mtimer) now + time_delta mtimer"

text \<open>The time at which the emulator's timer expires when \<open>diff\<close> ticks are left.\<close>

definition timer_expiry :: "u32 \<Rightarrow> u64 \<Rightarrow> u64 \<Rightarrow> u64" where
  "timer_expiry freq now diff =
     (let ns_diff = muldiv64 diff NANOSECONDS_PER_SECOND freq in
      if (NANOSECONDS_PER_SECOND > freq \<and> ns_diff < diff) \<or> ns_diff > INT64_MAX then INT64_MAX
      else min (now + ns_diff) INT64_MAX)"

definition riscv_aclint_mtimer_write_timecmp ::
    "u64 \<Rightarrow> nat \<Rightarrow> u64 \<Rightarrow> RISCVAclintMTimerState \<Rightarrow> RISCVAclintMTimerState res" where
  "riscv_aclint_mtimer_write_timecmp now hart value mtimer =
     (let rtc_r = cpu_riscv_read_rtc now mtimer; i = hart - hartid_base mtimer in
      if \<not> i < length (timecmp mtimer) then Inl OutOfRange
      else
        let mtimer = mtimer\<lparr>timecmp := (timecmp mtimer)[i := value]\<rparr> in
        if value \<le> rtc_r then Inr (mtimer\<lparr>timer_irqs := (timer_irqs mtimer)[i := True]\<rparr>)
        else Inr (mtimer\<lparr>timer_irqs := (timer_irqs mtimer)[i := False],
          timers := (timers mtimer)[i := Some (timer_expiry (timebase_freq mtimer) now (value - rtc_r))]\<rparr>))"

definition riscv_aclint_mtimer_cb :: "nat \<Rightarrow> RISCVAclintMTimerState \<Rightarrow> RISCVAclintMTimerState" where
  "riscv_aclint_mtimer_cb num mtimer = mtimer\<lparr>timer_irqs := (timer_irqs mtimer)[num := True]\<rparr>"

text \<open>The clock reaches \<open>now\<close>: every timer that has expired runs its callback once.\<close>

definition run_timer :: "u64 \<Rightarrow> nat \<Rightarrow> RISCVAclintMTimerState \<Rightarrow> RISCVAclintMTimerState" where
  "run_timer now i mtimer =
     (case timers mtimer ! i of
        None \<Rightarrow> mtimer
      | Some t \<Rightarrow> if t \<le> now then riscv_aclint_mtimer_cb i (mtimer\<lparr>timers := (timers mtimer)[i := None]\<rparr>) else mtimer)"

definition run_timers :: "u64 \<Rightarrow> RISCVAclintMTimerState \<Rightarrow> RISCVAclintMTimerState" where
  "run_timers now mtimer = fold (run_timer now) [0..<length (timers mtimer)] mtimer"

text \<open>The hart a compare register belongs to, when the address is one.\<close>

definition timecmp_hart :: "u64 \<Rightarrow> RISCVAclintMTimerState \<Rightarrow> nat option" where
  "timecmp_hart addr mtimer =
     (if ucast (timecmp_base mtimer) \<le> addr \<and> addr < ucast (timecmp_base mtimer + push_bit 3 (word_of_nat (num_harts mtimer)))
      then Some (hartid_base mtimer + unat (drop_bit 3 (addr - ucast (timecmp_base mtimer)))) else None)"

definition timecmp_at :: "nat \<Rightarrow> RISCVAclintMTimerState \<Rightarrow> u64 res" where
  "timecmp_at i mtimer = (if i < length (timecmp mtimer) then Inr (timecmp mtimer ! i) else Inl OutOfRange)"

text \<open>Registers are indexed by the number of the hart here, as the code does it.\<close>

definition riscv_aclint_mtimer_read :: "(nat \<Rightarrow> bool) \<Rightarrow> u64 \<Rightarrow> u64 \<Rightarrow> nat \<Rightarrow> RISCVAclintMTimerState \<Rightarrow> u64 res" where
  "riscv_aclint_mtimer_read present now addr sz mtimer =
     (case timecmp_hart addr mtimer of
        Some hart \<Rightarrow>
          if \<not> present hart then Inr 0
          else if addr AND 7 = 0 then
            bindE (timecmp_at hart mtimer) (\<lambda>v. Inr (if sz = 4 then v AND 0xFFFFFFFF else v))
          else if addr AND 7 = 4 then
            bindE (timecmp_at hart mtimer) (\<lambda>v. Inr (drop_bit 32 v AND 0xFFFFFFFF))
          else Inr 0
      | None \<Rightarrow>
          let rtc = cpu_riscv_read_rtc now mtimer in
          if addr = ucast (time_base mtimer) then Inr (if sz = 4 then rtc AND 0xFFFFFFFF else rtc)
          else if addr = ucast (time_base mtimer + 4) then Inr (drop_bit 32 rtc AND 0xFFFFFFFF)
          else Inr 0)"

definition write_timecmp_reg ::
    "(nat \<Rightarrow> bool) \<Rightarrow> u64 \<Rightarrow> nat \<Rightarrow> u64 \<Rightarrow> u64 \<Rightarrow> nat \<Rightarrow> RISCVAclintMTimerState \<Rightarrow> RISCVAclintMTimerState res" where
  "write_timecmp_reg present now hart addr value sz mtimer =
     (if \<not> present hart then Inr mtimer
      else if addr AND 7 = 0 then
        if sz = 4 then bindE (timecmp_at hart mtimer) (\<lambda>v.
          riscv_aclint_mtimer_write_timecmp now hart (push_bit 32 (drop_bit 32 v) OR (value AND 0xFFFFFFFF)) mtimer)
        else riscv_aclint_mtimer_write_timecmp now hart value mtimer
      else if addr AND 7 = 4 then
        if sz = 4 then bindE (timecmp_at hart mtimer) (\<lambda>v.
          riscv_aclint_mtimer_write_timecmp now hart (push_bit 32 value OR (v AND 0xFFFFFFFF)) mtimer)
        else Inr mtimer
      else Inr mtimer)"

definition refresh_timecmp ::
    "(nat \<Rightarrow> bool) \<Rightarrow> u64 \<Rightarrow> nat \<Rightarrow> RISCVAclintMTimerState \<Rightarrow> RISCVAclintMTimerState res" where
  "refresh_timecmp present now i mtimer =
     (if \<not> present (hartid_base mtimer + i) then Inr mtimer
      else bindE (timecmp_at i mtimer) (\<lambda>v. riscv_aclint_mtimer_write_timecmp now (hartid_base mtimer + i) v mtimer))"

definition riscv_aclint_mtimer_write ::
    "(nat \<Rightarrow> bool) \<Rightarrow> u64 \<Rightarrow> u64 \<Rightarrow> u64 \<Rightarrow> nat \<Rightarrow> RISCVAclintMTimerState \<Rightarrow> RISCVAclintMTimerState res" where
  "riscv_aclint_mtimer_write present now addr value sz mtimer =
     (case timecmp_hart addr mtimer of
        Some hart \<Rightarrow> write_timecmp_reg present now hart addr value sz mtimer
      | None \<Rightarrow>
          let rtc_r = cpu_riscv_read_rtc_raw (timebase_freq mtimer) now;
              refresh = (\<lambda>delta. foldE (refresh_timecmp present now) [0..<num_harts mtimer] (mtimer\<lparr>time_delta := delta\<rparr>))
          in if addr = ucast (time_base mtimer) then
               if sz = 4 then refresh (((rtc_r AND NOT 0xFFFFFFFF) OR value) - rtc_r) else refresh (value - rtc_r)
             else if addr = ucast (time_base mtimer + 4) then
               if sz = 4 then refresh ((push_bit 32 value OR (rtc_r AND 0xFFFFFFFF)) - rtc_r) else Inr mtimer
             else Inr mtimer)"

definition riscv_aclint_mtimer_create :: "nat \<Rightarrow> nat \<Rightarrow> u32 \<Rightarrow> u32 \<Rightarrow> u32 \<Rightarrow> RISCVAclintMTimerState" where
  "riscv_aclint_mtimer_create base n cmp_base t_base freq =
     \<lparr>time_delta = 0, timecmp = replicate n 0, timers = replicate n None, hartid_base = base, num_harts = n,
      timecmp_base = cmp_base, time_base = t_base, timebase_freq = freq, timer_irqs = replicate n False\<rparr>"

definition riscv_aclint_mtimer_reset_enter ::
    "(nat \<Rightarrow> bool) \<Rightarrow> u64 \<Rightarrow> RISCVAclintMTimerState \<Rightarrow> RISCVAclintMTimerState res" where
  "riscv_aclint_mtimer_reset_enter present now mtimer =
     riscv_aclint_mtimer_write present now (ucast (time_base mtimer)) 0 8 mtimer"

section \<open>The software-interrupt device\<close>

record RISCVAclintSwiState =
  swi_hartid_base :: nat
  swi_num_harts :: nat
  sswi :: bool
  soft_irqs :: "bool list"

definition swi_hart :: "u64 \<Rightarrow> RISCVAclintSwiState \<Rightarrow> nat option" where
  "swi_hart addr swi =
     (if addr < ucast (push_bit 2 (word_of_nat (swi_num_harts swi)) :: u32)
      then Some (swi_hartid_base swi + unat (drop_bit 2 addr)) else None)"

text \<open>\<open>msip\<close> reads the pending bit of a processor.\<close>

definition riscv_aclint_swi_read :: "(nat \<Rightarrow> bool) \<Rightarrow> (nat \<Rightarrow> bool) \<Rightarrow> u64 \<Rightarrow> RISCVAclintSwiState \<Rightarrow> u64" where
  "riscv_aclint_swi_read present msip addr swi =
     (case swi_hart addr swi of
        None \<Rightarrow> 0
      | Some hart \<Rightarrow> if \<not> present hart then 0
          else if addr AND 3 = 0 then if sswi swi then 0 else if msip hart then 1 else 0 else 0)"

definition riscv_aclint_swi_write :: "(nat \<Rightarrow> bool) \<Rightarrow> u64 \<Rightarrow> u64 \<Rightarrow> RISCVAclintSwiState \<Rightarrow> RISCVAclintSwiState" where
  "riscv_aclint_swi_write present addr value swi =
     (case swi_hart addr swi of
        None \<Rightarrow> swi
      | Some hart \<Rightarrow> if \<not> present hart then swi
          else if addr AND 3 = 0 then
            let i = hart - swi_hartid_base swi in
            if value AND 1 \<noteq> 0 then swi\<lparr>soft_irqs := (soft_irqs swi)[i := True]\<rparr>
            else if \<not> sswi swi then swi\<lparr>soft_irqs := (soft_irqs swi)[i := False]\<rparr> else swi
          else swi)"

definition riscv_aclint_swi_create :: "nat \<Rightarrow> nat \<Rightarrow> bool \<Rightarrow> RISCVAclintSwiState" where
  "riscv_aclint_swi_create base n ss =
     \<lparr>swi_hartid_base = base, swi_num_harts = n, sswi = ss, soft_irqs = replicate n False\<rparr>"

definition riscv_aclint_swi_reset_enter :: "RISCVAclintSwiState \<Rightarrow> RISCVAclintSwiState" where
  "riscv_aclint_swi_reset_enter swi =
     (if \<not> sswi swi then swi\<lparr>soft_irqs := map (\<lambda>_. False) (soft_irqs swi)\<rparr> else swi)"

section \<open>Multiplication and division in two halves\<close>

lemma div_in_halves:
  fixes h l b c N :: nat
  assumes "c \<noteq> 0" and rh: "rh = h * b + l * b div N"
  shows "(h * N + l) * b div c = rh div c * N + (rh mod c * N + l * b mod N) div c"
proof -
  have "rh * N + l * b mod N = h * b * N + (l * b div N * N + l * b mod N)"
    by (simp only: rh add_mult_distrib add.assoc)
  also have "\<dots> = h * b * N + l * b" by (simp only: div_mult_mod_eq)
  also have "\<dots> = (h * N + l) * b" by (simp only: add_mult_distrib mult.assoc mult.commute [of b N])
  finally have "(h * N + l) * b = rh * N + l * b mod N" by simp
  moreover have "rh * N = (rh div c * c + rh mod c) * N" by (simp only: div_mult_mod_eq)
  then have "rh * N = rh mod c * N + rh div c * N * c" by (simp only: add_mult_distrib) (simp only: ac_simps)
  ultimately have "(h * N + l) * b = (rh mod c * N + l * b mod N) + rh div c * N * c"
    by (simp only: ac_simps)
  then have "(h * N + l) * b div c = ((rh mod c * N + l * b mod N) + rh div c * N * c) div c" by (rule arg_cong)
  also have "\<dots> = rh div c * N + (rh mod c * N + l * b mod N) div c" using assms(1) by (rule div_mult_self1)
  finally show ?thesis .
qed

lemma low_half_less:
  fixes c r l N :: nat
  assumes "r < c" and "l < N"
  shows "(r * N + l) div c < N"
proof -
  have "r * N + l < r * N + N" using assms(2) by simp
  also have "\<dots> = Suc r * N" by simp
  also have "\<dots> \<le> c * N" using assms(1) by (intro mult_le_mono1) simp
  finally show ?thesis by (simp add: less_mult_imp_div_less mult.commute)
qed

lemma low_half_bound:
  fixes c r l N :: nat
  assumes "r < c" and "l < N" and "c \<le> M"
  shows "r * N + l < M * N"
proof -
  have "r * N + l < Suc r * N" using assms(2) by simp
  also have "\<dots> \<le> M * N" using assms by (intro mult_le_mono1) simp
  finally show ?thesis .
qed

lemma halves_bound:
  fixes h l b N :: nat
  assumes "h < N" "l < N" "b < N"
  shows "h * b + l * b div N < N * N" and "l * b < N * N"
proof -
  show "l * b < N * N" using assms by (intro mult_strict_mono) auto
  then have "l * b div N < N" by (simp add: less_mult_imp_div_less)
  moreover have "h * b + N \<le> N * N"
  proof -
    have "h * b \<le> h * N" using assms(3) by simp
    then have "h * b + N \<le> Suc h * N" by simp
    also have "\<dots> \<le> N * N" using assms(1) by (intro mult_le_mono1) simp
    finally show ?thesis .
  qed
  ultimately show "h * b + l * b div N < N * N" by linarith
qed

lemma unat_split32:
  "unat a = unat (ucast (drop_bit 32 a) :: u32) * 4294967296 + unat (ucast a :: u32)" for a :: u64
proof -
  have "unat (drop_bit 32 a) = unat a div 4294967296" by (simp add: drop_bit_eq_div unat_div_distrib)
  moreover have "unat a div 4294967296 < 4294967296" using unat_less64 [of a] by (simp add: less_mult_imp_div_less)
  ultimately show ?thesis by (simp add: unsigned_ucast_eq take_bit_eq_mod)
qed

lemma less_u32: "unat (x :: u32) < 4294967296"
  using unsigned_less [of x] by simp

lemma unat_widen: "unat (ucast (x :: u32) :: u64) = unat x"
  using less_u32 [of x] by (simp add: unsigned_ucast_eq take_bit_eq_mod)

lemma join_halves:
  fixes x y :: u64
  assumes "unat y < 4294967296"
  shows "push_bit 32 (ucast (ucast x :: u32)) OR ucast (ucast y :: u32) = (word_of_nat (unat x * 4294967296 + unat y) :: u64)"
proof -
  have y: "take_bit 32 y = y" using assms by (simp add: take_bit_id64 word_less_nat_alt)
  have bits: "\<not> bit y n" if "32 \<le> n" for n
    using that bit_take_bit_iff [of 32 y n] by (simp add: y)
  have "(ucast (ucast y :: u32) :: u64) = take_bit 32 y" "push_bit 32 (ucast (ucast x :: u32)) = push_bit 32 x"
    by (rule bit_word_eqI, auto simp: bit_simps)+
  moreover have "push_bit 32 x AND y = 0"
    by (rule bit_word_eqI) (use bits in \<open>auto simp: bit_simps\<close>)
  then have "push_bit 32 x OR y = push_bit 32 x + y" by (simp only: disjunctive_add_eq_or)
  moreover have "push_bit 32 x + y = word_of_nat (unat x * 4294967296 + unat y)"
    by (simp add: push_bit_eq_mult)
  ultimately show ?thesis by (simp only: y)
qed

lemma muldiv64_halves:
  fixes a :: u64 and b c :: u32
  assumes "c \<noteq> 0"
  shows "muldiv64_portable a b c = muldiv64 a b c"
proof -
  define hi lo where "hi = (ucast (drop_bit 32 a) :: u32)" and "lo = (ucast a :: u32)"
  define rl rh where "rl = (ucast lo * ucast b :: u64)" and "rh = (ucast hi * ucast b + drop_bit 32 rl :: u64)"
  let ?N = "4294967296 :: nat"
  have c: "unat c \<noteq> 0" "unat c \<le> ?N" using assms less_u32 [of c] by (simp_all add: unat_eq_0)
  note bound = halves_bound [OF less_u32 [of hi] less_u32 [of lo] less_u32 [of b]]
  have rl: "unat rl = unat lo * unat b" using bound(2) by (simp add: rl_def unat_word_ariths unat_widen)
  have "unat (drop_bit 32 rl) = unat lo * unat b div ?N" by (simp add: drop_bit_eq_div unat_div_distrib rl)
  then have rh: "unat rh = unat hi * unat b + unat lo * unat b div ?N"
    using bound(1) by (simp add: rh_def unat_word_ariths unat_widen)
  define q where "q = (unat rh mod unat c * ?N + unat lo * unat b mod ?N) div unat c"
  have rm: "unat rh mod unat c < unat c" using c by simp
  have mid: "unat rh mod unat c * ?N + unat lo * unat b mod ?N < ?N * ?N"
    by (rule low_half_bound [OF rm _ c(2)]) simp
  have q: "q < ?N" unfolding q_def by (rule low_half_less [OF rm]) simp
  define t where "t = push_bit 32 (rh mod ucast c) + (rl AND 0xFFFFFFFF)"
  have "rl AND 0xFFFFFFFF = take_bit 32 rl" by (simp add: take_bit_eq_mask mask_eq_exp_minus_1)
  then have "unat t = unat rh mod unat c * ?N + unat lo * unat b mod ?N"
    using mid by (simp add: t_def push_bit_eq_mult unat_word_ariths unat_mod_distrib unat_widen
        unsigned_take_bit_eq take_bit_eq_mod rl mult.commute)
  then have low: "unat (t div ucast c) = q" by (simp add: q_def unat_div_distrib unat_widen)
  have high: "unat (rh div ucast c) = unat rh div unat c" by (simp add: unat_div_distrib unat_widen)
  have val: "unat a * unat b div unat c = unat rh div unat c * ?N + q"
    using div_in_halves [OF c(1) rh] unat_split32 [of a] by (simp add: q_def hi_def lo_def)
  have "muldiv64_portable a b c = push_bit 32 (ucast (ucast (rh div ucast c) :: u32)) OR ucast (ucast (t div ucast c) :: u32)"
    by (simp add: muldiv64_portable_def Let_def rl_def rh_def hi_def lo_def t_def)
  also have "\<dots> = word_of_nat (unat rh div unat c * ?N + q)"
    using q by (subst join_halves) (simp_all add: low high)
  finally show ?thesis by (simp add: muldiv64_def val)
qed

section \<open>Expiry\<close>

lemma run_timer_fields [simp]:
  "timecmp (run_timer now i mt) = timecmp mt" "time_delta (run_timer now i mt) = time_delta mt"
  "timebase_freq (run_timer now i mt) = timebase_freq mt" "length (timers (run_timer now i mt)) = length (timers mt)"
  "length (timer_irqs (run_timer now i mt)) = length (timer_irqs mt)"
  by (simp_all add: run_timer_def riscv_aclint_mtimer_cb_def split: option.splits)

lemma run_timer_other:
  assumes "i \<noteq> j"
  shows "timers (run_timer now i mt) ! j = timers mt ! j" "timer_irqs (run_timer now i mt) ! j = timer_irqs mt ! j"
  using assms by (simp_all add: run_timer_def riscv_aclint_mtimer_cb_def split: option.splits)

definition expired :: "u64 \<Rightarrow> u64 option \<Rightarrow> bool" where
  "expired now t = (case t of None \<Rightarrow> False | Some t \<Rightarrow> t \<le> now)"

lemma run_timers_irq:
  assumes "length (timer_irqs mt) = length (timers mt)" and "i < length (timers mt)"
  shows "timer_irqs (run_timers now mt) ! i \<longleftrightarrow> timer_irqs mt ! i \<or> expired now (timers mt ! i)"
proof -
  have fold: "length (timers (fold (run_timer now) xs m)) = length (timers m) \<and>
      length (timer_irqs (fold (run_timer now) xs m)) = length (timer_irqs m) \<and>
      (i \<notin> set xs \<longrightarrow> timer_irqs (fold (run_timer now) xs m) ! i = timer_irqs m ! i \<and>
         timers (fold (run_timer now) xs m) ! i = timers m ! i)" for xs m
    by (induction xs arbitrary: m) (auto simp: run_timer_other)
  define m where "m = fold (run_timer now) [0..<i] mt"
  have m: "length (timers m) = length (timers mt)" "length (timer_irqs m) = length (timers mt)"
    "timer_irqs m ! i = timer_irqs mt ! i" "timers m ! i = timers mt ! i"
    using fold [of "[0..<i]" mt] assms by (simp_all add: m_def)
  have "[0..<length (timers mt)] = [0..<i] @ i # [Suc i..<length (timers mt)]"
    using assms(2) upt_add_eq_append [of 0 i "length (timers mt) - i"] upt_conv_Cons [OF assms(2)] by simp
  then have "timer_irqs (run_timers now mt) ! i = timer_irqs (run_timer now i m) ! i"
    using fold [of "[Suc i..<length (timers mt)]" "run_timer now i m"] by (simp add: run_timers_def m_def)
  also have "\<dots> \<longleftrightarrow> timer_irqs m ! i \<or> expired now (timers m ! i)"
    using assms(2) m by (auto simp: run_timer_def riscv_aclint_mtimer_cb_def expired_def split: option.splits)
  finally show ?thesis by (simp add: m)
qed

lemma run_timers_fields [simp]:
  "timecmp (run_timers now mt) = timecmp mt" "time_delta (run_timers now mt) = time_delta mt"
  "timebase_freq (run_timers now mt) = timebase_freq mt"
proof -
  have "timecmp (fold (run_timer now) xs m) = timecmp m \<and> time_delta (fold (run_timer now) xs m) = time_delta m \<and>
      timebase_freq (fold (run_timer now) xs m) = timebase_freq m" for xs m
    by (induction xs arbitrary: m) simp_all
  then show "timecmp (run_timers now mt) = timecmp mt" "time_delta (run_timers now mt) = time_delta mt"
    "timebase_freq (run_timers now mt) = timebase_freq mt" by (simp_all add: run_timers_def)
qed

lemma run_timers_hartid_base [simp]: "hartid_base (run_timers now mt) = hartid_base mt"
proof -
  have "hartid_base (fold (run_timer now) xs m) = hartid_base m" for xs m
    by (induction xs arbitrary: m) (simp_all add: run_timer_def riscv_aclint_mtimer_cb_def split: option.splits)
  then show ?thesis by (simp add: run_timers_def)
qed

text \<open>When the frequency divides a second, the clock counts whole ticks of \<open>k\<close> nanoseconds.\<close>

lemma rtc_ticks:
  assumes "unat freq * k = 1000000000"
  shows "unat (cpu_riscv_read_rtc_raw freq now) = unat now div k"
proof -
  have k: "0 < k" "0 < unat freq" using assms by (auto intro: Nat.gr0I)
  have "unat now * unat freq div (unat freq * k) = unat now div k"
    using div_mult_mult1 [of "unat freq" "unat now" k] k(2) by (simp add: mult.commute [of "unat now"])
  moreover have "unat NANOSECONDS_PER_SECOND = unat freq * k" by (simp add: NANOSECONDS_PER_SECOND_def assms)
  moreover have "unat now div k \<le> unat now" by simp
  then have "unat now div k < 18446744073709551616" using unat_less64 [of now] by (rule le_less_trans)
  ultimately show ?thesis
    by (simp add: cpu_riscv_read_rtc_raw_def muldiv64_def unat_word_of_nat64)
qed

lemma ns_ticks:
  assumes "unat freq * k = 1000000000" and "unat d * k < 9223372036854775808"
  shows "unat (muldiv64 d NANOSECONDS_PER_SECOND freq) = unat d * k"
proof -
  have f: "unat freq \<noteq> 0" using assms(1) by (metis mult_is_0 zero_neq_numeral)
  have "unat d * (unat freq * k) div unat freq = unat d * k"
    using f div_mult_self1_is_m [of "unat freq" "unat d * k"] by (simp add: mult.left_commute)
  moreover have "unat NANOSECONDS_PER_SECOND = unat freq * k" by (simp add: NANOSECONDS_PER_SECOND_def assms)
  ultimately have "muldiv64 d NANOSECONDS_PER_SECOND freq = word_of_nat (unat d * k)" by (simp only: muldiv64_def)
  moreover have "unat (word_of_nat (unat d * k) :: u64) = unat d * k"
    using assms(2) by (intro unat_word_of_nat64) simp
  ultimately show ?thesis by (simp only:)
qed

lemma timer_expiry_exact:
  assumes "unat freq * k = 1000000000" and "unat d * k < 9223372036854775808" and "now < INT64_MAX"
  shows "unat (timer_expiry freq now d) = min (unat now + unat d * k) 9223372036854775807"
proof -
  let ?ns = "muldiv64 d NANOSECONDS_PER_SECOND freq"
  have k: "0 < k" using assms(1) by (cases k) auto
  note ns = ns_ticks [OF assms(1,2)]
  have now: "unat now < 9223372036854775807" using assms(3) by (simp add: INT64_MAX_def word_less_nat_alt)
  have "unat d \<le> unat ?ns" using ns k by simp
  then have "\<not> ?ns < d" "\<not> ?ns > INT64_MAX" using ns assms(2) k
    by (simp_all add: word_less_nat_alt INT64_MAX_def)
  moreover have "unat (now + ?ns) = unat now + unat d * k" using ns now assms(2) by (subst unat_add64) simp_all
  ultimately show ?thesis
    by (simp add: timer_expiry_def Let_def min_def word_le_nat_alt INT64_MAX_def)
qed

text \<open>The clock moves on by whole ticks, as long as it does not wrap.\<close>

lemma div_diff_le:
  fixes a b k :: nat
  assumes "a \<le> b" and "0 < k"
  shows "b div k - a div k \<le> b - a"
proof -
  have "b \<le> a + (b - a) * k" using assms by (cases k) auto
  then have "b div k \<le> (a + (b - a) * k) div k" by (rule div_le_mono)
  also have "\<dots> = b - a + a div k" using assms(2) by (intro div_mult_self1) simp
  finally show ?thesis by simp
qed

lemma rtc_later:
  assumes f: "unat (timebase_freq mt) * k = 1000000000" and le: "now \<le> now'"
    and wrap: "unat (cpu_riscv_read_rtc now mt) + (unat now' - unat now) < 18446744073709551616"
  shows "unat (cpu_riscv_read_rtc now' mt) = unat (cpu_riscv_read_rtc now mt) + (unat now' div k - unat now div k)"
proof -
  let ?n = "unat now' div k - unat now div k" and ?r = "cpu_riscv_read_rtc_raw (timebase_freq mt)"
  have le': "unat now div k \<le> unat now' div k" using le by (simp add: word_le_nat_alt div_le_mono)
  have "0 < k" using f by (metis mult_0_right neq0_conv zero_neq_numeral)
  then have n: "?n \<le> unat now' - unat now" using le by (intro div_diff_le) (simp_all add: word_le_nat_alt)
  have "?r now \<le> ?r now'" using le' by (simp add: word_le_nat_alt rtc_ticks [OF f])
  then have step: "unat (?r now' - ?r now) = ?n" by (simp add: unat_sub rtc_ticks [OF f])
  have "cpu_riscv_read_rtc now' mt = cpu_riscv_read_rtc now mt + (?r now' - ?r now)"
    by (simp add: cpu_riscv_read_rtc_def)
  with step n wrap show ?thesis by (simp add: unat_add64)
qed

text \<open>Comparing a fresh compare value with the running clock.\<close>

lemma deadline_bounds:
  fixes now now' r d k :: nat
  assumes "0 < k" and "now \<le> now'"
  shows "now + d * k \<le> now' \<Longrightarrow> d \<le> now' div k - now div k"
    and "d < now' div k - now div k \<Longrightarrow> now + d * k \<le> now'"
proof -
  have shift: "(now + d * k) div k = now div k + d" using assms(1) by simp
  show "d \<le> now' div k - now div k" if "now + d * k \<le> now'"
    using div_le_mono [OF that, of k] shift by simp
  show "now + d * k \<le> now'" if less: "d < now' div k - now div k"
  proof (rule ccontr)
    assume "\<not> now + d * k \<le> now'"
    then have "now' div k \<le> (now + d * k) div k" by (intro div_le_mono) simp
    with shift less show False by simp
  qed
qed

lemma write_timecmp_result:
  assumes "riscv_aclint_mtimer_write_timecmp now hart value mt = Inr mt'" and "i = hart - hartid_base mt"
  shows "i < length (timecmp mt)" "timecmp mt' = (timecmp mt)[i := value]"
    "time_delta mt' = time_delta mt" "timebase_freq mt' = timebase_freq mt" "hartid_base mt' = hartid_base mt"
    "num_harts mt' = num_harts mt" "timecmp_base mt' = timecmp_base mt" "time_base mt' = time_base mt"
    "length (timers mt') = length (timers mt)" "length (timer_irqs mt') = length (timer_irqs mt)"
    "cpu_riscv_read_rtc t mt' = cpu_riscv_read_rtc t mt"
    "timer_irqs mt' = (timer_irqs mt)[i := value \<le> cpu_riscv_read_rtc now mt]"
    "timers mt' = (if value \<le> cpu_riscv_read_rtc now mt then timers mt else (timers mt)
      [i := Some (timer_expiry (timebase_freq mt) now (value - cpu_riscv_read_rtc now mt))])"
  using assms
  by (auto simp: riscv_aclint_mtimer_write_timecmp_def Let_def cpu_riscv_read_rtc_def split: if_splits)

lemma mtimer_irq:
  assumes f: "unat (timebase_freq mt) * k = 1000000000" and i: "i = hart - hartid_base mt"
    and len: "length (timers mt) = length (timecmp mt)" "length (timer_irqs mt) = length (timecmp mt)"
    and w: "riscv_aclint_mtimer_write_timecmp now hart value mt = Inr mt'"
    and le: "now \<le> now'" and max: "now' < INT64_MAX"
    and wrap: "unat (cpu_riscv_read_rtc now mt) + (unat now' - unat now) < 18446744073709551616"
    and near: "(unat value - unat (cpu_riscv_read_rtc now mt)) * k < 9223372036854775808"
  shows "timer_irqs (run_timers now' mt') ! i \<Longrightarrow> value \<le> cpu_riscv_read_rtc now' mt'"
    and "value < cpu_riscv_read_rtc now' mt' \<or> value \<le> cpu_riscv_read_rtc now mt \<Longrightarrow>
      timer_irqs (run_timers now' mt') ! i"
proof -
  let ?r = "cpu_riscv_read_rtc now mt" and ?r' = "cpu_riscv_read_rtc now' mt"
  note r = write_timecmp_result [OF w i]
  have k: "0 < k" using f by (metis mult_0_right neq0_conv zero_neq_numeral)
  note later = rtc_later [OF f le wrap]
  have irq: "timer_irqs (run_timers now' mt') ! i \<longleftrightarrow> timer_irqs mt' ! i \<or> expired now' (timers mt' ! i)"
    using r(1,9,10) len by (intro run_timers_irq) simp_all
  have le': "unat now \<le> unat now'" using le by (simp add: word_le_nat_alt)
  have "now < INT64_MAX" using le max by simp
  then have exp: "unat (timer_expiry (timebase_freq mt) now (value - ?r)) =
      min (unat now + (unat value - unat ?r) * k) 9223372036854775807" if "?r < value"
    using timer_expiry_exact [OF f, of "value - ?r" now] near that
    by (simp add: unat_sub word_le_nat_alt word_less_nat_alt)
  have fire: "timer_irqs (run_timers now' mt') ! i \<longleftrightarrow> unat now + (unat value - unat ?r) * k \<le> unat now'"
    if less: "?r < value"
  proof -
    have "timer_irqs mt' ! i = False" "timers mt' ! i = Some (timer_expiry (timebase_freq mt) now (value - ?r))"
      using r(1,12,13) len less by (simp_all add: not_le [symmetric])
    moreover have "unat now' < 9223372036854775807" using max by (simp add: INT64_MAX_def word_less_nat_alt)
    ultimately show ?thesis using irq exp [OF less] by (simp add: expired_def word_le_nat_alt min_def)
  qed
  note bounds = deadline_bounds [OF k le', of "unat value - unat ?r"]
  show "value \<le> cpu_riscv_read_rtc now' mt'" if on: "timer_irqs (run_timers now' mt') ! i"
  proof (cases "?r < value")
    case True
    with fire on bounds(1) later show ?thesis by (simp add: r(11) word_le_nat_alt word_less_nat_alt)
  qed (use later in \<open>simp add: r(11) word_le_nat_alt word_less_nat_alt\<close>)
  show "timer_irqs (run_timers now' mt') ! i" if "value < cpu_riscv_read_rtc now' mt' \<or> value \<le> ?r"
  proof (cases "?r < value")
    case True
    with that have "unat value < unat ?r + (unat now' div k - unat now div k)"
      using later by (simp add: r(11) word_le_nat_alt word_less_nat_alt)
    with True bounds(2) fire show ?thesis by (simp add: word_less_nat_alt)
  next
    case False
    then show ?thesis using irq r(1,12) len by (simp add: not_less)
  qed
qed

section \<open>Accesses in range\<close>

text \<open>
  What a guest and the clock can do to the timer device, and the shape its arrays must have.
\<close>

datatype mtimer_access = Read u64 u64 nat | Write u64 u64 u64 nat | Expire u64 | Reset u64

definition mtimer_access_step ::
    "(nat \<Rightarrow> bool) \<Rightarrow> mtimer_access \<Rightarrow> RISCVAclintMTimerState \<Rightarrow> RISCVAclintMTimerState res" where
  "mtimer_access_step present a mt =
     (case a of
        Read now addr sz \<Rightarrow> bindE (riscv_aclint_mtimer_read present now addr sz mt) (\<lambda>_. Inr mt)
      | Write now addr value sz \<Rightarrow> riscv_aclint_mtimer_write present now addr value sz mt
      | Expire now \<Rightarrow> Inr (run_timers now mt)
      | Reset now \<Rightarrow> riscv_aclint_mtimer_reset_enter present now mt)"

definition mtimer_wf :: "nat \<Rightarrow> RISCVAclintMTimerState \<Rightarrow> bool" where
  "mtimer_wf n mt \<longleftrightarrow> hartid_base mt = 0 \<and> num_harts mt = n \<and>
     length (timecmp mt) = n \<and> length (timers mt) = n \<and> length (timer_irqs mt) = n"

lemma timecmp_hart_less:
  assumes "timecmp_hart addr mt = Some h"
  shows "h < hartid_base mt + num_harts mt"
proof -
  let ?b = "timecmp_base mt" and ?n = "push_bit 3 (word_of_nat (num_harts mt)) :: u32"
  have a: "unat ?b \<le> unat addr" "unat addr < unat (?b + ?n)" and
    h: "h = hartid_base mt + unat (drop_bit 3 (addr - ucast ?b))"
    using assms by (auto simp: timecmp_hart_def word_le_nat_alt word_less_nat_alt unat_widen split: if_splits)
  have "unat (?b + ?n) \<le> unat ?b + unat ?n" by (simp add: unat_word_ariths)
  moreover have "unat ?n \<le> 8 * num_harts mt"
    by (simp add: push_bit_eq_mult unat_word_ariths unat_of_nat)
  moreover have "unat (addr - ucast ?b) = unat addr - unat ?b"
    using a(1) by (simp add: unat_sub word_le_nat_alt unat_widen)
  ultimately have "unat (addr - ucast ?b) < 8 * num_harts mt" using a by linarith
  then show ?thesis by (simp add: h drop_bit_eq_div unat_div_distrib less_mult_imp_div_less mult.commute)
qed

lemma write_timecmp_wf:
  assumes "mtimer_wf n mt" and "h < n"
  shows "\<exists>mt'. riscv_aclint_mtimer_write_timecmp now h v mt = Inr mt' \<and> mtimer_wf n mt'"
  using assms by (simp add: riscv_aclint_mtimer_write_timecmp_def mtimer_wf_def Let_def)

lemma write_timecmp_reg_wf:
  assumes "mtimer_wf n mt" and "h < n"
  shows "\<exists>mt'. write_timecmp_reg present now h addr v sz mt = Inr mt' \<and> mtimer_wf n mt'"
proof -
  have "timecmp_at h mt = Inr (timecmp mt ! h)" using assms by (simp add: timecmp_at_def mtimer_wf_def)
  then show ?thesis using assms(1) write_timecmp_wf [OF assms] by (simp add: write_timecmp_reg_def)
qed

lemma refresh_timecmp_wf:
  assumes "mtimer_wf n mt" and "set hs \<subseteq> {..<n}"
  shows "\<exists>mt'. foldE (refresh_timecmp present now) hs mt = Inr mt' \<and> mtimer_wf n mt'"
  using assms
proof (induction hs arbitrary: mt)
  case (Cons h hs)
  have "\<exists>mt'. refresh_timecmp present now h mt = Inr mt' \<and> mtimer_wf n mt'"
    using Cons.prems write_timecmp_wf [of n mt h now "timecmp mt ! h"]
    by (auto simp: refresh_timecmp_def timecmp_at_def mtimer_wf_def)
  then show ?case using Cons.IH Cons.prems(2) by auto
qed simp

lemma mtimer_write_wf:
  assumes "mtimer_wf n mt"
  shows "\<exists>mt'. riscv_aclint_mtimer_write present now addr v sz mt = Inr mt' \<and> mtimer_wf n mt'"
proof (cases "timecmp_hart addr mt")
  case None
  have "\<exists>mt'. foldE (refresh_timecmp present now) [0..<num_harts mt] (mt\<lparr>time_delta := d\<rparr>) = Inr mt' \<and> mtimer_wf n mt'" for d
    using assms by (intro refresh_timecmp_wf) (auto simp: mtimer_wf_def)
  with None assms show ?thesis by (simp add: riscv_aclint_mtimer_write_def Let_def)
next
  case (Some h)
  then have "h < n" using timecmp_hart_less [OF Some] assms by (simp add: mtimer_wf_def)
  then show ?thesis using Some write_timecmp_reg_wf [OF assms] by (simp add: riscv_aclint_mtimer_write_def)
qed

lemma mtimer_read_in_range:
  assumes "mtimer_wf n mt"
  shows "\<exists>v. riscv_aclint_mtimer_read present now addr sz mt = Inr v"
proof (cases "timecmp_hart addr mt")
  case (Some h)
  then have "timecmp_at h mt = Inr (timecmp mt ! h)"
    using timecmp_hart_less [OF Some] assms by (simp add: mtimer_wf_def timecmp_at_def)
  with Some show ?thesis by (simp add: riscv_aclint_mtimer_read_def)
qed (simp add: riscv_aclint_mtimer_read_def Let_def)

lemma mtimer_access_wf:
  assumes "mtimer_wf n mt"
  shows "\<exists>mt'. mtimer_access_step present a mt = Inr mt' \<and> mtimer_wf n mt'"
proof (cases a)
  case (Read now addr sz)
  obtain v where "riscv_aclint_mtimer_read present now addr sz mt = Inr v"
    using mtimer_read_in_range [OF assms] by blast
  then show ?thesis using Read assms by (simp add: mtimer_access_step_def)
next
  case (Expire now)
  have "mtimer_wf n (fold (run_timer now) hs mt)" for hs
    using assms
    by (induction hs arbitrary: mt) (simp_all add: mtimer_wf_def run_timer_def riscv_aclint_mtimer_cb_def split: option.splits)
  with Expire show ?thesis by (simp add: mtimer_access_step_def run_timers_def)
qed (use mtimer_write_wf [OF assms] in \<open>simp_all add: mtimer_access_step_def riscv_aclint_mtimer_reset_enter_def\<close>)

section \<open>Properties\<close>

text \<open>
  C39: The timer device of the first socket is type safe: created for any number of harts, it
  takes every sequence of reads and writes of any address, size and value, of timer expiries
  and of resets without an access outside its arrays, and the arrays keep one entry per hart.
\<close>

theorem mtimer_accesses_in_range:
  "\<exists>mt. foldE (mtimer_access_step present) accesses (riscv_aclint_mtimer_create 0 n cmp_base t_base freq) = Inr mt \<and>
     mtimer_wf n mt"
proof -
  have "\<exists>mt'. foldE (mtimer_access_step present) accesses mt = Inr mt' \<and> mtimer_wf n mt'" if "mtimer_wf n mt" for mt
    using that
  proof (induction accesses arbitrary: mt)
    case (Cons a accesses)
    obtain mt1 where "mtimer_access_step present a mt = Inr mt1" "mtimer_wf n mt1"
      using mtimer_access_wf [OF Cons.prems] by blast
    then show ?case using Cons.IH by simp
  qed simp
  then show ?thesis by (simp add: mtimer_wf_def riscv_aclint_mtimer_create_def)
qed

section \<open>Weaknesses\<close>

text \<open>
  The check for an overflowing multiplication only looks whether the product got smaller than
  the factor, so that a product can wrap unnoticed: \<open>2 ^ 60\<close> ticks of the board's clock
  arm the emulator's timer for a time at which the clock has not reached a twenty-fourth of them.
\<close>

lemma expiry_overflow_early:
  "timer_expiry RISCV_ACLINT_DEFAULT_TIMEBASE_FREQ 0 0x1000000000000000 = 0x4000000000000000"
  "cpu_riscv_read_rtc_raw RISCV_ACLINT_DEFAULT_TIMEBASE_FREQ 0x4000000000000000 < 0x1000000000000000 div 24"
  by (simp_all add: timer_expiry_def muldiv64_def cpu_riscv_read_rtc_raw_def NANOSECONDS_PER_SECOND_def
      RISCV_ACLINT_DEFAULT_TIMEBASE_FREQ_def INT64_MAX_def min_def)

text \<open>
  Reset clears the time register, and with a compare register of zero that raises the timer
  interrupt.
\<close>

lemma reset_raises_interrupt:
  "\<exists>mt. riscv_aclint_mtimer_reset_enter (\<lambda>h. h = 0) now
     (riscv_aclint_mtimer_create 0 1 RISCV_ACLINT_DEFAULT_MTIMECMP RISCV_ACLINT_DEFAULT_MTIME
       RISCV_ACLINT_DEFAULT_TIMEBASE_FREQ) = Inr mt \<and> timer_irqs mt = [True]"
  by (simp add: riscv_aclint_mtimer_reset_enter_def riscv_aclint_mtimer_write_def riscv_aclint_mtimer_create_def
      timecmp_hart_def RISCV_ACLINT_DEFAULT_MTIMECMP_def RISCV_ACLINT_DEFAULT_MTIME_def refresh_timecmp_def timecmp_at_def
      riscv_aclint_mtimer_write_timecmp_def cpu_riscv_read_rtc_def)

text \<open>
  Compare registers are read and half-written at the index of the absolute hart number: for the
  first hart of a second socket that is past the end of the array.
\<close>

lemma second_socket_out_of_range:
  "riscv_aclint_mtimer_read (\<lambda>h. h < 8) now 0 8
     (riscv_aclint_mtimer_create 4 4 RISCV_ACLINT_DEFAULT_MTIMECMP RISCV_ACLINT_DEFAULT_MTIME
       RISCV_ACLINT_DEFAULT_TIMEBASE_FREQ) = Inl OutOfRange"
  by (simp add: riscv_aclint_mtimer_read_def riscv_aclint_mtimer_create_def timecmp_hart_def timecmp_at_def
      RISCV_ACLINT_DEFAULT_MTIMECMP_def)

text \<open>
  A write to the low half of the time register takes the high half from the raw clock and not
  from the register: a time set with two 32-bit writes, the high half first, loses its high half.
\<close>

lemma low_write_loses_high:
  "\<exists>a b. riscv_aclint_mtimer_write (\<lambda>_. False) 0 0x7FFC 1 4
      (riscv_aclint_mtimer_create 0 1 RISCV_ACLINT_DEFAULT_MTIMECMP RISCV_ACLINT_DEFAULT_MTIME
        RISCV_ACLINT_DEFAULT_TIMEBASE_FREQ) = Inr a \<and>
    cpu_riscv_read_rtc 0 a = 0x100000000 \<and>
    riscv_aclint_mtimer_write (\<lambda>_. False) 0 0x7FF8 7 4 a = Inr b \<and> cpu_riscv_read_rtc 0 b = 7"
  by (simp add: riscv_aclint_mtimer_write_def riscv_aclint_mtimer_create_def timecmp_hart_def refresh_timecmp_def
      RISCV_ACLINT_DEFAULT_MTIMECMP_def RISCV_ACLINT_DEFAULT_MTIME_def cpu_riscv_read_rtc_def cpu_riscv_read_rtc_raw_def
      muldiv64_def push_bit_eq_mult)

end
