(* ===== verification/SbiTimer.thy ===== *)
theory SbiTimer
  imports SbiHsm QemuAclint
begin

text \<open>
  The timer of the firmware, \<^verbatim>\<open>opensbi-1.2/lib/sbi/sbi_timer.c\<close> with the environment call
  of \<^verbatim>\<open>sbi_ecall_time.c\<close>, the driver \<^verbatim>\<open>lib/utils/timer/aclint_mtimer.c\<close>, and the
  board's timer device below it. Device registers are reached through the bus window of the
  board. A pointer to driver data is a number. Reads of a running clock take the times of the
  successive accesses as a function. The firmware's event counters are not part of the state.
\<close>

section \<open>State\<close>

definition MIP_MTIP :: u64 where "MIP_MTIP = push_bit 7 1"

definition QUARD_STAR_MTIMER :: u64 where "QUARD_STAR_MTIMER = 0x2004000"
definition RISCV_ACLINT_DEFAULT_MTIMER_SIZE :: u64 where "RISCV_ACLINT_DEFAULT_MTIMER_SIZE = 0x8000"

record aclint_mtimer_data =
  mtime_freq :: u64
  mtime_addr :: u64
  mtime_size :: u64
  mtimecmp_addr :: u64
  mtimecmp_size :: u64
  first_hartid :: nat
  mt_hart_count :: nat
  has_64bit_mmio :: bool
  has_shared_mtime :: bool
  time_delta_reference :: "nat option"
  time_delta_computed :: u64
  wide :: bool

text \<open>\<open>wide\<close> says which pair of accessors the driver data points to. A device has its operations or lacks them.\<close>

record sbi_timer_device =
  timer_freq :: u64
  timer_value :: bool
  timer_event_start :: bool
  timer_event_stop :: bool

datatype time_source = GetTicks | TimerValue

record timer_state =
  clock :: u64
  tdev :: RISCVAclintMTimerState
  cpus :: "nat \<Rightarrow> bool"
  tmie :: "nat \<Rightarrow> u64"
  tmip :: "nat \<Rightarrow> u64"
  stimecmp :: "nat \<Rightarrow> u64"
  vdelta :: "nat \<Rightarrow> u64"
  time_delta_off :: u64
  get_time_val :: "time_source option"
  timer_dev :: "sbi_timer_device option"
  mtimers :: "nat \<Rightarrow> aclint_mtimer_data"
  mtimer_hartid2data :: "nat \<Rightarrow> nat option"

section \<open>Device access\<close>

definition mmio_read :: "u64 \<Rightarrow> nat \<Rightarrow> u64 \<Rightarrow> timer_state \<Rightarrow> u64 res" where
  "mmio_read t sz addr s =
     (if addr - QUARD_STAR_MTIMER < RISCV_ACLINT_DEFAULT_MTIMER_SIZE
      then riscv_aclint_mtimer_read (cpus s) t (addr - QUARD_STAR_MTIMER) sz (tdev s) else Inl OutOfRange)"

definition mmio_write :: "nat \<Rightarrow> u64 \<Rightarrow> u64 \<Rightarrow> timer_state \<Rightarrow> timer_state res" where
  "mmio_write sz value addr s =
     (if addr - QUARD_STAR_MTIMER < RISCV_ACLINT_DEFAULT_MTIMER_SIZE
      then bindE (riscv_aclint_mtimer_write (cpus s) (clock s) (addr - QUARD_STAR_MTIMER) value sz (tdev s))
        (\<lambda>d. Inr (s\<lparr>tdev := d\<rparr>))
      else Inl OutOfRange)"

definition mtimer_time_rd64 :: "u64 \<Rightarrow> u64 \<Rightarrow> timer_state \<Rightarrow> u64 res" where
  "mtimer_time_rd64 t addr s = mmio_read t 8 addr s"

definition mtimer_time_wr64 :: "bool \<Rightarrow> u64 \<Rightarrow> u64 \<Rightarrow> timer_state \<Rightarrow> timer_state res" where
  "mtimer_time_wr64 cmp value addr s = mmio_write 8 value addr s"

text \<open>The \<open>n\<close>-th access of the loop happens at the time \<open>t n\<close>.\<close>

partial_function (option) rd32_loop :: "(nat \<Rightarrow> u64) \<Rightarrow> nat \<Rightarrow> u64 \<Rightarrow> timer_state \<Rightarrow> u64 res option" where
  "rd32_loop t n addr s =
     (case mmio_read (t n) 4 (addr + 4) s of Inl e \<Rightarrow> Some (Inl e) | Inr hi \<Rightarrow>
     (case mmio_read (t (n + 1)) 4 addr s of Inl e \<Rightarrow> Some (Inl e) | Inr lo \<Rightarrow>
     (case mmio_read (t (n + 2)) 4 (addr + 4) s of Inl e \<Rightarrow> Some (Inl e) | Inr hi' \<Rightarrow>
        if hi \<noteq> hi' then rd32_loop t (n + 3) addr s else Some (Inr (push_bit 32 hi OR lo)))))"

definition mtimer_time_rd32 :: "(nat \<Rightarrow> u64) \<Rightarrow> u64 \<Rightarrow> timer_state \<Rightarrow> u64 res option" where
  "mtimer_time_rd32 t addr s = rd32_loop t 0 addr s"

definition mtimer_time_wr32 :: "bool \<Rightarrow> u64 \<Rightarrow> u64 \<Rightarrow> timer_state \<Rightarrow> timer_state res" where
  "mtimer_time_wr32 cmp value addr s =
     bindE (mmio_write 4 (if cmp then 0xFFFFFFFF else 0) addr s) (\<lambda>s.
     bindE (mmio_write 4 (drop_bit 32 value) (addr + 4) s) (\<lambda>s.
     mmio_write 4 (value AND 0xFFFFFFFF) addr s))"

definition time_rd :: "aclint_mtimer_data \<Rightarrow> (nat \<Rightarrow> u64) \<Rightarrow> u64 \<Rightarrow> timer_state \<Rightarrow> u64 res option" where
  "time_rd mt t addr s = (if wide mt then Some (mtimer_time_rd64 (t 0) addr s) else mtimer_time_rd32 t addr s)"

definition time_wr :: "aclint_mtimer_data \<Rightarrow> bool \<Rightarrow> u64 \<Rightarrow> u64 \<Rightarrow> timer_state \<Rightarrow> timer_state res" where
  "time_wr mt cmp value addr s =
     (if wide mt then mtimer_time_wr64 cmp value addr s else mtimer_time_wr32 cmp value addr s)"

section \<open>The driver\<close>

definition mtimer_value :: "nat \<Rightarrow> (nat \<Rightarrow> u64) \<Rightarrow> timer_state \<Rightarrow> u64 res option" where
  "mtimer_value h t s =
     (case mtimer_hartid2data s h of
        None \<Rightarrow> Some (Inl NullDeref)
      | Some p \<Rightarrow> time_rd (mtimers s p) t (mtime_addr (mtimers s p)) s)"

text \<open>\<^verbatim>\<open>&time_cmp[target_hart - mt->first_hartid]\<close>\<close>

definition timecmp_reg :: "aclint_mtimer_data \<Rightarrow> nat \<Rightarrow> u64" where
  "timecmp_reg mt h = mtimecmp_addr mt + 8 * ucast (word_of_int (int h - int (first_hartid mt)) :: u32)"

definition mtimer_event_stop :: "nat \<Rightarrow> timer_state \<Rightarrow> timer_state res" where
  "mtimer_event_stop h s =
     (case mtimer_hartid2data s h of
        None \<Rightarrow> Inl NullDeref
      | Some p \<Rightarrow> time_wr (mtimers s p) True (- 1) (timecmp_reg (mtimers s p) h) s)"

definition mtimer_event_start :: "nat \<Rightarrow> u64 \<Rightarrow> timer_state \<Rightarrow> timer_state res" where
  "mtimer_event_start h next_event s =
     (case mtimer_hartid2data s h of
        None \<Rightarrow> Inl NullDeref
      | Some p \<Rightarrow> time_wr (mtimers s p) True next_event (timecmp_reg (mtimers s p) h) s)"

definition upd_mtimer :: "nat \<Rightarrow> (aclint_mtimer_data \<Rightarrow> aclint_mtimer_data) \<Rightarrow> timer_state \<Rightarrow> timer_state" where
  "upd_mtimer p f s = s\<lparr>mtimers := (mtimers s)(p := f (mtimers s p))\<rparr>"

text \<open>The five reads happen at the times \<open>t 0\<close>, \<open>t 1\<close>, and so on, each with its own accesses.\<close>

definition aclint_mtimer_sync :: "nat \<Rightarrow> (nat \<Rightarrow> nat \<Rightarrow> u64) \<Rightarrow> timer_state \<Rightarrow> timer_state res option" where
  "aclint_mtimer_sync p t s =
     (let mt = mtimers s p in
      case time_delta_reference mt of
        None \<Rightarrow> Some (Inr s)
      | Some r \<Rightarrow>
          if has_shared_mtime mt then Some (Inr s)
          else
            let old = time_delta_computed mt; s = upd_mtimer p (\<lambda>m. m\<lparr>time_delta_computed := 1\<rparr>) s;
                rd = (\<lambda>q n f. Option.bind (time_rd (mtimers s q) (t n) (mtime_addr (mtimers s q)) s)
                  (\<lambda>r. case r of Inl e \<Rightarrow> Some (Inl e) | Inr v \<Rightarrow> f v))
            in if old \<noteq> 0 then Some (Inr s)
               else rd p 0 (\<lambda>v1. rd r 1 (\<lambda>mv. rd p 2 (\<lambda>v2.
                 let delta = mv - (v1 div 2 + v2 div 2) in
                 rd p 3 (\<lambda>v. Some (time_wr mt False (v + delta) (mtime_addr mt) s)))))
     )"

definition aclint_mtimer_set_reference :: "nat option \<Rightarrow> nat option \<Rightarrow> timer_state \<Rightarrow> timer_state" where
  "aclint_mtimer_set_reference mt ref s =
     (case (mt, ref) of
        (Some p, Some r) \<Rightarrow> if p = r then s
          else upd_mtimer p (\<lambda>m. m\<lparr>time_delta_reference := Some r, time_delta_computed := 0\<rparr>) s
      | _ \<Rightarrow> s)"

definition aclint_mtimer_warm_init :: "nat \<Rightarrow> (nat \<Rightarrow> nat \<Rightarrow> u64) \<Rightarrow> timer_state \<Rightarrow> (int \<times> timer_state) res option" where
  "aclint_mtimer_warm_init h t s =
     (case mtimer_hartid2data s h of
        None \<Rightarrow> Some (Inr (SBI_ENODEV, s))
      | Some p \<Rightarrow> Option.bind (aclint_mtimer_sync p t s) (\<lambda>r. Some (
          bindE r (\<lambda>s. bindE (time_wr (mtimers s p) True (- 1) (timecmp_reg (mtimers s p) h) s) (\<lambda>s. Inr (0, s))))))"

definition ACLINT_MTIMER_ALIGN :: u64 where "ACLINT_MTIMER_ALIGN = 8"
definition ACLINT_MTIMER_MAX_HARTS :: nat where "ACLINT_MTIMER_MAX_HARTS = 4095"
definition MTIMER_REGION_ALIGN :: u64 where "MTIMER_REGION_ALIGN = 0x1000"

definition mtimer_bad :: "aclint_mtimer_data \<Rightarrow> bool" where
  "mtimer_bad mt \<longleftrightarrow>
     mt_hart_count mt \<noteq> 0 \<and> mtimecmp_size mt = 0 \<or>
     mtime_size mt \<noteq> 0 \<and> mtime_addr mt AND (ACLINT_MTIMER_ALIGN - 1) \<noteq> 0 \<or>
     mtime_size mt \<noteq> 0 \<and> mtime_size mt AND (ACLINT_MTIMER_ALIGN - 1) \<noteq> 0 \<or>
     mtimecmp_addr mt AND (ACLINT_MTIMER_ALIGN - 1) \<noteq> 0 \<or>
     mtimecmp_size mt AND (ACLINT_MTIMER_ALIGN - 1) \<noteq> 0 \<or>
     first_hartid mt \<ge> SBI_HARTMASK_MAX_BITS \<or> mt_hart_count mt > ACLINT_MTIMER_MAX_HARTS"

text \<open>The regions of a timer in the root domain.\<close>

definition mtimer_regions :: "sbi_platform option \<Rightarrow> aclint_mtimer_data \<Rightarrow> domain_state \<Rightarrow> (int \<times> domain_state) option" where
  "mtimer_regions plat mt ds =
     (let add = (\<lambda>a z. sbi_domain_root_add_memrange plat a z MTIMER_REGION_ALIGN SBI_DOMAIN_MEMREGION_MMIO) in
      if mtime_addr mt = mtimecmp_addr mt + mtimecmp_size mt then add (mtimecmp_addr mt) (mtime_size mt + mtimecmp_size mt) ds
      else if mtimecmp_addr mt = mtime_addr mt + mtime_size mt then add (mtime_addr mt) (mtime_size mt + mtimecmp_size mt) ds
      else Option.bind (add (mtime_addr mt) (mtime_size mt) ds) (\<lambda>(rc, ds).
        if rc \<noteq> 0 then Some (rc, ds) else add (mtimecmp_addr mt) (mtimecmp_size mt) ds))"

definition sbi_timer_get_device :: "timer_state \<Rightarrow> sbi_timer_device option" where
  "sbi_timer_get_device s = timer_dev s"

definition sbi_timer_set_device :: "sbi_timer_device option \<Rightarrow> timer_state \<Rightarrow> timer_state" where
  "sbi_timer_set_device dev s =
     (case dev of
        None \<Rightarrow> s
      | Some d \<Rightarrow> if timer_dev s \<noteq> None then s
          else let s = s\<lparr>timer_dev := Some d\<rparr> in
            if get_time_val s = None \<and> timer_value d then s\<lparr>get_time_val := Some TimerValue\<rparr> else s)"

text \<open>
  The static device \<^verbatim>\<open>mtimer\<close> of the driver is an argument and a result, since its fields
  change. The table of driver data has one entry per hart of a hart mask.
\<close>

definition aclint_mtimer_cold_init ::
    "sbi_platform option \<Rightarrow> nat option \<Rightarrow> nat option \<Rightarrow> sbi_timer_device \<Rightarrow> domain_state \<Rightarrow> timer_state \<Rightarrow>
     (int \<times> sbi_timer_device \<times> domain_state \<times> timer_state) res option" where
  "aclint_mtimer_cold_init plat mtp reference dev ds s =
     (case mtp of
        None \<Rightarrow> Some (Inr (SBI_EINVAL, dev, ds, s))
      | Some p \<Rightarrow>
          let mt = mtimers s p in
          if mtimer_bad mt then Some (Inr (SBI_EINVAL, dev, ds, s))
          else if (case reference of None \<Rightarrow> False | Some r \<Rightarrow> mtime_freq mt \<noteq> mtime_freq (mtimers s r))
          then Some (Inr (SBI_EINVAL, dev, ds, s))
          else
            let s = aclint_mtimer_set_reference mtp reference s;
                s = upd_mtimer p (\<lambda>m. m\<lparr>wide := has_64bit_mmio m\<rparr>) s
            in if mt_hart_count mt \<noteq> 0 \<and> SBI_HARTMASK_MAX_BITS < first_hartid mt + mt_hart_count mt
               then Some (Inl OutOfRange)
               else
                 let s = s\<lparr>mtimer_hartid2data := (\<lambda>i. if first_hartid mt \<le> i \<and> i < first_hartid mt + mt_hart_count mt
                       then Some p else mtimer_hartid2data s i)\<rparr>;
                     dev = (if mtime_size mt = 0 then dev\<lparr>timer_value := False\<rparr> else dev)
                 in Option.bind (mtimer_regions plat mt ds) (\<lambda>(rc, ds).
                      if rc \<noteq> 0 then Some (Inr (rc, dev, ds, s))
                      else let dev = dev\<lparr>timer_freq := mtime_freq mt\<rparr>
                        in Some (Inr (0, dev, ds, sbi_timer_set_device (Some dev) s))))"

section \<open>The timer of the firmware\<close>

text \<open>\<^verbatim>\<open>rdtime\<close> reads the clock of the board's timer, which the board registers for it.\<close>

definition get_ticks :: "u64 \<Rightarrow> timer_state \<Rightarrow> u64" where
  "get_ticks t s = cpu_riscv_read_rtc t (tdev s)"

definition call_time_val :: "nat \<Rightarrow> time_source \<Rightarrow> (nat \<Rightarrow> u64) \<Rightarrow> timer_state \<Rightarrow> u64 res option" where
  "call_time_val h src t s = (case src of GetTicks \<Rightarrow> Some (Inr (get_ticks (t 0) s)) | TimerValue \<Rightarrow> mtimer_value h t s)"

definition sbi_timer_value :: "nat \<Rightarrow> (nat \<Rightarrow> u64) \<Rightarrow> timer_state \<Rightarrow> u64 res option" where
  "sbi_timer_value h t s =
     (case get_time_val s of None \<Rightarrow> Some (Inr 0) | Some src \<Rightarrow> call_time_val h src t s)"

definition sbi_timer_virt_value :: "nat \<Rightarrow> (nat \<Rightarrow> u64) \<Rightarrow> timer_state \<Rightarrow> u64 res option" where
  "sbi_timer_virt_value h t s =
     Option.bind (sbi_timer_value h t s) (\<lambda>r. Some (bindE r (\<lambda>v. Inr (v + vdelta s h))))"

definition sbi_timer_get_delta :: "nat \<Rightarrow> timer_state \<Rightarrow> u64" where
  "sbi_timer_get_delta h s = vdelta s h"

definition sbi_timer_set_delta :: "nat \<Rightarrow> u64 \<Rightarrow> timer_state \<Rightarrow> timer_state" where
  "sbi_timer_set_delta h delta s = s\<lparr>vdelta := (vdelta s)(h := delta)\<rparr>"

definition sbi_timer_set_delta_upper :: "nat \<Rightarrow> u64 \<Rightarrow> timer_state \<Rightarrow> timer_state" where
  "sbi_timer_set_delta_upper h delta_upper s =
     s\<lparr>vdelta := (vdelta s)(h := (vdelta s h AND 0xFFFFFFFF) OR push_bit 32 delta_upper)\<rparr>"

text \<open>
  The busy loop of \<^verbatim>\<open>sbi_timer_delay_loop\<close>; \<open>t n\<close> are the times of the accesses of
  its \<open>n\<close>-th reading. It answers the number of readings it took.
\<close>

partial_function (option) delay_wait ::
    "nat \<Rightarrow> time_source \<Rightarrow> (nat \<Rightarrow> nat \<Rightarrow> u64) \<Rightarrow> nat \<Rightarrow> u64 \<Rightarrow> u64 \<Rightarrow> timer_state \<Rightarrow> nat res option" where
  "delay_wait h src t n start delta s =
     Option.bind (call_time_val h src (t n) s) (\<lambda>r.
       case r of Inl e \<Rightarrow> Some (Inl e)
       | Inr v \<Rightarrow> if v - start < delta then delay_wait h src t (n + 1) start delta s else Some (Inr n))"

definition sbi_timer_delay_loop :: "nat \<Rightarrow> u64 \<Rightarrow> u64 \<Rightarrow> (nat \<Rightarrow> nat \<Rightarrow> u64) \<Rightarrow> timer_state \<Rightarrow> nat res option" where
  "sbi_timer_delay_loop h units unit_freq t s =
     (case (timer_dev s, get_time_val s) of
        (Some d, Some src) \<Rightarrow> Option.bind (call_time_val h src (t 0) s) (\<lambda>r.
          case r of Inl e \<Rightarrow> Some (Inl e)
          | Inr start_val \<Rightarrow> delay_wait h src t 1 start_val (timer_freq d * units div unit_freq) s)
      | _ \<Rightarrow> Some (Inr 0))"

text \<open>\<open>pred n\<close> is the answer of the \<open>n\<close>-th call of the predicate.\<close>

partial_function (option) waitms_loop ::
    "nat \<Rightarrow> (nat \<Rightarrow> bool) \<Rightarrow> (nat \<Rightarrow> nat \<Rightarrow> u64) \<Rightarrow> nat \<Rightarrow> u64 \<Rightarrow> u64 \<Rightarrow> timer_state \<Rightarrow> bool res option" where
  "waitms_loop h pred t n start_time ticks s =
     (if pred n then Some (Inr True)
      else Option.bind (sbi_timer_value h (t (n + 1)) s) (\<lambda>r.
        case r of Inl e \<Rightarrow> Some (Inl e)
        | Inr v \<Rightarrow> if v - start_time \<ge> ticks then Some (Inr False) else waitms_loop h pred t (n + 1) start_time ticks s))"

definition sbi_timer_waitms_until :: "nat \<Rightarrow> (nat \<Rightarrow> bool) \<Rightarrow> u64 \<Rightarrow> (nat \<Rightarrow> nat \<Rightarrow> u64) \<Rightarrow> timer_state \<Rightarrow> bool res option" where
  "sbi_timer_waitms_until h pred timeout_ms t s =
     Option.bind (sbi_timer_value h (t 0) s) (\<lambda>r.
       case r of Inl e \<Rightarrow> Some (Inl e)
       | Inr start_time \<Rightarrow>
           (case sbi_timer_get_device s of
              None \<Rightarrow> Some (Inl NullDeref)
            | Some d \<Rightarrow> waitms_loop h pred t 0 start_time (timer_freq d div 1000 * timeout_ms) s))"

definition sbi_timer_event_start :: "nat \<Rightarrow> bool \<Rightarrow> u64 \<Rightarrow> timer_state \<Rightarrow> timer_state res" where
  "sbi_timer_event_start h sstc next_event s =
     bindE
       (if sstc then Inr (s\<lparr>stimecmp := (stimecmp s)(h := next_event)\<rparr>)
        else case timer_dev s of
          None \<Rightarrow> Inr s
        | Some d \<Rightarrow> if timer_event_start d
            then bindE (mtimer_event_start h next_event s) (\<lambda>s. Inr (s\<lparr>tmip := (tmip s)(h := tmip s h AND NOT MIP_STIP)\<rparr>))
            else Inr s)
       (\<lambda>s. Inr (s\<lparr>tmie := (tmie s)(h := tmie s h OR MIP_MTIP)\<rparr>))"

definition sbi_timer_process :: "nat \<Rightarrow> bool \<Rightarrow> timer_state \<Rightarrow> timer_state" where
  "sbi_timer_process h sstc s =
     (let s = s\<lparr>tmie := (tmie s)(h := tmie s h AND NOT MIP_MTIP)\<rparr>
      in if \<not> sstc then s\<lparr>tmip := (tmip s)(h := tmip s h OR MIP_STIP)\<rparr> else s)"

text \<open>\<open>off\<close> is the answer of the scratch allocator, \<open>plat_init\<close> the platform's timer start.\<close>

definition sbi_timer_init ::
    "nat \<Rightarrow> bool \<Rightarrow> u64 \<Rightarrow> bool \<Rightarrow> (bool \<Rightarrow> timer_state \<Rightarrow> int \<times> timer_state) option \<Rightarrow> timer_state \<Rightarrow> int \<times> timer_state" where
  "sbi_timer_init h cold_boot off has_time plat_init s =
     (let s = (if cold_boot then s\<lparr>time_delta_off := off\<rparr> else s) in
      if time_delta_off s = 0 then (SBI_ENOMEM, s)
      else
        let s = (if cold_boot \<and> has_time then s\<lparr>get_time_val := Some GetTicks\<rparr> else s);
            s = s\<lparr>vdelta := (vdelta s)(h := 0)\<rparr>
        in case plat_init of None \<Rightarrow> (0, s) | Some f \<Rightarrow> f cold_boot s)"

definition sbi_timer_exit :: "nat \<Rightarrow> timer_state \<Rightarrow> timer_state res" where
  "sbi_timer_exit h s =
     bindE (case timer_dev s of None \<Rightarrow> Inr s | Some d \<Rightarrow> if timer_event_stop d then mtimer_event_stop h s else Inr s)
       (\<lambda>s. Inr (s\<lparr>tmip := (tmip s)(h := tmip s h AND NOT MIP_STIP), tmie := (tmie s)(h := tmie s h AND NOT MIP_MTIP)\<rparr>))"

definition SBI_EXT_TIME_SET_TIMER :: u64 where "SBI_EXT_TIME_SET_TIMER = 0"

definition sbi_ecall_time_handler :: "nat \<Rightarrow> bool \<Rightarrow> u64 \<Rightarrow> u64 \<Rightarrow> timer_state \<Rightarrow> (int \<times> timer_state) res" where
  "sbi_ecall_time_handler h sstc funcid a0 s =
     (if funcid = SBI_EXT_TIME_SET_TIMER then bindE (sbi_timer_event_start h sstc a0 s) (\<lambda>s. Inr (0, s))
      else Inr (SBI_ENOTSUPP, s))"

section \<open>The machine between two traps\<close>

text \<open>
  The clock runs on; the machine timer interrupt of a hart is pending while the device holds
  its line, and it is taken, to \<^verbatim>\<open>sbi_timer_process\<close>, when the firmware has enabled it.
\<close>

definition clock_to :: "u64 \<Rightarrow> timer_state \<Rightarrow> timer_state" where
  "clock_to now s = s\<lparr>clock := now, tdev := run_timers now (tdev s)\<rparr>"

definition timer_pending :: "nat \<Rightarrow> timer_state \<Rightarrow> bool" where
  "timer_pending h s \<longleftrightarrow> timer_irqs (tdev s) ! (h - hartid_base (tdev s)) \<and> bit (tmie s h) 7"

definition timer_trap :: "nat \<Rightarrow> timer_state \<Rightarrow> timer_state" where
  "timer_trap h s = (if timer_pending h s then sbi_timer_process h False s else s)"

text \<open>A driver that reaches the compare register of hart \<open>h\<close> on the board.\<close>

definition driver_ok :: "nat \<Rightarrow> timer_state \<Rightarrow> bool" where
  "driver_ok h s \<longleftrightarrow>
     (\<exists>p. mtimer_hartid2data s h = Some p \<and> first_hartid (mtimers s p) = hartid_base (tdev s) \<and>
        mtimecmp_addr (mtimers s p) = QUARD_STAR_MTIMER \<and> wide (mtimers s p)) \<and>
     timecmp_base (tdev s) = RISCV_ACLINT_DEFAULT_MTIMECMP \<and> num_harts (tdev s) \<le> 4095 \<and>
     length (timecmp (tdev s)) = num_harts (tdev s) \<and> length (timers (tdev s)) = num_harts (tdev s) \<and>
     length (timer_irqs (tdev s)) = num_harts (tdev s) \<and>
     hartid_base (tdev s) \<le> h \<and> h < hartid_base (tdev s) + num_harts (tdev s) \<and> cpus s h \<and>
     (\<exists>d. timer_dev s = Some d \<and> timer_event_start d)"

lemma timecmp_reg_hart:
  assumes "mtimecmp_addr mt = QUARD_STAR_MTIMER" and "first_hartid mt = hartid_base d"
    and "timecmp_base d = RISCV_ACLINT_DEFAULT_MTIMECMP" and "num_harts d \<le> 4095"
    and "hartid_base d \<le> h" and "h < hartid_base d + num_harts d"
  shows "timecmp_hart (timecmp_reg mt h - QUARD_STAR_MTIMER) d = Some h"
    and "timecmp_reg mt h - QUARD_STAR_MTIMER < RISCV_ACLINT_DEFAULT_MTIMER_SIZE"
    and "(timecmp_reg mt h - QUARD_STAR_MTIMER) AND 7 = 0"
proof -
  define i where "i = h - hartid_base d"
  have i: "i < num_harts d" "i < 4095" "h = hartid_base d + i" using assms by (simp_all add: i_def)
  have "timecmp_reg mt h - QUARD_STAR_MTIMER = 8 * ucast (word_of_nat i :: u32)"
    using assms i by (simp add: timecmp_reg_def)
  moreover have "unat (ucast (word_of_nat i :: u32) :: u64) = i"
    using i by (simp add: unat_widen unat_of_nat)
  ultimately have u: "unat (timecmp_reg mt h - QUARD_STAR_MTIMER) = 8 * i"
    using i by (simp add: unat_word_ariths)
  show "timecmp_reg mt h - QUARD_STAR_MTIMER < RISCV_ACLINT_DEFAULT_MTIMER_SIZE"
    using i(2) by (simp add: word_less_nat_alt u RISCV_ACLINT_DEFAULT_MTIMER_SIZE_def)
  have "(timecmp_reg mt h - QUARD_STAR_MTIMER) AND 7 = take_bit 3 (timecmp_reg mt h - QUARD_STAR_MTIMER)"
    by (simp add: take_bit_eq_mask mask_eq_exp_minus_1)
  also have "\<dots> = 0" by (simp add: word_unat_eq_iff unsigned_take_bit_eq u take_bit_eq_mod unat_mod_distrib)
  finally show "(timecmp_reg mt h - QUARD_STAR_MTIMER) AND 7 = 0" .
  have "unat (push_bit 3 (word_of_nat (num_harts d)) :: u32) = 8 * num_harts d"
    using assms(4) by (simp add: push_bit_eq_mult unat_word_ariths unat_of_nat)
  then show "timecmp_hart (timecmp_reg mt h - QUARD_STAR_MTIMER) d = Some h"
    using i(1) i(3) [symmetric] assms(3)
    by (simp add: timecmp_hart_def RISCV_ACLINT_DEFAULT_MTIMECMP_def word_less_nat_alt unat_widen u
        drop_bit_eq_div unat_div_distrib)
qed

lemma timecmp_reg_upper:
  assumes "mtimecmp_addr mt = QUARD_STAR_MTIMER" and "first_hartid mt = hartid_base d"
    and "timecmp_base d = RISCV_ACLINT_DEFAULT_MTIMECMP" and "num_harts d \<le> 4095"
    and "hartid_base d \<le> h" and "h < hartid_base d + num_harts d"
  shows "timecmp_hart (timecmp_reg mt h + 4 - QUARD_STAR_MTIMER) d = Some h"
    and "timecmp_reg mt h + 4 - QUARD_STAR_MTIMER < RISCV_ACLINT_DEFAULT_MTIMER_SIZE"
    and "(timecmp_reg mt h + 4 - QUARD_STAR_MTIMER) AND 7 = 4"
proof -
  define i where "i = h - hartid_base d"
  have i: "i < num_harts d" "i < 4095" "h = hartid_base d + i" using assms by (simp_all add: i_def)
  have e: "timecmp_reg mt h + 4 - QUARD_STAR_MTIMER = 8 * ucast (word_of_nat i :: u32) + 4"
    using assms i by (simp add: timecmp_reg_def)
  have "unat (ucast (word_of_nat i :: u32) :: u64) = i"
    using i by (simp add: unat_widen unat_of_nat)
  then have u: "unat (timecmp_reg mt h + 4 - QUARD_STAR_MTIMER) = 8 * i + 4"
    unfolding e using i(2) by (simp add: unat_word_ariths)
  show "timecmp_reg mt h + 4 - QUARD_STAR_MTIMER < RISCV_ACLINT_DEFAULT_MTIMER_SIZE"
    using i(2) by (simp add: word_less_nat_alt u RISCV_ACLINT_DEFAULT_MTIMER_SIZE_def)
  have m: "(8 * i + 4) mod 8 = 4" by presburger
  have "(timecmp_reg mt h + 4 - QUARD_STAR_MTIMER) AND 7 = take_bit 3 (timecmp_reg mt h + 4 - QUARD_STAR_MTIMER)"
    by (simp add: take_bit_eq_mask mask_eq_exp_minus_1)
  also have "\<dots> = 4" by (simp add: word_unat_eq_iff unsigned_take_bit_eq u take_bit_eq_mod unat_mod_distrib m)
  finally show "(timecmp_reg mt h + 4 - QUARD_STAR_MTIMER) AND 7 = 4" .
  have "unat (push_bit 3 (word_of_nat (num_harts d)) :: u32) = 8 * num_harts d"
    using assms(4) by (simp add: push_bit_eq_mult unat_word_ariths unat_of_nat)
  moreover have "unat (drop_bit 3 (timecmp_reg mt h + 4 - QUARD_STAR_MTIMER)) = i"
    by (simp only: drop_bit_eq_div unat_div_distrib u) simp
  ultimately show "timecmp_hart (timecmp_reg mt h + 4 - QUARD_STAR_MTIMER) d = Some h"
    using i(1) i(3) [symmetric] assms(3) u
    by (simp add: timecmp_hart_def RISCV_ACLINT_DEFAULT_MTIMECMP_def word_less_nat_alt unat_widen)
qed

lemma event_start_write:
  assumes ok: "driver_ok h s"
  obtains d where "riscv_aclint_mtimer_write_timecmp (clock s) h next (tdev s) = Inr d"
    "sbi_timer_event_start h False next s = Inr (s\<lparr>tdev := d, tmip := (tmip s)(h := tmip s h AND NOT MIP_STIP),
       tmie := (tmie s)(h := tmie s h OR MIP_MTIP)\<rparr>)"
proof -
  obtain p td where p: "mtimer_hartid2data s h = Some p" "first_hartid (mtimers s p) = hartid_base (tdev s)"
    "mtimecmp_addr (mtimers s p) = QUARD_STAR_MTIMER" "wide (mtimers s p)"
    and td: "timer_dev s = Some td" "timer_event_start td" using ok by (auto simp: driver_ok_def)
  have d: "timecmp_base (tdev s) = RISCV_ACLINT_DEFAULT_MTIMECMP" "num_harts (tdev s) \<le> 4095"
    "hartid_base (tdev s) \<le> h" "h < hartid_base (tdev s) + num_harts (tdev s)" "cpus s h"
    "length (timecmp (tdev s)) = num_harts (tdev s)"
    using ok by (simp_all add: driver_ok_def)
  note reg = timecmp_reg_hart [OF p(3,2) d(1-4)]
  have "h - hartid_base (tdev s) < length (timecmp (tdev s))" using d by simp
  then obtain d' where d': "riscv_aclint_mtimer_write_timecmp (clock s) h next (tdev s) = Inr d'"
    by (cases "next \<le> cpu_riscv_read_rtc (clock s) (tdev s)") (auto simp: riscv_aclint_mtimer_write_timecmp_def Let_def)
  moreover have "mtimer_event_start h next s = Inr (s\<lparr>tdev := d'\<rparr>)"
    using p d(5) reg d' by (simp add: mtimer_event_start_def time_wr_def mtimer_time_wr64_def mmio_write_def
        riscv_aclint_mtimer_write_def write_timecmp_reg_def)
  then have "sbi_timer_event_start h False next s = Inr (s\<lparr>tdev := d', tmip := (tmip s)(h := tmip s h AND NOT MIP_STIP),
       tmie := (tmie s)(h := tmie s h OR MIP_MTIP)\<rparr>)"
    using td by (simp add: sbi_timer_event_start_def)
  ultimately show thesis by (rule that)
qed

lemma timer_bits: "\<not> bit (x AND NOT MIP_STIP) 5" "bit (x OR MIP_STIP) 5" "bit (x OR MIP_MTIP) 7" for x :: u64
  by (simp_all add: MIP_STIP_def MIP_MTIP_def bit_simps)

section \<open>Access in two halves\<close>

text \<open>The time register of the board's device, behind its compare registers.\<close>

definition mtime_reg :: u64 where "mtime_reg = QUARD_STAR_MTIMER + 0x7FF8"

definition board_timer :: "timer_state \<Rightarrow> bool" where
  "board_timer s \<longleftrightarrow> timecmp_base (tdev s) = RISCV_ACLINT_DEFAULT_MTIMECMP \<and>
     time_base (tdev s) = RISCV_ACLINT_DEFAULT_MTIME \<and> num_harts (tdev s) \<le> 4095"

lemma mtime_not_timecmp:
  assumes "board_timer s"
  shows "timecmp_hart 0x7FF8 (tdev s) = None" "timecmp_hart 0x7FFC (tdev s) = None"
proof -
  have "unat (push_bit 3 (word_of_nat (num_harts (tdev s))) :: u32) = 8 * num_harts (tdev s)"
    using assms by (simp add: board_timer_def push_bit_eq_mult unat_word_ariths unat_of_nat)
  then show "timecmp_hart 0x7FF8 (tdev s) = None" "timecmp_hart 0x7FFC (tdev s) = None"
    using assms by (simp_all add: board_timer_def timecmp_hart_def RISCV_ACLINT_DEFAULT_MTIMECMP_def word_less_nat_alt unat_widen)
qed

lemma read_mtime_halves:
  assumes "board_timer s"
  shows "mmio_read t 4 mtime_reg s = Inr (take_bit 32 (get_ticks t s))"
    and "mmio_read t 4 (mtime_reg + 4) s = Inr (drop_bit 32 (get_ticks t s))"
proof -
  have m: "x AND 0xFFFFFFFF = take_bit 32 x" for x :: u64 by (simp add: take_bit_eq_mask mask_eq_exp_minus_1)
  have "take_bit 32 (drop_bit 32 x) = drop_bit 32 x" for x :: u64
    by (rule bit_word_eqI) (auto simp: bit_simps dest: bit_imp_le_length)
  then show "mmio_read t 4 mtime_reg s = Inr (take_bit 32 (get_ticks t s))"
    "mmio_read t 4 (mtime_reg + 4) s = Inr (drop_bit 32 (get_ticks t s))"
    using assms mtime_not_timecmp [OF assms]
    by (simp_all add: mmio_read_def mtime_reg_def RISCV_ACLINT_DEFAULT_MTIMER_SIZE_def riscv_aclint_mtimer_read_def
        get_ticks_def board_timer_def RISCV_ACLINT_DEFAULT_MTIME_def m)
qed

text \<open>Three readings of a clock that does not run backwards, with the same high half around the low half.\<close>

lemma halves_of_one_time:
  fixes a b c :: u64
  assumes "a \<le> b" "b \<le> c" "drop_bit 32 a = drop_bit 32 c"
  shows "push_bit 32 (drop_bit 32 a) OR take_bit 32 b = b"
proof -
  have "drop_bit 32 a \<le> drop_bit 32 b" "drop_bit 32 b \<le> drop_bit 32 c"
    using assms(1,2) by (simp_all add: drop_bit_eq_div word_le_nat_alt unat_div_distrib div_le_mono)
  then have "drop_bit 32 b = drop_bit 32 a" using assms(3) by simp
  moreover have "push_bit 32 (drop_bit 32 b) OR take_bit 32 b = b"
    by (rule bit_word_eqI) (auto simp: bit_simps)
  ultimately show ?thesis by simp
qed

lemma rd32_step:
  assumes "board_timer s"
  shows "rd32_loop t n mtime_reg s =
    (if drop_bit 32 (get_ticks (t n) s) \<noteq> drop_bit 32 (get_ticks (t (n + 2)) s) then rd32_loop t (n + 3) mtime_reg s
     else Some (Inr (push_bit 32 (drop_bit 32 (get_ticks (t n) s)) OR take_bit 32 (get_ticks (t (n + 1)) s))))"
  by (subst rd32_loop.simps) (simp add: read_mtime_halves [OF assms])

lemma and_low_half: "x AND 0xFFFFFFFF = take_bit 32 x" for x :: u64
  by (simp add: take_bit_eq_mask mask_eq_exp_minus_1)

lemma join_fields:
  fixes v w :: u64
  shows "push_bit 32 (drop_bit 32 v) OR take_bit 32 v = v"
    and "drop_bit 32 (push_bit 32 (drop_bit 32 v) OR take_bit 32 w) = drop_bit 32 v"
    and "take_bit 32 (push_bit 32 x OR take_bit 32 w) = take_bit 32 w"
    and "take_bit 32 (take_bit 32 w) = take_bit 32 w"
    and "push_bit 32 (take_bit 32 (drop_bit 32 v)) = push_bit 32 (drop_bit 32 v)"
  by (rule bit_word_eqI, auto simp: bit_simps dest: bit_imp_le_length)+

text \<open>One 32-bit write to a half of the compare register of a hart.\<close>

lemma write_half:
  assumes "hartid_base d = 0" and "h < length (timecmp d)" and "cpus s h"
    and "addr - QUARD_STAR_MTIMER < RISCV_ACLINT_DEFAULT_MTIMER_SIZE"
    and "timecmp_hart (addr - QUARD_STAR_MTIMER) d = Some h" and "tdev s = d"
  shows "(addr - QUARD_STAR_MTIMER) AND 7 = 0 \<Longrightarrow> mmio_write 4 v addr s =
      bindE (riscv_aclint_mtimer_write_timecmp (clock s) h (push_bit 32 (drop_bit 32 (timecmp d ! h)) OR take_bit 32 v) d)
        (\<lambda>d. Inr (s\<lparr>tdev := d\<rparr>))"
    and "(addr - QUARD_STAR_MTIMER) AND 7 = 4 \<Longrightarrow> mmio_write 4 v addr s =
      bindE (riscv_aclint_mtimer_write_timecmp (clock s) h (push_bit 32 v OR take_bit 32 (timecmp d ! h)) d)
        (\<lambda>d. Inr (s\<lparr>tdev := d\<rparr>))"
  using assms by (simp_all add: mmio_write_def riscv_aclint_mtimer_write_def write_timecmp_reg_def timecmp_at_def and_low_half)

lemma write_timecmp_total:
  assumes "h < length (timecmp d)" and "hartid_base d = 0"
  obtains d' where "riscv_aclint_mtimer_write_timecmp now h v d = Inr d'"
  using assms by (cases "v \<le> cpu_riscv_read_rtc now d") (auto simp: riscv_aclint_mtimer_write_timecmp_def Let_def)

text \<open>A timer set through the environment call, and what is pending once the clock has run on.\<close>

lemma set_timer_fires:
  assumes "driver_ok h s" and "unat (timebase_freq (tdev s)) * k = 1000000000"
    and "clock s \<le> now" and "now < INT64_MAX"
    and "unat (get_ticks (clock s) s) + (unat now - unat (clock s)) < 2 ^ 64"
    and "(unat next - unat (get_ticks (clock s) s)) * k < 9223372036854775808"
  obtains s1 where "sbi_ecall_time_handler h False SBI_EXT_TIME_SET_TIMER next s = Inr (0, s1)" and "\<not> bit (tmip s1 h) 5"
    and "get_ticks now (timer_trap h (clock_to now s1)) = get_ticks now s"
    and "bit (tmip (timer_trap h (clock_to now s1)) h) 5 \<longrightarrow> next \<le> get_ticks now s"
    and "next < get_ticks now s \<longrightarrow> bit (tmip (timer_trap h (clock_to now s1)) h) 5"
proof -
  obtain d where w: "riscv_aclint_mtimer_write_timecmp (clock s) h next (tdev s) = Inr d"
    and e: "sbi_timer_event_start h False next s = Inr (s\<lparr>tdev := d, tmip := (tmip s)(h := tmip s h AND NOT MIP_STIP),
       tmie := (tmie s)(h := tmie s h OR MIP_MTIP)\<rparr>)" (is "_ = Inr ?s1")
    by (rule event_start_write [OF assms(1)])
  note r = write_timecmp_result [OF w refl]
  have len: "length (timers (tdev s)) = length (timecmp (tdev s))" "length (timer_irqs (tdev s)) = length (timecmp (tdev s))"
    using assms(1) by (simp_all add: driver_ok_def)
  note irq = mtimer_irq [OF assms(2) refl len w assms(3,4)]
  let ?s2 = "timer_trap h (clock_to now ?s1)"
  have p: "timer_pending h (clock_to now ?s1) \<longleftrightarrow> timer_irqs (run_timers now d) ! (h - hartid_base (tdev s))"
    by (simp add: timer_pending_def clock_to_def r(5) timer_bits)
  have t: "get_ticks now ?s2 = cpu_riscv_read_rtc now d" and b: "bit (tmip ?s2 h) 5 \<longleftrightarrow> timer_pending h (clock_to now ?s1)"
    by (simp_all add: timer_trap_def sbi_timer_process_def get_ticks_def clock_to_def cpu_riscv_read_rtc_def timer_bits)
  show ?thesis
  proof
    show "sbi_ecall_time_handler h False SBI_EXT_TIME_SET_TIMER next s = Inr (0, ?s1)" using e by (simp add: sbi_ecall_time_handler_def)
    show "\<not> bit (tmip ?s1 h) 5" by (simp add: timer_bits)
    show g: "get_ticks now ?s2 = get_ticks now s" using r(11) [of now] by (simp only: t) (simp add: get_ticks_def)
    show "bit (tmip ?s2 h) 5 \<longrightarrow> next \<le> get_ticks now s"
      using irq(1) assms(5,6) unfolding g [symmetric] t b p by (simp add: get_ticks_def)
    show "next < get_ticks now s \<longrightarrow> bit (tmip ?s2 h) 5"
      using irq(2) assms(5,6) unfolding g [symmetric] t b p by (simp add: get_ticks_def)
  qed
qed

section \<open>Properties\<close>

text \<open>
  C8: A timer set by the supervisor fires on time, through all layers: the environment call,
  the firmware, the driver, and the device. Setting the timer succeeds and takes back a pending timer interrupt
  of the supervisor. When the clock has run to a later time and the firmware has taken
  its machine timer interrupt if there was one, the supervisor's timer interrupt is
  pending only if the time register has reached the value asked for, and it is pending
  once the time register is past that value. (The device's clock ticks a whole number of times
  per second and does not wrap, and the deadline lies less than 292 years ahead.)
\<close>

theorem timer_fires_on_time:
  assumes "driver_ok h s" and "unat (timebase_freq (tdev s)) * k = 1000000000"
    and "clock s \<le> now" and "now < INT64_MAX"
    and "unat (get_ticks (clock s) s) + (unat now - unat (clock s)) < 2 ^ 64"
    and "(unat next - unat (get_ticks (clock s) s)) * k < 2 ^ 63"
  shows "\<exists>s1. sbi_ecall_time_handler h False SBI_EXT_TIME_SET_TIMER next s = Inr (0, s1) \<and> \<not> bit (tmip s1 h) 5 \<and>
    (let s2 = timer_trap h (clock_to now s1) in
      (bit (tmip s2 h) 5 \<longrightarrow> next \<le> get_ticks now s2) \<and> (next < get_ticks now s2 \<longrightarrow> bit (tmip s2 h) 5))"
proof -
  have "(unat next - unat (get_ticks (clock s) s)) * k < 9223372036854775808" using assms(6) by simp
  then obtain s1 where "sbi_ecall_time_handler h False SBI_EXT_TIME_SET_TIMER next s = Inr (0, s1)" "\<not> bit (tmip s1 h) 5"
    "get_ticks now (timer_trap h (clock_to now s1)) = get_ticks now s"
    "bit (tmip (timer_trap h (clock_to now s1)) h) 5 \<longrightarrow> next \<le> get_ticks now s"
    "next < get_ticks now s \<longrightarrow> bit (tmip (timer_trap h (clock_to now s1)) h) 5"
    by (rule set_timer_fires [OF assms(1-5)])
  then show ?thesis by (simp add: Let_def)
qed

text \<open>The board with one hart, its timer running at 10 MHz, a millisecond after the start.\<close>

definition sample_mtimer :: aclint_mtimer_data where
  "sample_mtimer = \<lparr>mtime_freq = 10000000, mtime_addr = 0x200BFF8, mtime_size = 8, mtimecmp_addr = QUARD_STAR_MTIMER,
     mtimecmp_size = 0x7FF8, first_hartid = 0, mt_hart_count = 1, has_64bit_mmio = True, has_shared_mtime = False,
     time_delta_reference = None, time_delta_computed = 0, wide = True\<rparr>"

definition sample_timer :: timer_state where
  "sample_timer = \<lparr>clock = 1000000,
     tdev = riscv_aclint_mtimer_create 0 1 RISCV_ACLINT_DEFAULT_MTIMECMP RISCV_ACLINT_DEFAULT_MTIME
       RISCV_ACLINT_DEFAULT_TIMEBASE_FREQ,
     cpus = (\<lambda>h. h = 0), tmie = (\<lambda>_. 0), tmip = (\<lambda>_. 0), stimecmp = (\<lambda>_. 0), vdelta = (\<lambda>_. 0), time_delta_off = 88,
     get_time_val = Some GetTicks, timer_dev = Some \<lparr>timer_freq = 10000000, timer_value = True,
       timer_event_start = True, timer_event_stop = True\<rparr>,
     mtimers = (\<lambda>_. sample_mtimer), mtimer_hartid2data = (\<lambda>h. if h = 0 then Some 0 else None)\<rparr>"

lemma sample_timer_ok:
  "driver_ok 0 sample_timer" "timebase_freq (tdev sample_timer) = 10000000" "get_ticks t sample_timer = word_of_nat (unat t div 100)"
  by (simp_all add: driver_ok_def sample_timer_def sample_mtimer_def riscv_aclint_mtimer_create_def get_ticks_def
      cpu_riscv_read_rtc_def cpu_riscv_read_rtc_raw_def muldiv64_def NANOSECONDS_PER_SECOND_def
      RISCV_ACLINT_DEFAULT_TIMEBASE_FREQ_def)

theorem timer_fires_on_time_witness:
  "\<exists>s1. sbi_ecall_time_handler 0 False SBI_EXT_TIME_SET_TIMER 20000 sample_timer = Inr (0, s1) \<and>
     bit (tmip (timer_trap 0 (clock_to 2000100 s1)) 0) 5"
proof -
  let ?s2 = "\<lambda>s1. timer_trap 0 (clock_to 2000100 s1)"
  have c: "clock sample_timer = 1000000" by (simp add: sample_timer_def)
  have a: "unat (timebase_freq (tdev sample_timer)) * 100 = 1000000000"
    "clock sample_timer \<le> 2000100" "(2000100 :: u64) < INT64_MAX"
    "unat (get_ticks (clock sample_timer) sample_timer) + (unat (2000100 :: u64) - unat (clock sample_timer)) < 2 ^ 64"
    "(unat (20000 :: u64) - unat (get_ticks (clock sample_timer) sample_timer)) * 100 < 2 ^ 63"
    by (simp_all add: c sample_timer_ok INT64_MAX_def)
  obtain s1 where s1: "sbi_ecall_time_handler 0 False SBI_EXT_TIME_SET_TIMER 20000 sample_timer = Inr (0, s1)"
    "20000 < get_ticks 2000100 (?s2 s1) \<longrightarrow> bit (tmip (?s2 s1) 0) 5"
    using timer_fires_on_time [OF sample_timer_ok(1) a] unfolding Let_def by blast
  obtain d where w: "riscv_aclint_mtimer_write_timecmp (clock sample_timer) 0 20000 (tdev sample_timer) = Inr d"
    and e: "sbi_timer_event_start 0 False 20000 sample_timer =
      Inr (sample_timer\<lparr>tdev := d, tmip := (tmip sample_timer)(0 := tmip sample_timer 0 AND NOT MIP_STIP),
       tmie := (tmie sample_timer)(0 := tmie sample_timer 0 OR MIP_MTIP)\<rparr>)" (is "_ = Inr ?s1")
    by (rule event_start_write [OF sample_timer_ok(1)])
  have d: "s1 = ?s1" using s1(1) e by (simp add: sbi_ecall_time_handler_def)
  have "get_ticks 2000100 (?s2 s1) = get_ticks 2000100 sample_timer"
    using write_timecmp_result(11) [OF w refl, of "2000100"]
    by (simp add: d timer_trap_def sbi_timer_process_def get_ticks_def clock_to_def cpu_riscv_read_rtc_def)
  then have "20000 < get_ticks 2000100 (?s2 s1)" by (simp add: sample_timer_ok(3))
  with s1 show ?thesis by blast
qed

text \<open>
  C37: Reading the time register in two halves, as the driver does it when the device has no
  64-bit access, never gives a torn value: what is returned is the value the register had at
  one of the accesses. The loop ends at the first round in which the high half stands still.
\<close>

theorem time_rd32_untorn:
  assumes "board_timer s" and "\<forall>n. get_ticks (t n) s \<le> get_ticks (t (n + 1)) s"
    and "drop_bit 32 (get_ticks (t (3 * m)) s) = drop_bit 32 (get_ticks (t (3 * m + 2)) s)"
  shows "\<exists>j. mtimer_time_rd32 t mtime_reg s = Some (Inr (get_ticks (t j) s)) \<and> j \<le> 3 * m + 1"
proof -
  let ?g = "\<lambda>n. get_ticks (t n) s"
  have "\<exists>j. rd32_loop t (3 * (m - k)) mtime_reg s = Some (Inr (?g j)) \<and> j \<le> 3 * m + 1" if "k \<le> m" for k
    using that
  proof (induction k)
    case 0
    then show ?case
      using halves_of_one_time [OF assms(2) [rule_format, of "3 * m"] assms(2) [rule_format, of "3 * m + 1"]] assms(3)
      by (intro exI [of _ "3 * m + 1"]) (simp add: rd32_step [OF assms(1), of t "3 * m"])
  next
    case (Suc k)
    let ?n = "3 * (m - Suc k)"
    have nx: "3 * (m - k) = ?n + 3" using Suc.prems by simp
    show ?case
    proof (cases "drop_bit 32 (?g ?n) = drop_bit 32 (?g (?n + 2))")
      case True
      then show ?thesis
        using halves_of_one_time [OF assms(2) [rule_format, of ?n] assms(2) [rule_format, of "?n + 1"]]
        by (intro exI [of _ "?n + 1"]) (simp add: rd32_step [OF assms(1), of t ?n])
    next
      case False
      then show ?thesis using Suc nx by (simp add: rd32_step [OF assms(1), of t ?n])
    qed
  qed
  from this [of m] show ?thesis by (simp add: mtimer_time_rd32_def)
qed

text \<open>A clock that crosses a multiple of \<open>2 ^ 32\<close> between the first and the third access.\<close>

theorem time_rd32_untorn_witness:
  "\<exists>j. mtimer_time_rd32 (\<lambda>n. if n = 0 then 0x63FFFFFFFF else 0x6400000000) mtime_reg sample_timer =
     Some (Inr (get_ticks (if j = 0 then 0x63FFFFFFFF else 0x6400000000) sample_timer)) \<and> j \<le> (4 :: nat)"
proof -
  let ?t = "\<lambda>n :: nat. if n = 0 then 0x63FFFFFFFF else 0x6400000000 :: u64"
  have "board_timer sample_timer"
    by (simp add: board_timer_def sample_timer_def riscv_aclint_mtimer_create_def)
  moreover have "\<forall>n. get_ticks (?t n) sample_timer \<le> get_ticks (?t (n + 1)) sample_timer"
    by (simp add: sample_timer_ok(3))
  ultimately show ?thesis
    using time_rd32_untorn [of sample_timer ?t 1] by simp
qed

text \<open>
  C38: Programming the compare register with three 32-bit writes is the same as one 64-bit
  write: the register gets the value, the interrupt line is the same, and for a deadline in
  the future the emulator's timer is armed for the same time. (The device indexes half writes
  by the absolute hart number, so its first hart must be hart 0.)
\<close>

theorem time_wr32_same:
  assumes "mtimecmp_addr mt = QUARD_STAR_MTIMER" and "first_hartid mt = 0" and "hartid_base (tdev s) = 0"
    and "board_timer s" and "length (timecmp (tdev s)) = num_harts (tdev s)" and "h < num_harts (tdev s)" and "cpus s h"
    and "length (timers (tdev s)) = num_harts (tdev s)" and "length (timer_irqs (tdev s)) = num_harts (tdev s)"
  shows "\<exists>a b. mtimer_time_wr32 True v (timecmp_reg mt h) s = Inr a \<and> mtimer_time_wr64 True v (timecmp_reg mt h) s = Inr b \<and>
    timecmp (tdev a) = timecmp (tdev b) \<and> timer_irqs (tdev a) = timer_irqs (tdev b) \<and>
    (get_ticks (clock s) s < v \<longrightarrow> timers (tdev a) = timers (tdev b))"
proof -
  let ?d = "tdev s" and ?reg = "timecmp_reg mt h"
  have b: "timecmp_base ?d = RISCV_ACLINT_DEFAULT_MTIMECMP" "num_harts ?d \<le> 4095" using assms(4) by (simp_all add: board_timer_def)
  have h: "hartid_base ?d \<le> h" "h < hartid_base ?d + num_harts ?d" "h < length (timecmp ?d)"
    and base: "first_hartid mt = hartid_base ?d" using assms by simp_all
  note lo = timecmp_reg_hart [OF assms(1) base b h(1,2)]
  note hi = timecmp_reg_upper [OF assms(1) base b h(1,2)]
  have same: "timecmp_hart x d' = timecmp_hart x ?d" if "timecmp_base d' = timecmp_base ?d" "num_harts d' = num_harts ?d"
    "hartid_base d' = hartid_base ?d" for x d' using that by (simp add: timecmp_hart_def)
  define w where "w = riscv_aclint_mtimer_write_timecmp (clock s) h"
  define v1 where "v1 = push_bit 32 (drop_bit 32 (timecmp ?d ! h)) OR take_bit 32 0xFFFFFFFF"
  obtain d1 where d1: "w v1 ?d = Inr d1" unfolding w_def by (rule write_timecmp_total [OF h(3) assms(3)])
  note r1 = write_timecmp_result [OF d1 [unfolded w_def] refl]
  define v2 where "v2 = push_bit 32 (drop_bit 32 v) OR take_bit 32 (timecmp d1 ! h)"
  have h1: "h < length (timecmp d1)" "hartid_base d1 = 0" using r1 h assms(3) by simp_all
  obtain d2 where d2: "w v2 d1 = Inr d2" unfolding w_def by (rule write_timecmp_total [OF h1])
  note r2 = write_timecmp_result [OF d2 [unfolded w_def] refl]
  have h2: "h < length (timecmp d2)" "hartid_base d2 = 0" using r2 h1 by simp_all
  obtain d3 where d3: "w v d2 = Inr d3" unfolding w_def by (rule write_timecmp_total [OF h2])
  note r3 = write_timecmp_result [OF d3 [unfolded w_def] refl]
  obtain d4 where d4: "w v ?d = Inr d4" unfolding w_def by (rule write_timecmp_total [OF h(3) assms(3)])
  note r4 = write_timecmp_result [OF d4 [unfolded w_def] refl]
  have t: "timecmp d2 ! h = v2" using r2 h1 by simp
  then have v3: "push_bit 32 (drop_bit 32 (timecmp d2 ! h)) OR take_bit 32 (v AND 0xFFFFFFFF) = v"
    by (simp only: v2_def and_low_half join_fields)
  have e1: "mmio_write 4 0xFFFFFFFF ?reg s = Inr (s\<lparr>tdev := d1\<rparr>)"
    using write_half(1) [OF assms(3) h(3) assms(7) lo(2,1) refl lo(3)] d1 by (simp add: w_def v1_def)
  have e2: "mmio_write 4 (drop_bit 32 v) (?reg + 4) (s\<lparr>tdev := d1\<rparr>) = Inr (s\<lparr>tdev := d2\<rparr>)"
    using write_half(2) [of d1 h "s\<lparr>tdev := d1\<rparr>", OF h1(2,1) _ hi(2) _ _ hi(3)] assms(7) d2 hi(1) same [of d1] r1(5-7)
    by (simp add: w_def v2_def)
  have e3: "mmio_write 4 (v AND 0xFFFFFFFF) ?reg (s\<lparr>tdev := d2\<rparr>) = Inr (s\<lparr>tdev := d3\<rparr>)"
    using write_half(1) [of d2 h "s\<lparr>tdev := d2\<rparr>", OF h2(2,1) _ lo(2) _ _ lo(3)] assms(7) d3 lo(1) same [of d2] r1(5-7) r2(5-7) v3
    by (simp add: w_def)
  have "mtimer_time_wr32 True v ?reg s = Inr (s\<lparr>tdev := d3\<rparr>)"
    by (simp add: mtimer_time_wr32_def e1 e2 e3)
  moreover have "mtimer_time_wr64 True v ?reg s = Inr (s\<lparr>tdev := d4\<rparr>)"
    using lo d4 assms(7) by (simp add: mtimer_time_wr64_def mmio_write_def riscv_aclint_mtimer_write_def write_timecmp_reg_def w_def)
  moreover have "timecmp d3 = timecmp d4" "timer_irqs d3 = timer_irqs d4" using r1 r2 r3 r4 assms(3) by simp_all
  moreover have "timers d3 = timers d4" if "get_ticks (clock s) s < v"
    using that r1(3-13) r2(3-13) r3(3-13) r4(3-13) assms(3) by (simp add: get_ticks_def not_le [symmetric] if_distrib [of "\<lambda>xs. xs[h := _]"])
  ultimately show ?thesis by simp
qed

theorem time_wr32_same_witness:
  "\<exists>a b. mtimer_time_wr32 True 50000000 (timecmp_reg sample_mtimer 0) sample_timer = Inr a \<and>
     mtimer_time_wr64 True 50000000 (timecmp_reg sample_mtimer 0) sample_timer = Inr b \<and>
     timecmp (tdev a) = timecmp (tdev b) \<and> timer_irqs (tdev a) = timer_irqs (tdev b) \<and>
     (get_ticks (clock sample_timer) sample_timer < 50000000 \<longrightarrow> timers (tdev a) = timers (tdev b))"
  by (rule time_wr32_same)
    (simp_all add: sample_timer_def sample_mtimer_def board_timer_def riscv_aclint_mtimer_create_def)

end
