(* ===== verification/SbiIpi.thy ===== *)
theory SbiIpi
  imports SbiHsmRun QemuAclint
begin

text \<open>
  Interrupts between harts: \<^verbatim>\<open>opensbi-1.2/lib/sbi/sbi_ipi.c\<close> with the environment call of
  \<^verbatim>\<open>sbi_ecall_ipi.c\<close>, the driver \<^verbatim>\<open>lib/utils/ipi/aclint_mswi.c\<close>, and the board's
  software-interrupt device below it. The event types of a hart lie in its scratch area and are
  one word per hart here. The operations of an event are static structures of function
  pointers: a pointer to one is its name, and what the pointers do is an argument \<open>cb\<close>.
  The firmware's event counters are not part of the state.
\<close>

section \<open>State\<close>

definition SBI_IPI_EVENT_MAX :: nat where "SBI_IPI_EVENT_MAX = 64"
definition QUARD_STAR_CLINT :: u64 where "QUARD_STAR_CLINT = 0x2000000"
definition RISCV_ACLINT_SWI_SIZE :: u64 where "RISCV_ACLINT_SWI_SIZE = 0x4000"

datatype sbi_ipi_event_ops = IPI_SMODE | IPI_HALT | IPI_TLB

record 's ipi_callbacks =
  update :: "(nat \<Rightarrow> nat \<Rightarrow> 's \<Rightarrow> int \<times> 's) option"
  sync :: "(nat \<Rightarrow> 's \<Rightarrow> 's) option"
  process :: "(nat \<Rightarrow> 's \<Rightarrow> hsm_end \<times> 's) option"

record sbi_ipi_device =
  ipi_send :: bool
  ipi_clear :: bool

record aclint_mswi_data =
  mswi_addr :: u64
  mswi_size :: u64
  mswi_first_hartid :: nat
  mswi_hart_count :: nat

record ipi_state =
  ihsm :: hsm_state
  swi :: RISCVAclintSwiState
  swi_cpus :: "nat \<Rightarrow> bool"
  mswis :: "nat \<Rightarrow> aclint_mswi_data"
  mswi_hartid2data :: "nat \<Rightarrow> nat option"
  ipi_data_off :: u64
  ipi_type :: "nat \<Rightarrow> u64"
  ipi_dev :: "sbi_ipi_device option"
  ipi_ops_array :: "nat \<Rightarrow> sbi_ipi_event_ops option"
  ipi_smode_event :: nat
  ipi_halt_event :: nat

section \<open>The driver\<close>

text \<open>\<^verbatim>\<open>writel\<close> to the window of the device.\<close>

definition swi_writel :: "u64 \<Rightarrow> u64 \<Rightarrow> 'a ipi_state_scheme \<Rightarrow> 'a ipi_state_scheme res" where
  "swi_writel value addr s =
     (if addr - QUARD_STAR_CLINT < RISCV_ACLINT_SWI_SIZE
      then Inr (s\<lparr>swi := riscv_aclint_swi_write (swi_cpus s) (addr - QUARD_STAR_CLINT) value (swi s)\<rparr>)
      else Inl OutOfRange)"

definition msip_reg :: "aclint_mswi_data \<Rightarrow> nat \<Rightarrow> u64" where
  "msip_reg mswi h = mswi_addr mswi + 4 * ucast (word_of_int (int h - int (mswi_first_hartid mswi)) :: u32)"

definition mswi_ipi_send :: "nat \<Rightarrow> 'a ipi_state_scheme \<Rightarrow> 'a ipi_state_scheme res" where
  "mswi_ipi_send target_hart s =
     (if SBI_HARTMASK_MAX_BITS \<le> target_hart then Inr s
      else case mswi_hartid2data s target_hart of
        None \<Rightarrow> Inr s
      | Some p \<Rightarrow> swi_writel 1 (msip_reg (mswis s p) target_hart) s)"

definition mswi_ipi_clear :: "nat \<Rightarrow> 'a ipi_state_scheme \<Rightarrow> 'a ipi_state_scheme res" where
  "mswi_ipi_clear target_hart s =
     (if SBI_HARTMASK_MAX_BITS \<le> target_hart then Inr s
      else case mswi_hartid2data s target_hart of
        None \<Rightarrow> Inr s
      | Some p \<Rightarrow> swi_writel 0 (msip_reg (mswis s p) target_hart) s)"

definition aclint_mswi_warm_init :: "nat \<Rightarrow> 'a ipi_state_scheme \<Rightarrow> (int \<times> 'a ipi_state_scheme) res" where
  "aclint_mswi_warm_init h s = bindE (mswi_ipi_clear h s) (\<lambda>s. Inr (0, s))"

definition sbi_ipi_get_device :: "'a ipi_state_scheme \<Rightarrow> sbi_ipi_device option" where
  "sbi_ipi_get_device s = ipi_dev s"

definition sbi_ipi_set_device :: "sbi_ipi_device option \<Rightarrow> 'a ipi_state_scheme \<Rightarrow> 'a ipi_state_scheme" where
  "sbi_ipi_set_device dev s = (if dev = None \<or> ipi_dev s \<noteq> None then s else s\<lparr>ipi_dev := dev\<rparr>)"

definition ACLINT_MSWI_ALIGN :: u64 where "ACLINT_MSWI_ALIGN = 0x1000"
definition ACLINT_MSWI_MAX_HARTS :: nat where "ACLINT_MSWI_MAX_HARTS = 4095"

definition mswi_bad :: "aclint_mswi_data \<Rightarrow> bool" where
  "mswi_bad mswi \<longleftrightarrow>
     mswi_addr mswi AND (ACLINT_MSWI_ALIGN - 1) \<noteq> 0 \<or>
     mswi_size mswi < word_of_nat (mswi_hart_count mswi) * 4 \<or>
     SBI_HARTMASK_MAX_BITS \<le> mswi_first_hartid mswi \<or>
     ACLINT_MSWI_MAX_HARTS < mswi_hart_count mswi"

text \<open>
  The loop that adds the regions; its counter is a multiple of the alignment and would wrap only
  for a size within a page of \<open>2 ^ 64\<close>.
\<close>

partial_function (option) mswi_regions ::
    "sbi_platform option \<Rightarrow> aclint_mswi_data \<Rightarrow> u64 \<Rightarrow> domain_state \<Rightarrow> (int \<times> domain_state) option" where
  "mswi_regions plat mswi pos ds =
     (if pos < mswi_size mswi then
        let region_size = (if mswi_size mswi - pos < ACLINT_MSWI_ALIGN then mswi_size mswi - pos else ACLINT_MSWI_ALIGN);
            reg = sbi_domain_memregion_init (mswi_addr mswi + pos) region_size SBI_DOMAIN_MEMREGION_MMIO
        in Option.bind (sbi_domain_root_add_memregion plat (Some reg) ds) (\<lambda>(rc, ds).
             if rc \<noteq> 0 then Some (rc, ds) else mswi_regions plat mswi (pos + ACLINT_MSWI_ALIGN) ds)
      else Some (0, ds))"

definition aclint_mswi_cold_init ::
    "sbi_platform option \<Rightarrow> nat option \<Rightarrow> domain_state \<Rightarrow> 'a ipi_state_scheme \<Rightarrow>
     (int \<times> domain_state \<times> 'a ipi_state_scheme) res option" where
  "aclint_mswi_cold_init plat mp ds s =
     (case mp of
        None \<Rightarrow> Some (Inr (SBI_EINVAL, ds, s))
      | Some p \<Rightarrow>
          let mswi = mswis s p in
          if mswi_bad mswi then Some (Inr (SBI_EINVAL, ds, s))
          else if mswi_hart_count mswi \<noteq> 0 \<and> SBI_HARTMASK_MAX_BITS < mswi_first_hartid mswi + mswi_hart_count mswi
          then Some (Inl OutOfRange)
          else
            let s = s\<lparr>mswi_hartid2data := (\<lambda>i. if mswi_first_hartid mswi \<le> i \<and> i < mswi_first_hartid mswi + mswi_hart_count mswi
                  then Some p else mswi_hartid2data s i)\<rparr>
            in Option.bind (mswi_regions plat mswi 0 ds) (\<lambda>(rc, ds).
                 if rc \<noteq> 0 then Some (Inr (rc, ds, s))
                 else Some (Inr (0, ds, sbi_ipi_set_device (Some \<lparr>ipi_send = True, ipi_clear = True\<rparr>) s))))"

section \<open>Sending\<close>

definition sbi_ipi_send ::
    "(sbi_ipi_event_ops \<Rightarrow> 'a ipi_state_scheme ipi_callbacks) \<Rightarrow> nat \<Rightarrow> nat \<Rightarrow> nat \<Rightarrow> 'a ipi_state_scheme \<Rightarrow>
     (int \<times> 'a ipi_state_scheme) res" where
  "sbi_ipi_send cb h remote_hartid event s =
     (if SBI_IPI_EVENT_MAX \<le> event then Inr (SBI_EINVAL, s)
      else case ipi_ops_array s event of
        None \<Rightarrow> Inr (SBI_EINVAL, s)
      | Some ops \<Rightarrow>
          if \<not> has_scratch (ihsm s) remote_hartid then Inr (SBI_EINVAL, s)
          else
            let (ret, s) = (case update (cb ops) of None \<Rightarrow> (0, s) | Some f \<Rightarrow> f h remote_hartid s) in
            if ret < 0 then Inr (ret, s)
            else
              let s = s\<lparr>ipi_type := (ipi_type s)(remote_hartid := set_bit event (ipi_type s remote_hartid))\<rparr> in
              bindE (case ipi_dev s of
                  None \<Rightarrow> Inr s
                | Some d \<Rightarrow> if ipi_send d then mswi_ipi_send remote_hartid s else Inr s) (\<lambda>s.
              Inr (0, case sync (cb ops) of None \<Rightarrow> s | Some f \<Rightarrow> f h s)))"

text \<open>The loop over the bits of a mask; what \<^verbatim>\<open>sbi_ipi_send\<close> returns is ignored.\<close>

function send_loop ::
    "(sbi_ipi_event_ops \<Rightarrow> 'a ipi_state_scheme ipi_callbacks) \<Rightarrow> nat \<Rightarrow> nat \<Rightarrow> nat \<Rightarrow> u64 \<Rightarrow> 'a ipi_state_scheme \<Rightarrow>
     'a ipi_state_scheme res" where
  "send_loop cb h event i m s =
     (if m = 0 then Inr s
      else bindE (if m AND 1 \<noteq> 0 then bindE (sbi_ipi_send cb h i event s) (\<lambda>(_, s). Inr s) else Inr s)
        (send_loop cb h event (i + 1) (drop_bit 1 m)))"
  by pat_completeness auto
termination
  by (relation "measure (\<lambda>(cb, h, event, i, m, s). unat m)")
    (auto simp: drop_bit_eq_div unat_div_distrib unat_gt_0)

declare send_loop.simps [simp del]

partial_function (option) send_all ::
    "(sbi_ipi_event_ops \<Rightarrow> 'a ipi_state_scheme ipi_callbacks) \<Rightarrow> sbi_domain option \<Rightarrow> nat \<Rightarrow> nat \<Rightarrow> nat \<Rightarrow> 'a ipi_state_scheme \<Rightarrow>
     'a ipi_state_scheme res option" where
  "send_all cb dp h event hbase s =
     (case sbi_hsm_hart_interruptible_mask dp hbase (ihsm s) of (rc, m) \<Rightarrow>
        if rc \<noteq> 0 then Some (Inr s)
        else case send_loop cb h event hbase m s of
          Inl e \<Rightarrow> Some (Inl e)
        | Inr s \<Rightarrow> send_all cb dp h event (hbase + BITS_PER_LONG) s)"

definition sbi_ipi_send_many ::
    "(sbi_ipi_event_ops \<Rightarrow> 'a ipi_state_scheme ipi_callbacks) \<Rightarrow> domain_state \<Rightarrow> nat \<Rightarrow> u64 \<Rightarrow> u64 \<Rightarrow> nat \<Rightarrow>
     'a ipi_state_scheme \<Rightarrow> (int \<times> 'a ipi_state_scheme) res option" where
  "sbi_ipi_send_many cb ds h hmask hbase event s =
     (let dp = thishart_domain ds h in
      if hbase \<noteq> -1 then
        case sbi_hsm_hart_interruptible_mask dp (unat hbase) (ihsm s) of (rc, m) \<Rightarrow>
          if rc \<noteq> 0 then Some (Inr (rc, s))
          else Some (bindE (send_loop cb h event (unat hbase) (m AND hmask) s) (\<lambda>s. Inr (0, s)))
      else map_option (\<lambda>r. bindE r (\<lambda>s. Inr (0, s))) (send_all cb dp h event 0 s))"

section \<open>Events\<close>

definition sbi_ipi_event_create ::
    "(sbi_ipi_event_ops \<Rightarrow> 'a ipi_state_scheme ipi_callbacks) \<Rightarrow> sbi_ipi_event_ops option \<Rightarrow> 'a ipi_state_scheme \<Rightarrow>
     int \<times> 'a ipi_state_scheme" where
  "sbi_ipi_event_create cb opsp s =
     (case opsp of
        None \<Rightarrow> (SBI_EINVAL, s)
      | Some ops \<Rightarrow>
          if process (cb ops) = None then (SBI_EINVAL, s)
          else case find (\<lambda>i. ipi_ops_array s i = None) [0..<SBI_IPI_EVENT_MAX] of
            None \<Rightarrow> (SBI_ENOSPC, s)
          | Some i \<Rightarrow> (int i, s\<lparr>ipi_ops_array := (ipi_ops_array s)(i \<mapsto> ops)\<rparr>))"

definition sbi_ipi_event_destroy :: "nat \<Rightarrow> 'a ipi_state_scheme \<Rightarrow> 'a ipi_state_scheme" where
  "sbi_ipi_event_destroy event s =
     (if SBI_IPI_EVENT_MAX \<le> event then s else s\<lparr>ipi_ops_array := (ipi_ops_array s)(event := None)\<rparr>)"

definition set_mip :: "nat \<Rightarrow> u64 \<Rightarrow> 'a ipi_state_scheme \<Rightarrow> 'a ipi_state_scheme" where
  "set_mip h v s = s\<lparr>ihsm := (ihsm s)\<lparr>mip := (mip (ihsm s))(h := v)\<rparr>\<rparr>"

definition set_mie :: "nat \<Rightarrow> u64 \<Rightarrow> 'a ipi_state_scheme \<Rightarrow> 'a ipi_state_scheme" where
  "set_mie h v s = s\<lparr>ihsm := (ihsm s)\<lparr>mie := (mie (ihsm s))(h := v)\<rparr>\<rparr>"

definition sbi_ipi_process_smode :: "nat \<Rightarrow> 'a ipi_state_scheme \<Rightarrow> hsm_end \<times> 'a ipi_state_scheme" where
  "sbi_ipi_process_smode h s = (Ret 0, set_mip h (mip (ihsm s) h OR MIP_SSIP) s)"

definition sbi_ipi_clear_smode :: "nat \<Rightarrow> 'a ipi_state_scheme \<Rightarrow> 'a ipi_state_scheme" where
  "sbi_ipi_clear_smode h s = set_mip h (mip (ihsm s) h AND NOT MIP_SSIP) s"

text \<open>A hart that stops does not come back; when stopping is refused, the result is ignored.\<close>

definition sbi_ipi_process_halt ::
    "sbi_platform option \<Rightarrow> domain_state \<Rightarrow> nat \<Rightarrow> 'a ipi_state_scheme \<Rightarrow> hsm_end \<times> 'a ipi_state_scheme" where
  "sbi_ipi_process_halt plat ds h s =
     (case sbi_hsm_hart_stop plat ds h True (ihsm s) of (e, hs) \<Rightarrow> (e, s\<lparr>ihsm := hs\<rparr>))"

definition ipi_smode_ops :: "'a ipi_state_scheme ipi_callbacks" where
  "ipi_smode_ops = \<lparr>update = None, sync = None, process = Some sbi_ipi_process_smode\<rparr>"

definition ipi_halt_ops :: "sbi_platform option \<Rightarrow> domain_state \<Rightarrow> 'a ipi_state_scheme ipi_callbacks" where
  "ipi_halt_ops plat ds = \<lparr>update = None, sync = None, process = Some (sbi_ipi_process_halt plat ds)\<rparr>"

definition ipi_cb ::
    "sbi_platform option \<Rightarrow> domain_state \<Rightarrow> 'a ipi_state_scheme ipi_callbacks \<Rightarrow> sbi_ipi_event_ops \<Rightarrow>
     'a ipi_state_scheme ipi_callbacks" where
  "ipi_cb plat ds tlb ops =
     (case ops of IPI_SMODE \<Rightarrow> ipi_smode_ops | IPI_HALT \<Rightarrow> ipi_halt_ops plat ds | IPI_TLB \<Rightarrow> tlb)"

definition sbi_ipi_send_smode ::
    "(sbi_ipi_event_ops \<Rightarrow> 'a ipi_state_scheme ipi_callbacks) \<Rightarrow> domain_state \<Rightarrow> nat \<Rightarrow> u64 \<Rightarrow> u64 \<Rightarrow>
     'a ipi_state_scheme \<Rightarrow> (int \<times> 'a ipi_state_scheme) res option" where
  "sbi_ipi_send_smode cb ds h hmask hbase s = sbi_ipi_send_many cb ds h hmask hbase (ipi_smode_event s) s"

definition sbi_ipi_send_halt ::
    "(sbi_ipi_event_ops \<Rightarrow> 'a ipi_state_scheme ipi_callbacks) \<Rightarrow> domain_state \<Rightarrow> nat \<Rightarrow> u64 \<Rightarrow> u64 \<Rightarrow>
     'a ipi_state_scheme \<Rightarrow> (int \<times> 'a ipi_state_scheme) res option" where
  "sbi_ipi_send_halt cb ds h hmask hbase s = sbi_ipi_send_many cb ds h hmask hbase (ipi_halt_event s) s"

definition SBI_EXT_IPI_SEND_IPI :: u64 where "SBI_EXT_IPI_SEND_IPI = 0"

definition sbi_ecall_ipi_handler ::
    "(sbi_ipi_event_ops \<Rightarrow> 'a ipi_state_scheme ipi_callbacks) \<Rightarrow> domain_state \<Rightarrow> nat \<Rightarrow> u64 \<Rightarrow> u64 \<Rightarrow> u64 \<Rightarrow>
     'a ipi_state_scheme \<Rightarrow> (int \<times> 'a ipi_state_scheme) res option" where
  "sbi_ecall_ipi_handler cb ds h funcid a0 a1 s =
     (if funcid = SBI_EXT_IPI_SEND_IPI then sbi_ipi_send_smode cb ds h a0 a1 s else Some (Inr (SBI_ENOTSUPP, s)))"

section \<open>Receiving\<close>

function process_loop ::
    "(sbi_ipi_event_ops \<Rightarrow> 'a ipi_state_scheme ipi_callbacks) \<Rightarrow> nat \<Rightarrow> nat \<Rightarrow> u64 \<Rightarrow> 'a ipi_state_scheme \<Rightarrow>
     hsm_end \<times> 'a ipi_state_scheme" where
  "process_loop cb h event type s =
     (if type = 0 then (Ret 0, s)
      else
        let (e, s) = (if type AND 1 = 0 then (Ret 0, s)
             else case ipi_ops_array s event of
               None \<Rightarrow> (Ret 0, s)
             | Some ops \<Rightarrow> (case process (cb ops) of None \<Rightarrow> (Ret 0, s) | Some f \<Rightarrow> f h s))
        in case e of
             Ret _ \<Rightarrow> process_loop cb h (event + 1) (drop_bit 1 type) s
           | _ \<Rightarrow> (e, s))"
  by pat_completeness auto
termination
  by (relation "measure (\<lambda>(cb, h, event, type, s). unat type)")
    (auto simp: drop_bit_eq_div unat_div_distrib unat_gt_0)

declare process_loop.simps [simp del]

definition sbi_ipi_process ::
    "(sbi_ipi_event_ops \<Rightarrow> 'a ipi_state_scheme ipi_callbacks) \<Rightarrow> nat \<Rightarrow> 'a ipi_state_scheme \<Rightarrow>
     (hsm_end \<times> 'a ipi_state_scheme) res" where
  "sbi_ipi_process cb h s =
     bindE (case ipi_dev s of None \<Rightarrow> Inr s | Some d \<Rightarrow> if ipi_clear d then mswi_ipi_clear h s else Inr s) (\<lambda>s.
     Inr (process_loop cb h 0 (ipi_type s h) (s\<lparr>ipi_type := (ipi_type s)(h := 0)\<rparr>)))"

definition sbi_ipi_raw_send :: "nat \<Rightarrow> 'a ipi_state_scheme \<Rightarrow> (int \<times> 'a ipi_state_scheme) res" where
  "sbi_ipi_raw_send target_hart s =
     (case ipi_dev s of
        None \<Rightarrow> Inr (SBI_EINVAL, s)
      | Some d \<Rightarrow> if \<not> ipi_send d then Inr (SBI_EINVAL, s)
          else bindE (mswi_ipi_send target_hart s) (\<lambda>s. Inr (0, s)))"

section \<open>Start and exit\<close>

text \<open>\<open>plat_init\<close> and \<open>plat_exit\<close> are the platform's operations.\<close>

definition sbi_ipi_init ::
    "(sbi_ipi_event_ops \<Rightarrow> 'a ipi_state_scheme ipi_callbacks) \<Rightarrow> (bool \<Rightarrow> 'a ipi_state_scheme \<Rightarrow> int \<times> 'a ipi_state_scheme) option \<Rightarrow>
     nat \<Rightarrow> bool \<Rightarrow> 'a ipi_state_scheme \<Rightarrow> int \<times> 'a ipi_state_scheme" where
  "sbi_ipi_init cb plat_init h cold_boot s =
     (let (ret, s) =
        (if cold_boot then
           let (off, sc) = sbi_scratch_alloc_offset 8 (scr (ihsm s));
               s = s\<lparr>ihsm := (ihsm s)\<lparr>scr := sc\<rparr>, ipi_data_off := off\<rparr>
           in if off = 0 then (SBI_ENOMEM, s)
              else
                let (ret, s) = sbi_ipi_event_create cb (Some IPI_SMODE) s in
                if ret < 0 then (ret, s)
                else
                  let s = s\<lparr>ipi_smode_event := nat ret\<rparr>;
                      (ret, s) = sbi_ipi_event_create cb (Some IPI_HALT) s
                  in if ret < 0 then (ret, s) else (0, s\<lparr>ipi_halt_event := nat ret\<rparr>)
         else if ipi_data_off s = 0 then (SBI_ENOMEM, s)
         else if SBI_IPI_EVENT_MAX \<le> ipi_smode_event s \<or> SBI_IPI_EVENT_MAX \<le> ipi_halt_event s then (SBI_ENOSPC, s)
         else (0, s))
      in if ret \<noteq> 0 then (ret, s)
         else
           let s = s\<lparr>ipi_type := (ipi_type s)(h := 0)\<rparr>;
               (ret, s) = (case plat_init of None \<Rightarrow> (0, s) | Some f \<Rightarrow> f cold_boot s)
           in if ret \<noteq> 0 then (ret, s)
              else (0, set_mie h (mie (ihsm s) h OR MIP_MSIP) s))"

definition sbi_ipi_exit ::
    "(sbi_ipi_event_ops \<Rightarrow> 'a ipi_state_scheme ipi_callbacks) \<Rightarrow> ('a ipi_state_scheme \<Rightarrow> 'a ipi_state_scheme) option \<Rightarrow>
     nat \<Rightarrow> 'a ipi_state_scheme \<Rightarrow> (hsm_end \<times> 'a ipi_state_scheme) res" where
  "sbi_ipi_exit cb plat_exit h s =
     bindE (sbi_ipi_process cb h (set_mie h (mie (ihsm s) h AND NOT MIP_MSIP) s)) (\<lambda>(e, s).
     case e of
       Ret _ \<Rightarrow> Inr (Ret 0, case plat_exit of None \<Rightarrow> s | Some f \<Rightarrow> f s)
     | _ \<Rightarrow> Inr (e, s))"

section \<open>The device as the driver uses it\<close>

definition ipi_board :: "'a ipi_state_scheme \<Rightarrow> bool" where
  "ipi_board s \<longleftrightarrow>
     ipi_dev s = Some \<lparr>ipi_send = True, ipi_clear = True\<rparr> \<and> \<not> sswi (swi s) \<and>
     length (soft_irqs (swi s)) = swi_num_harts (swi s) \<and> swi_num_harts (swi s) \<le> 4095 \<and>
     (\<forall>h. has_scratch (ihsm s) h \<longrightarrow> swi_hartid_base (swi s) \<le> h \<and> h < swi_hartid_base (swi s) + swi_num_harts (swi s) \<and>
        h < SBI_HARTMASK_MAX_BITS \<and> swi_cpus s h \<and>
        (\<exists>p. mswi_hartid2data s h = Some p \<and> mswi_addr (mswis s p) = QUARD_STAR_CLINT \<and>
           mswi_first_hartid (mswis s p) = swi_hartid_base (swi s)))"

definition line :: "'a ipi_state_scheme \<Rightarrow> nat \<Rightarrow> bool" where
  "line s h = soft_irqs (swi s) ! (h - swi_hartid_base (swi s))"

definition set_line :: "nat \<Rightarrow> bool \<Rightarrow> 'a ipi_state_scheme \<Rightarrow> 'a ipi_state_scheme" where
  "set_line h b s = s\<lparr>swi := (swi s)\<lparr>soft_irqs := (soft_irqs (swi s))[h - swi_hartid_base (swi s) := b]\<rparr>\<rparr>"

lemma msip_reg_hart:
  assumes "mswi_addr mswi = QUARD_STAR_CLINT" and "mswi_first_hartid mswi = swi_hartid_base d"
    and "swi_num_harts d \<le> 4095" and "swi_hartid_base d \<le> h" and "h < swi_hartid_base d + swi_num_harts d"
  shows "swi_hart (msip_reg mswi h - QUARD_STAR_CLINT) d = Some h"
    and "msip_reg mswi h - QUARD_STAR_CLINT < RISCV_ACLINT_SWI_SIZE"
    and "(msip_reg mswi h - QUARD_STAR_CLINT) AND 3 = 0"
proof -
  define i where "i = h - swi_hartid_base d"
  have i: "i < swi_num_harts d" "i < 4095" "h = swi_hartid_base d + i" using assms by (simp_all add: i_def)
  have "msip_reg mswi h - QUARD_STAR_CLINT = 4 * ucast (word_of_nat i :: u32)"
    using assms i by (simp add: msip_reg_def)
  moreover have "unat (ucast (word_of_nat i :: u32) :: u64) = i"
    using i by (simp add: unat_widen unat_of_nat)
  ultimately have u: "unat (msip_reg mswi h - QUARD_STAR_CLINT) = 4 * i"
    using i by (simp add: unat_word_ariths)
  show "msip_reg mswi h - QUARD_STAR_CLINT < RISCV_ACLINT_SWI_SIZE"
    using i(2) by (simp add: word_less_nat_alt u RISCV_ACLINT_SWI_SIZE_def)
  have "(msip_reg mswi h - QUARD_STAR_CLINT) AND 3 = take_bit 2 (msip_reg mswi h - QUARD_STAR_CLINT)"
    by (simp add: take_bit_eq_mask mask_eq_exp_minus_1)
  also have "\<dots> = 0" by (simp add: word_unat_eq_iff unsigned_take_bit_eq u take_bit_eq_mod unat_mod_distrib)
  finally show "(msip_reg mswi h - QUARD_STAR_CLINT) AND 3 = 0" .
  have "unat (push_bit 2 (word_of_nat (swi_num_harts d)) :: u32) = 4 * swi_num_harts d"
    using assms(3) by (simp add: push_bit_eq_mult unat_word_ariths unat_of_nat)
  then show "swi_hart (msip_reg mswi h - QUARD_STAR_CLINT) d = Some h"
    using i(1) i(3) [symmetric]
    by (simp add: swi_hart_def word_less_nat_alt unat_widen u drop_bit_eq_div unat_div_distrib)
qed

lemma mswi_line:
  assumes "ipi_board s" and "has_scratch (ihsm s) h"
  shows "mswi_ipi_send h s = Inr (set_line h True s)" and "mswi_ipi_clear h s = Inr (set_line h False s)"
proof -
  obtain p where p: "mswi_hartid2data s h = Some p" "mswi_addr (mswis s p) = QUARD_STAR_CLINT"
      "mswi_first_hartid (mswis s p) = swi_hartid_base (swi s)"
    and h: "swi_hartid_base (swi s) \<le> h" "h < swi_hartid_base (swi s) + swi_num_harts (swi s)" "h < SBI_HARTMASK_MAX_BITS" "swi_cpus s h"
    and d: "\<not> sswi (swi s)" "swi_num_harts (swi s) \<le> 4095"
    using assms unfolding ipi_board_def by blast
  note r = msip_reg_hart [OF p(2,3) d(2) h(1,2)]
  show "mswi_ipi_send h s = Inr (set_line h True s)" "mswi_ipi_clear h s = Inr (set_line h False s)"
    using r p h(3,4) d(1)
    by (simp_all add: mswi_ipi_send_def mswi_ipi_clear_def swi_writel_def riscv_aclint_swi_write_def set_line_def)
qed

section \<open>What sending does\<close>

text \<open>The harts in \<open>T\<close> get the event and a raised interrupt line.\<close>

definition marked :: "nat \<Rightarrow> (nat \<Rightarrow> bool) \<Rightarrow> 'a ipi_state_scheme \<Rightarrow> 'a ipi_state_scheme" where
  "marked event T s = s\<lparr>ipi_type := \<lambda>r. if T r then set_bit event (ipi_type s r) else ipi_type s r,
     swi := (swi s)\<lparr>soft_irqs := map (\<lambda>k. soft_irqs (swi s) ! k \<or> T (swi_hartid_base (swi s) + k)) [0..<length (soft_irqs (swi s))]\<rparr>\<rparr>"

lemma marked_simps [simp]:
  "ihsm (marked event T s) = ihsm s" "ipi_ops_array (marked event T s) = ipi_ops_array s"
  "ipi_board (marked event T s) = ipi_board s" "ipi_dev (marked event T s) = ipi_dev s"
  "ipi_type (marked event T s) r = (if T r then set_bit event (ipi_type s r) else ipi_type s r)"
  by (simp_all add: marked_def ipi_board_def)

lemma marked_none: "marked event (\<lambda>_. False) s = s"
  by (simp add: marked_def map_nth)

lemma marked_marked: "marked event U (marked event T s) = marked event (\<lambda>r. T r \<or> U r) s"
  by (auto simp: marked_def set_bit_eq_or or.assoc intro!: ipi_state.equality ext)

lemma marked_line:
  assumes "ipi_board s" and "has_scratch (ihsm s) h"
  shows "line (marked event T s) h \<longleftrightarrow> line s h \<or> T h"
proof -
  have "swi_hartid_base (swi s) \<le> h" "h - swi_hartid_base (swi s) < length (soft_irqs (swi s))"
    using assms by (auto simp: ipi_board_def)
  then show ?thesis by (simp add: line_def marked_def)
qed

lemma set_line_marked:
  assumes "ipi_board s" and "has_scratch (ihsm s) r"
  shows "set_line r True (s\<lparr>ipi_type := (ipi_type s)(r := set_bit event (ipi_type s r))\<rparr>) = marked event (\<lambda>k. k = r) s"
proof -
  let ?b = "swi_hartid_base (swi s)"
  have b: "?b \<le> r" "r - ?b < length (soft_irqs (swi s))" using assms by (auto simp: ipi_board_def)
  have "(soft_irqs (swi s))[r - ?b := True] = map (\<lambda>k. soft_irqs (swi s) ! k \<or> ?b + k = r) [0..<length (soft_irqs (swi s))]"
    using b by (intro nth_equalityI) (auto simp: nth_list_update)
  moreover have "(ipi_type s)(r := set_bit event (ipi_type s r)) = (\<lambda>k. if k = r then set_bit event (ipi_type s k) else ipi_type s k)"
    by auto
  ultimately show ?thesis by (simp add: set_line_def marked_def)
qed

text \<open>An event without callbacks for the sender.\<close>

definition plain_event :: "(sbi_ipi_event_ops \<Rightarrow> 'a ipi_state_scheme ipi_callbacks) \<Rightarrow> nat \<Rightarrow> 'a ipi_state_scheme \<Rightarrow> bool" where
  "plain_event cb event s \<longleftrightarrow> event < SBI_IPI_EVENT_MAX \<and>
     (case ipi_ops_array s event of None \<Rightarrow> False | Some ops \<Rightarrow> update (cb ops) = None \<and> sync (cb ops) = None)"

lemma plain_event_marked [simp]: "plain_event cb event (marked ev T s) = plain_event cb event s"
  by (simp add: plain_event_def)

lemma sbi_ipi_send_marks:
  assumes "ipi_board s" and "plain_event cb event s"
  shows "bindE (sbi_ipi_send cb h r event s) (\<lambda>(_, s). Inr s) = Inr (marked event (\<lambda>k. k = r \<and> has_scratch (ihsm s) k) s)"
proof (cases "has_scratch (ihsm s) r")
  case True
  let ?s = "s\<lparr>ipi_type := (ipi_type s)(r := set_bit event (ipi_type s r))\<rparr>"
  have b: "ipi_board ?s" "has_scratch (ihsm ?s) r" using assms True by (simp_all add: ipi_board_def)
  have "(\<lambda>k. k = r \<and> has_scratch (ihsm s) k) = (\<lambda>k. k = r)" using True by auto
  moreover have "ipi_dev s = Some \<lparr>ipi_send = True, ipi_clear = True\<rparr>" using assms by (simp add: ipi_board_def)
  ultimately show ?thesis using True assms mswi_line(1) [OF b] set_line_marked [OF assms(1) True]
    by (auto simp: sbi_ipi_send_def plain_event_def Let_def split: option.splits)
next
  case False
  then have "(\<lambda>k. k = r \<and> has_scratch (ihsm s) k) = (\<lambda>_. False)" by auto
  then show ?thesis using False assms by (auto simp: sbi_ipi_send_def plain_event_def marked_none split: option.splits)
qed

lemma bit_from:
  "i \<le> r \<and> bit (m :: u64) (r - i) \<longleftrightarrow> r = i \<and> bit m 0 \<or> i + 1 \<le> r \<and> bit (drop_bit 1 m) (r - (i + 1))"
proof (cases "i < r")
  case True
  then have "r - i = 1 + (r - (i + 1))" by simp
  then show ?thesis using True by (simp only: bit_drop_bit_eq o_def) auto
qed auto

lemma send_loop_marks:
  assumes "ipi_board s" and "plain_event cb event s"
  shows "send_loop cb h event i m s = Inr (marked event (\<lambda>r. i \<le> r \<and> bit m (r - i) \<and> has_scratch (ihsm s) r) s)"
  using assms
proof (induction cb h event i m s rule: send_loop.induct)
  case (1 cb h event i m s)
  show ?case
  proof (cases "m = 0")
    case True
    then show ?thesis by (simp add: send_loop.simps marked_none)
  next
    case False
    define s1 where "s1 = (if bit m 0 then marked event (\<lambda>k. k = i \<and> has_scratch (ihsm s) k) s else s)"
    have m: "m AND 1 \<noteq> 0 \<longleftrightarrow> bit m 0" by (simp add: and_one_eq odd_iff_mod_2_eq_one bit_0 flip: even_iff_mod_2_eq_zero)
    have step: "(if m AND 1 \<noteq> 0 then bindE (sbi_ipi_send cb h i event s) (\<lambda>(_, s). Inr s) else Inr s) = Inr s1"
      using sbi_ipi_send_marks [OF 1(2,3)] by (simp only: m s1_def) simp
    have s1: "ipi_board s1" "plain_event cb event s1" "ihsm s1 = ihsm s" using 1(2,3) by (simp_all add: s1_def)
    have "send_loop cb h event i m s = send_loop cb h event (i + 1) (drop_bit 1 m) s1"
      using False step by (subst send_loop.simps) simp
    also have "\<dots> = Inr (marked event (\<lambda>r. i + 1 \<le> r \<and> bit (drop_bit 1 m) (r - (i + 1)) \<and> has_scratch (ihsm s) r) s1)"
      using 1(1) [OF False step s1(1,2)] s1(3) by simp
    also have "marked event (\<lambda>r. i + 1 \<le> r \<and> bit (drop_bit 1 m) (r - (i + 1)) \<and> has_scratch (ihsm s) r) s1 =
        marked event (\<lambda>r. i \<le> r \<and> bit m (r - i) \<and> has_scratch (ihsm s) r) s"
    proof (cases "bit m 0")
      case True
      have "(\<lambda>r. (r = i \<and> has_scratch (ihsm s) r) \<or> (i + 1 \<le> r \<and> bit (drop_bit 1 m) (r - (i + 1)) \<and> has_scratch (ihsm s) r)) =
          (\<lambda>r. i \<le> r \<and> bit m (r - i) \<and> has_scratch (ihsm s) r)"
        using True bit_from [of i _ m] by blast
      with True show ?thesis by (simp add: s1_def marked_marked)
    next
      case bit: False
      have "(\<lambda>r. i + 1 \<le> r \<and> bit (drop_bit 1 m) (r - (i + 1)) \<and> has_scratch (ihsm s) r) =
          (\<lambda>r. i \<le> r \<and> bit m (r - i) \<and> has_scratch (ihsm s) r)"
        using bit bit_from [of i _ m] by blast
      with bit show ?thesis by (simp add: s1_def)
    qed
    finally show ?thesis .
  qed
qed

lemma mask_targets:
  assumes "mask_wf (assigned_harts d)" and "last_hartid_having_scratch (scr hs) < SBI_HARTMASK_MAX_BITS"
    and "sbi_hsm_hart_interruptible_mask (Some d) b hs = (rc, m)"
  shows "rc = (if last_hartid_having_scratch (scr hs) < b then SBI_EINVAL else 0)"
    and "b \<le> last_hartid_having_scratch (scr hs) \<Longrightarrow> b \<le> r \<Longrightarrow> bit m (r - b) \<longleftrightarrow>
      r < b + 64 \<and> r \<le> last_hartid_having_scratch (scr hs) \<and> r \<in> harts (assigned_harts d) \<and> interruptible hs r"
proof -
  note mask = interruptible_mask_bit [OF assms]
  show "rc = (if last_hartid_having_scratch (scr hs) < b then SBI_EINVAL else 0)"
    using mask [of 0] by (auto split: if_splits)
  assume b: "b \<le> last_hartid_having_scratch (scr hs)" "b \<le> r"
  show "bit m (r - b) \<longleftrightarrow>
      r < b + 64 \<and> r \<le> last_hartid_having_scratch (scr hs) \<and> r \<in> harts (assigned_harts d) \<and> interruptible hs r"
  proof (cases "r < b + 64")
    case True
    then show ?thesis using mask [of "r - b"] b by (auto split: if_splits)
  next
    case False
    then show ?thesis using bit_imp_le_length [of m "r - b"] by auto
  qed
qed

lemma interruptible_scratch: "interruptible hs r \<Longrightarrow> has_scratch hs r"
  by (simp add: interruptible_def)

lemma send_all_marks:
  assumes "ipi_board s" and "plain_event cb event s"
    and "mask_wf (assigned_harts d)" and "last_hartid_having_scratch (scr (ihsm s)) < SBI_HARTMASK_MAX_BITS"
  shows "send_all cb (Some d) h event b s = Some (Inr (marked event (\<lambda>r. b \<le> r \<and>
    r \<le> last_hartid_having_scratch (scr (ihsm s)) \<and> r \<in> harts (assigned_harts d) \<and> interruptible (ihsm s) r) s))"
  using assms
proof (induction "last_hartid_having_scratch (scr (ihsm s)) + 1 - b" arbitrary: b s rule: less_induct)
  case less
  let ?last = "last_hartid_having_scratch (scr (ihsm s))"
  let ?T = "\<lambda>b r. b \<le> r \<and> r \<le> ?last \<and> r \<in> harts (assigned_harts d) \<and> interruptible (ihsm s) r"
  obtain rc m where m: "sbi_hsm_hart_interruptible_mask (Some d) b (ihsm s) = (rc, m)" by fastforce
  note t = mask_targets [OF less.prems(3,4) m]
  show ?case
  proof (cases "?last < b")
    case True
    then have "?T b = (\<lambda>_. False)" by auto
    then show ?thesis using t(1) m True by (subst send_all.simps) (simp add: marked_none SBI_EINVAL_def)
  next
    case False
    let ?U = "\<lambda>r. b \<le> r \<and> bit m (r - b) \<and> has_scratch (ihsm s) r"
    define s1 where "s1 = marked event ?U s"
    have s1: "ihsm s1 = ihsm s" "ipi_board s1" "plain_event cb event s1" using less.prems by (simp_all add: s1_def)
    have "send_all cb (Some d) h event b s = send_all cb (Some d) h event (b + 64) s1"
      using m t(1) False send_loop_marks [OF less.prems(1,2)] by (subst send_all.simps) (simp add: s1_def)
    also have "\<dots> = Some (Inr (marked event (?T (b + 64)) s1))"
      using less.hyps [of s1 "b + 64"] less.prems(3,4) s1 False by simp
    also have "marked event (?T (b + 64)) s1 = marked event (\<lambda>r. ?U r \<or> ?T (b + 64) r) s" by (simp add: s1_def marked_marked)
    also have "(\<lambda>r. ?U r \<or> ?T (b + 64) r) = ?T b"
      using t(2) False interruptible_scratch by (auto simp: fun_eq_iff not_less not_le)
    finally show ?thesis .
  qed
qed

definition ipi_target :: "sbi_domain \<Rightarrow> u64 \<Rightarrow> u64 \<Rightarrow> hsm_state \<Rightarrow> nat \<Rightarrow> bool" where
  "ipi_target d hmask hbase hs r \<longleftrightarrow> r \<le> last_hartid_having_scratch (scr hs) \<and> r \<in> harts (assigned_harts d) \<and>
     interruptible hs r \<and> (hbase = -1 \<or> unat hbase \<le> r \<and> bit hmask (r - unat hbase))"

lemma send_many_marks:
  assumes "ipi_board s" and "plain_event cb event s" and "thishart_domain ds h = Some d"
    and "mask_wf (assigned_harts d)" and "last_hartid_having_scratch (scr (ihsm s)) < SBI_HARTMASK_MAX_BITS"
    and "hbase = -1 \<or> unat hbase \<le> last_hartid_having_scratch (scr (ihsm s))"
  shows "sbi_ipi_send_many cb ds h hmask hbase event s = Some (Inr (0, marked event (ipi_target d hmask hbase (ihsm s)) s))"
proof (cases "hbase = -1")
  case True
  then have "ipi_target d hmask hbase (ihsm s) = (\<lambda>r. 0 \<le> r \<and> r \<le> last_hartid_having_scratch (scr (ihsm s)) \<and>
      r \<in> harts (assigned_harts d) \<and> interruptible (ihsm s) r)"
    by (simp add: ipi_target_def fun_eq_iff)
  then show ?thesis using True send_all_marks [OF assms(1,2,4,5), of h 0] assms(3)
    by (simp add: sbi_ipi_send_many_def)
next
  case False
  then have le: "unat hbase \<le> last_hartid_having_scratch (scr (ihsm s))" using assms(6) by simp
  obtain rc m where m: "sbi_hsm_hart_interruptible_mask (Some d) (unat hbase) (ihsm s) = (rc, m)" by fastforce
  note t = mask_targets [OF assms(4,5) m]
  have "(\<lambda>r. unat hbase \<le> r \<and> bit (m AND hmask) (r - unat hbase) \<and> has_scratch (ihsm s) r) = ipi_target d hmask hbase (ihsm s)"
  proof
    fix r
    show "(unat hbase \<le> r \<and> bit (m AND hmask) (r - unat hbase) \<and> has_scratch (ihsm s) r) = ipi_target d hmask hbase (ihsm s) r"
      using t(2) [OF le, of r] False interruptible_scratch [of "ihsm s" r] bit_imp_le_length [of hmask "r - unat hbase"]
      by (auto simp: ipi_target_def bit_and_iff)
  qed
  then show ?thesis using False le t(1) m send_loop_marks [OF assms(1,2), of h "unat hbase" "m AND hmask"] assms(3)
    by (simp add: sbi_ipi_send_many_def)
qed

lemma process_loop_smode:
  assumes "n < 64" and "ipi_ops_array s (k + n) = Some IPI_SMODE"
  shows "process_loop (ipi_cb plat ds tlb) h k (push_bit n 1) s = sbi_ipi_process_smode h s"
  using assms
proof (induction n arbitrary: k)
  case 0
  then show ?case
    by (subst process_loop.simps) (simp add: ipi_cb_def ipi_smode_ops_def sbi_ipi_process_smode_def process_loop.simps)
next
  case (Suc n)
  have "bit (push_bit (Suc n) (1 :: u64)) (Suc n)" using Suc.prems(1) by (simp only: bit_push_bit_iff) simp
  then have "push_bit (Suc n) (1 :: u64) \<noteq> 0" by (metis bit_0_eq bot_apply bot_bool_def)
  moreover have "push_bit (Suc n) (1 :: u64) AND 1 = 0" by (intro bit_word_eqI) (auto simp: bit_simps)
  moreover have "drop_bit 1 (push_bit (Suc n) (1 :: u64)) = push_bit n 1"
    using Suc.prems(1) by (intro bit_word_eqI) (auto simp: bit_simps)
  ultimately show ?case using Suc by (subst process_loop.simps) simp
qed

section \<open>Properties\<close>

text \<open>
  C11: An interrupt a supervisor sends to other harts arrives at exactly the harts it names.
  The call returns success. Every hart of the caller's domain that is named by the mask (or
  every one, when the base is -1) and is started or suspended has its software-interrupt line
  raised, and when it takes the interrupt, the firmware clears the line and the event, and the
  supervisor's software interrupt is pending on this hart and on no other because of it. All
  other harts see nothing. (No event was pending before; the base is not past the last hart.)
\<close>

theorem ipi_delivered:
  assumes "ipi_board s" and "ipi_smode_event s < SBI_IPI_EVENT_MAX"
    and "ipi_ops_array s (ipi_smode_event s) = Some IPI_SMODE" and "\<And>r. ipi_type s r = 0"
    and "thishart_domain ds h = Some d" and "mask_wf (assigned_harts d)"
    and "last_hartid_having_scratch (scr (ihsm s)) < SBI_HARTMASK_MAX_BITS"
    and "hbase = -1 \<or> unat hbase \<le> last_hartid_having_scratch (scr (ihsm s))"
    and "cb = ipi_cb plat ds tlb"
  shows "\<exists>s1. sbi_ecall_ipi_handler cb ds h SBI_EXT_IPI_SEND_IPI hmask hbase s = Some (Inr (0, s1)) \<and> ihsm s1 = ihsm s \<and>
    (\<forall>r. has_scratch (ihsm s) r \<longrightarrow>
      (if ipi_target d hmask hbase (ihsm s) r
       then line s1 r \<and> (\<exists>s2. sbi_ipi_process cb r s1 = Inr (Ret 0, s2) \<and> \<not> line s2 r \<and> ipi_type s2 r = 0 \<and>
         mip (ihsm s2) = (mip (ihsm s))(r := mip (ihsm s) r OR MIP_SSIP))
       else line s1 r = line s r \<and> ipi_type s1 r = 0))"
proof -
  let ?T = "ipi_target d hmask hbase (ihsm s)" and ?ev = "ipi_smode_event s"
  define s1 where "s1 = marked ?ev ?T s"
  have plain: "plain_event cb ?ev s"
    using assms(2,3) by (simp add: plain_event_def assms(9) ipi_cb_def ipi_smode_ops_def)
  have sent: "sbi_ecall_ipi_handler cb ds h SBI_EXT_IPI_SEND_IPI hmask hbase s = Some (Inr (0, s1))"
    using send_many_marks [OF assms(1) plain assms(5-8)] by (simp add: sbi_ecall_ipi_handler_def sbi_ipi_send_smode_def s1_def)
  have "\<exists>s2. sbi_ipi_process cb r s1 = Inr (Ret 0, s2) \<and> \<not> line s2 r \<and> ipi_type s2 r = 0 \<and>
      mip (ihsm s2) = (mip (ihsm s))(r := mip (ihsm s) r OR MIP_SSIP)" if r: "has_scratch (ihsm s) r" and T: "?T r" for r
  proof -
    let ?s = "(set_line r False s1)\<lparr>ipi_type := (ipi_type (set_line r False s1))(r := 0)\<rparr>"
    have b: "ipi_board s1" "has_scratch (ihsm s1) r" using assms(1) r by (simp_all add: s1_def)
    have ty: "ipi_type (set_line r False s1) r = push_bit ?ev 1"
      using T assms(4) by (simp add: set_line_def s1_def marked_def set_bit_eq_or)
    have "process_loop cb r 0 (push_bit ?ev 1) ?s = sbi_ipi_process_smode r ?s"
      unfolding assms(9) using assms(2,3) by (intro process_loop_smode) (simp_all add: SBI_IPI_EVENT_MAX_def set_line_def s1_def)
    moreover have "ipi_dev s1 = Some \<lparr>ipi_send = True, ipi_clear = True\<rparr>" using assms(1) by (simp add: s1_def ipi_board_def)
    ultimately have p: "sbi_ipi_process cb r s1 = Inr (sbi_ipi_process_smode r ?s)"
      using mswi_line(2) [OF b] ty by (simp add: sbi_ipi_process_def)
    have "r - swi_hartid_base (swi s1) < length (soft_irqs (swi s1))" using b by (auto simp: ipi_board_def)
    with p show ?thesis
      by (simp add: sbi_ipi_process_smode_def set_mip_def line_def set_line_def) (simp add: s1_def)
  qed
  then show ?thesis using sent marked_line [OF assms(1)] assms(4) by (auto simp: s1_def)
qed

definition sample_ipi :: ipi_state where
  "sample_ipi = \<lparr>ihsm = two_state, swi = riscv_aclint_swi_create 0 2 False, swi_cpus = (\<lambda>h. h < 2),
     mswis = (\<lambda>_. \<lparr>mswi_addr = QUARD_STAR_CLINT, mswi_size = 0x4000, mswi_first_hartid = 0, mswi_hart_count = 2\<rparr>),
     mswi_hartid2data = (\<lambda>h. if h < 2 then Some 0 else None), ipi_data_off = 96, ipi_type = (\<lambda>_. 0),
     ipi_dev = Some \<lparr>ipi_send = True, ipi_clear = True\<rparr>, ipi_ops_array = [0 \<mapsto> IPI_SMODE, 1 \<mapsto> IPI_HALT],
     ipi_smode_event = 0, ipi_halt_event = 1\<rparr>"

theorem ipi_delivered_witness:
  "\<exists>s1 s2. sbi_ecall_ipi_handler (ipi_cb two_plat two_harts ipi_smode_ops) two_harts 0 SBI_EXT_IPI_SEND_IPI 3 0 sample_ipi =
       Some (Inr (0, s1)) \<and> \<not> line s1 1 \<and>
     sbi_ipi_process (ipi_cb two_plat two_harts ipi_smode_ops) 0 s1 = Inr (Ret 0, s2) \<and> bit (mip (ihsm s2) 0) 1"
proof -
  let ?cb = "ipi_cb two_plat two_harts ipi_smode_ops" and ?s = sample_ipi
  let ?d = "sample_domain\<lparr>assigned_harts := \<lparr>bits = [3, 0]\<rparr>\<rparr>"
  have b: "ipi_board ?s"
    by (auto simp: ipi_board_def sample_ipi_def riscv_aclint_swi_create_def two_state_def has_scratch_def SBI_HARTMASK_MAX_BITS_def)
  have h: "ipi_smode_event ?s < SBI_IPI_EVENT_MAX" "ipi_ops_array ?s (ipi_smode_event ?s) = Some IPI_SMODE" "\<And>r. ipi_type ?s r = 0"
    "thishart_domain two_harts 0 = Some ?d" "mask_wf (assigned_harts ?d)"
    "last_hartid_having_scratch (scr (ihsm ?s)) < SBI_HARTMASK_MAX_BITS"
    "(0 :: u64) = -1 \<or> unat (0 :: u64) \<le> last_hartid_having_scratch (scr (ihsm ?s))"
    by (simp_all add: sample_ipi_def SBI_IPI_EVENT_MAX_def thishart_domain_def two_harts_def mask_wf_def mask_words two_state_def
        scratch_reset_def SBI_HARTMASK_MAX_BITS_def)
  have t: "has_scratch (ihsm ?s) 0" "has_scratch (ihsm ?s) 1" "ipi_target ?d 3 0 (ihsm ?s) 0" "\<not> ipi_target ?d 3 0 (ihsm ?s) 1" "\<not> line ?s 1"
    by (simp_all add: sample_ipi_def ipi_target_def interruptible_def has_scratch_def hstate_def two_state_def hsm_states harts_iff
        scratch_reset_def SBI_HARTMASK_MAX_BITS_def bmap_bit_two line_def riscv_aclint_swi_create_def)
  obtain s1 where "sbi_ecall_ipi_handler ?cb two_harts 0 SBI_EXT_IPI_SEND_IPI 3 0 ?s = Some (Inr (0, s1))"
    and "\<forall>r. has_scratch (ihsm ?s) r \<longrightarrow> (if ipi_target ?d 3 0 (ihsm ?s) r
      then line s1 r \<and> (\<exists>s2. sbi_ipi_process ?cb r s1 = Inr (Ret 0, s2) \<and> \<not> line s2 r \<and> ipi_type s2 r = 0 \<and>
        mip (ihsm s2) = (mip (ihsm ?s))(r := mip (ihsm ?s) r OR MIP_SSIP))
      else line s1 r = line ?s r \<and> ipi_type s1 r = 0)"
    using ipi_delivered [OF b h refl, of two_plat ipi_smode_ops 3] by blast
  moreover have "bit (mip (ihsm ?s) 0 OR MIP_SSIP) 1" by (simp add: bit_or_iff MIP_SSIP_def bit_simps)
  ultimately show ?thesis using t by (metis fun_upd_same)
qed

end
