(* ===== verification/SbiTlb.thy ===== *)
theory SbiTlb
  imports SbiIpi
begin

text \<open>
  Remote fences, \<^verbatim>\<open>opensbi-1.2/lib/sbi/sbi_tlb.c\<close> and the environment calls of
  \<^verbatim>\<open>sbi_ecall_rfence.c\<close>, as far as one hart alone is concerned: what a request makes a hart
  execute, how requests that wait in the queue of a hart are merged, and the start. The
  protocol between the harts is in the theory \<open>SbiTlbRun\<close>. A fence is an instruction that is
  executed; a queue of requests is a list of records, which the ring buffer implements
  (lemmas \<open>enqueue_entries\<close>, \<open>dequeue_entries\<close> and \<open>inplace_update_entries\<close> of \<open>SbiFifo\<close>).
\<close>

section \<open>Requests\<close>

definition SBI_PAGE_SIZE :: u64 where "SBI_PAGE_SIZE = 0x1000"
definition SBI_TLB_FLUSH_ALL :: u64 where "SBI_TLB_FLUSH_ALL = -1"
definition SBI_TLB_FIFO_NUM_ENTRIES :: nat where "SBI_TLB_FIFO_NUM_ENTRIES = 8"
definition SBI_TLB_INFO_SIZE :: u64 where "SBI_TLB_INFO_SIZE = 56"
definition HGATP_VMID_MASK :: u64 where "HGATP_VMID_MASK = 0x03FFF00000000000"
definition SBI_PLATFORM_TLB_RANGE_FLUSH_LIMIT_DEFAULT :: u64 where "SBI_PLATFORM_TLB_RANGE_FLUSH_LIMIT_DEFAULT = 0x1000"

datatype tlb_fn = Null_fn | Fence_i | Sfence_vma | Sfence_vma_asid | Hfence_gvma | Hfence_gvma_vmid | Hfence_vvma | Hfence_vvma_asid

record sbi_tlb_info =
  start :: u64
  range :: u64
  asid :: u64
  vmid :: u64
  local_fn :: tlb_fn
  smask :: sbi_hartmask

datatype fence =
    FenceI | SfenceAll | SfenceVa u64 | SfenceAsid u64 | SfenceVaAsid u64 u64
  | HfenceGvmaAll | HfenceGvmaGpa u64 | HfenceGvmaVmid u64 | HfenceGvmaVmidGpa u64 u64
  | HfenceVvmaAll u64 | HfenceVvmaVa u64 u64 | HfenceVvmaAsid u64 u64 | HfenceVvmaAsidVa u64 u64 u64

section \<open>What a hart executes\<close>

text \<open>
  The loop over the pages of a range, \<open>f\<close> being the fence at an offset. The counter is 64 bits
  wide and wraps when the size is within a page of the largest number.
\<close>

partial_function (option) page_loop :: "(u64 \<Rightarrow> fence) \<Rightarrow> u64 \<Rightarrow> u64 \<Rightarrow> fence list option" where
  "page_loop f sz i =
     (if i < sz then Option.bind (page_loop f sz (i + SBI_PAGE_SIZE)) (\<lambda>fs. Some (f i # fs)) else Some [])"

definition whole :: "sbi_tlb_info \<Rightarrow> bool" where
  "whole tinfo \<longleftrightarrow> start tinfo = 0 \<and> range tinfo = 0 \<or> range tinfo = SBI_TLB_FLUSH_ALL"

text \<open>
  A fence for a virtual machine acts on the machine that the register \<^verbatim>\<open>hgatp\<close> names, its
  first argument. The register is set for the loop and restored after it.
\<close>

definition swapped_hgatp :: "sbi_tlb_info \<Rightarrow> u64" where
  "swapped_hgatp tinfo = push_bit 44 (vmid tinfo) AND HGATP_VMID_MASK"

definition sbi_tlb_local_hfence_vvma :: "sbi_tlb_info \<Rightarrow> fence list option" where
  "sbi_tlb_local_hfence_vvma tinfo =
     (if whole tinfo then Some [HfenceVvmaAll (swapped_hgatp tinfo)]
      else page_loop (\<lambda>i. HfenceVvmaVa (swapped_hgatp tinfo) (start tinfo + i)) (range tinfo) 0)"

definition sbi_tlb_local_hfence_gvma :: "sbi_tlb_info \<Rightarrow> fence list option" where
  "sbi_tlb_local_hfence_gvma tinfo =
     (if whole tinfo then Some [HfenceGvmaAll]
      else page_loop (\<lambda>i. HfenceGvmaGpa (drop_bit 2 (start tinfo + i))) (range tinfo) 0)"

definition sbi_tlb_local_sfence_vma :: "sbi_tlb_info \<Rightarrow> fence list option" where
  "sbi_tlb_local_sfence_vma tinfo =
     (if whole tinfo then Some [SfenceAll] else page_loop (\<lambda>i. SfenceVa (start tinfo + i)) (range tinfo) 0)"

definition sbi_tlb_local_hfence_vvma_asid :: "sbi_tlb_info \<Rightarrow> fence list option" where
  "sbi_tlb_local_hfence_vvma_asid tinfo =
     (if start tinfo = 0 \<and> range tinfo = 0 then Some [HfenceVvmaAll (swapped_hgatp tinfo)]
      else if range tinfo = SBI_TLB_FLUSH_ALL then Some [HfenceVvmaAsid (swapped_hgatp tinfo) (asid tinfo)]
      else page_loop (\<lambda>i. HfenceVvmaAsidVa (swapped_hgatp tinfo) (start tinfo + i) (asid tinfo)) (range tinfo) 0)"

definition sbi_tlb_local_hfence_gvma_vmid :: "sbi_tlb_info \<Rightarrow> fence list option" where
  "sbi_tlb_local_hfence_gvma_vmid tinfo =
     (if start tinfo = 0 \<and> range tinfo = 0 then Some [HfenceGvmaAll]
      else if range tinfo = SBI_TLB_FLUSH_ALL then Some [HfenceGvmaVmid (vmid tinfo)]
      else page_loop (\<lambda>i. HfenceGvmaVmidGpa (drop_bit 2 (start tinfo + i)) (vmid tinfo)) (range tinfo) 0)"

definition sbi_tlb_local_sfence_vma_asid :: "sbi_tlb_info \<Rightarrow> fence list option" where
  "sbi_tlb_local_sfence_vma_asid tinfo =
     (if start tinfo = 0 \<and> range tinfo = 0 then Some [SfenceAll]
      else if range tinfo = SBI_TLB_FLUSH_ALL then Some [SfenceAsid (asid tinfo)]
      else page_loop (\<lambda>i. SfenceVaAsid (start tinfo + i) (asid tinfo)) (range tinfo) 0)"

definition sbi_tlb_local_fence_i :: "sbi_tlb_info \<Rightarrow> fence list option" where
  "sbi_tlb_local_fence_i tinfo = Some [FenceI]"

text \<open>
  \<^verbatim>\<open>tinfo->local_fn(tinfo)\<close>: the fences executed, or \<open>None\<close> when the call does not return.
\<close>

definition call_local_fn :: "sbi_tlb_info \<Rightarrow> fence list option" where
  "call_local_fn tinfo =
     (case local_fn tinfo of
        Null_fn \<Rightarrow> None
      | Fence_i \<Rightarrow> sbi_tlb_local_fence_i tinfo
      | Sfence_vma \<Rightarrow> sbi_tlb_local_sfence_vma tinfo
      | Sfence_vma_asid \<Rightarrow> sbi_tlb_local_sfence_vma_asid tinfo
      | Hfence_gvma \<Rightarrow> sbi_tlb_local_hfence_gvma tinfo
      | Hfence_gvma_vmid \<Rightarrow> sbi_tlb_local_hfence_gvma_vmid tinfo
      | Hfence_vvma \<Rightarrow> sbi_tlb_local_hfence_vvma tinfo
      | Hfence_vvma_asid \<Rightarrow> sbi_tlb_local_hfence_vvma_asid tinfo)"

section \<open>Merging\<close>

definition tlb_range_check :: "sbi_tlb_info \<Rightarrow> sbi_tlb_info \<Rightarrow> sbi_fifo_inplace_update_types \<times> sbi_tlb_info" where
  "tlb_range_check cur next =
     (let next_end = start next + range next; cur_end = start cur + range cur in
      if start next \<le> start cur \<and> cur_end < next_end then
        (SBI_FIFO_UPDATED, cur\<lparr>start := start next, range := range next,
           smask := sbi_hartmask_or (smask cur) (smask cur) (smask next)\<rparr>)
      else if start cur \<le> start next \<and> next_end \<le> cur_end then
        (SBI_FIFO_SKIP, cur\<lparr>smask := sbi_hartmask_or (smask cur) (smask cur) (smask next)\<rparr>)
      else (SBI_FIFO_UNCHANGED, cur))"

definition tlb_update_cb :: "sbi_tlb_info \<Rightarrow> sbi_tlb_info \<Rightarrow> sbi_fifo_inplace_update_types \<times> sbi_tlb_info" where
  "tlb_update_cb next cur =
     (if local_fn next = Sfence_vma_asid \<and> local_fn cur = Sfence_vma_asid then
        if asid next = asid cur then tlb_range_check cur next else (SBI_FIFO_UNCHANGED, cur)
      else if local_fn next = Sfence_vma \<and> local_fn cur = Sfence_vma then tlb_range_check cur next
      else (SBI_FIFO_UNCHANGED, cur))"

text \<open>A range beyond the platform's limit becomes a flush of everything.\<close>

definition tlb_limit :: "u64 \<Rightarrow> sbi_tlb_info \<Rightarrow> sbi_tlb_info" where
  "tlb_limit limit tinfo = (if limit < range tinfo then tinfo\<lparr>start := 0, range := SBI_TLB_FLUSH_ALL\<rparr> else tinfo)"

section \<open>Environment calls\<close>

definition tlb_info_init :: "u64 \<Rightarrow> u64 \<Rightarrow> u64 \<Rightarrow> u64 \<Rightarrow> tlb_fn \<Rightarrow> nat \<Rightarrow> sbi_tlb_info" where
  "tlb_info_init st sz a v fn src =
     \<lparr>start = st, range = sz, asid = a, vmid = v, local_fn = fn,
      smask = \<lparr>bits = bitmap_zero_except (replicate (BITS_TO_LONGS SBI_HARTMASK_MAX_BITS) 0) src SBI_HARTMASK_MAX_BITS\<rparr>\<rparr>"

text \<open>
  The request a call makes from its arguments (\<^verbatim>\<open>a2\<close>, \<^verbatim>\<open>a3\<close>, \<^verbatim>\<open>a4\<close>), or the error
  it returns; \<open>has_h\<close> says whether the hart has the hypervisor extension.
\<close>

definition sbi_ecall_rfence_handler :: "bool \<Rightarrow> u64 \<Rightarrow> nat \<Rightarrow> u64 \<Rightarrow> u64 \<Rightarrow> u64 \<Rightarrow> u64 \<Rightarrow> int + sbi_tlb_info" where
  "sbi_ecall_rfence_handler has_h hgatp h funcid a2 a3 a4 =
     (if 3 \<le> funcid \<and> funcid \<le> 6 \<and> \<not> has_h then Inl SBI_ENOTSUPP
      else
        let v = drop_bit 44 (hgatp AND HGATP_VMID_MASK) in
        if funcid = 0 then Inr (tlb_info_init 0 0 0 0 Fence_i h)
        else if funcid = 4 then Inr (tlb_info_init a2 a3 0 0 Hfence_gvma h)
        else if funcid = 3 then Inr (tlb_info_init a2 a3 0 a4 Hfence_gvma_vmid h)
        else if funcid = 6 then Inr (tlb_info_init a2 a3 0 v Hfence_vvma h)
        else if funcid = 5 then Inr (tlb_info_init a2 a3 a4 v Hfence_vvma_asid h)
        else if funcid = 1 then Inr (tlb_info_init a2 a3 0 0 Sfence_vma h)
        else if funcid = 2 then Inr (tlb_info_init a2 a3 a4 0 Sfence_vma_asid h)
        else Inl SBI_ENOTSUPP)"

section \<open>Start\<close>

record tlb_state = ipi_state +
  tlb_sync_off :: u64
  tlb_fifo_off :: u64
  tlb_fifo_mem_off :: u64
  tlb_range_flush_limit :: u64
  tlb_event :: nat
  tlb_sync :: "nat \<Rightarrow> bool"
  tlb_fifo :: "nat \<Rightarrow> sbi_tlb_info list"

definition scratch_alloc :: "u64 \<Rightarrow> 'a ipi_state_scheme \<Rightarrow> u64 \<times> 'a ipi_state_scheme" where
  "scratch_alloc sz s = (case sbi_scratch_alloc_offset sz (scr (ihsm s)) of (off, sc) \<Rightarrow> (off, s\<lparr>ihsm := (ihsm s)\<lparr>scr := sc\<rparr>\<rparr>))"

text \<open>Giving an offset back does nothing in the allocator of the scratch space.\<close>

definition tlb_cold_init ::
    "(sbi_ipi_event_ops \<Rightarrow> tlb_state ipi_callbacks) \<Rightarrow> u64 option \<Rightarrow> tlb_state \<Rightarrow> int \<times> tlb_state" where
  "tlb_cold_init cb limit s =
     (let (off, s) = scratch_alloc 8 s; s = s\<lparr>tlb_sync_off := off\<rparr> in
      if off = 0 then (SBI_ENOMEM, s)
      else let (off, s) = scratch_alloc 24 s; s = s\<lparr>tlb_fifo_off := off\<rparr> in
      if off = 0 then (SBI_ENOMEM, s)
      else let (off, s) = scratch_alloc (8 * SBI_TLB_INFO_SIZE) s; s = s\<lparr>tlb_fifo_mem_off := off\<rparr> in
      if off = 0 then (SBI_ENOMEM, s)
      else let (ret, s) = sbi_ipi_event_create cb (Some IPI_TLB) s in
      if ret < 0 then (ret, s)
      else (0, s\<lparr>tlb_event := nat ret,
        tlb_range_flush_limit := (case limit of None \<Rightarrow> SBI_PLATFORM_TLB_RANGE_FLUSH_LIMIT_DEFAULT | Some l \<Rightarrow> l)\<rparr>))"

definition sbi_tlb_init ::
    "(sbi_ipi_event_ops \<Rightarrow> tlb_state ipi_callbacks) \<Rightarrow> u64 option \<Rightarrow> nat \<Rightarrow> bool \<Rightarrow> tlb_state \<Rightarrow> int \<times> tlb_state" where
  "sbi_tlb_init cb limit h cold_boot s =
     (let (ret, s) =
        (if cold_boot then tlb_cold_init cb limit s
         else if tlb_sync_off s = 0 \<or> tlb_fifo_off s = 0 \<or> tlb_fifo_mem_off s = 0 then (SBI_ENOMEM, s)
         else if SBI_IPI_EVENT_MAX \<le> tlb_event s then (SBI_ENOSPC, s)
         else (0, s))
      in if ret \<noteq> 0 then (ret, s)
         else (0, s\<lparr>tlb_sync := (tlb_sync s)(h := False), tlb_fifo := (tlb_fifo s)(h := [])\<rparr>))"

section \<open>The fences of a range\<close>

definition page_off :: "nat \<Rightarrow> u64" where "page_off k = word_of_nat (4096 * k)"

lemma unat_page_off: "4096 * k < 18446744073709551616 \<Longrightarrow> unat (page_off k) = 4096 * k"
  unfolding page_off_def by (rule unat_word_of_nat64)

lemma page_off_simps: "page_off 0 = 0" "page_off k + SBI_PAGE_SIZE = page_off (Suc k)" "page_off (j + k) = page_off j + page_off k"
  by (simp_all add: page_off_def SBI_PAGE_SIZE_def distrib_left)

lemma page_loop_from:
  assumes "unat sz \<le> 18446744073709547520" and "k \<le> (unat sz + 4095) div 4096"
  shows "page_loop f sz (page_off k) = Some (map (\<lambda>j. f (page_off j)) [k..<(unat sz + 4095) div 4096])"
  using assms(2)
proof (induction "(unat sz + 4095) div 4096 - k" arbitrary: k)
  case 0
  let ?n = "(unat sz + 4095) div 4096"
  have k: "k = ?n" using 0 by simp
  have "unat sz \<le> 4096 * k" "4096 * k < 18446744073709551616" using assms(1) unfolding k by linarith+
  then have "\<not> page_off k < sz" by (simp add: word_less_nat_alt unat_page_off)
  then show ?case unfolding k by (subst page_loop.simps) simp
next
  case (Suc n)
  let ?n = "(unat sz + 4095) div 4096"
  have k: "k < ?n" using Suc.hyps(2) by simp
  then have "4096 * k < unat sz" by linarith
  moreover have "unat sz < 18446744073709551616" using assms(1) by simp
  ultimately have "page_off k < sz" by (simp add: word_less_nat_alt unat_page_off)
  moreover have "page_loop f sz (page_off (Suc k)) = Some (map (\<lambda>j. f (page_off j)) [Suc k..<?n])"
    using Suc.hyps k by (intro Suc.hyps(1)) simp_all
  moreover have "[k..<?n] = k # [Suc k..<?n]" using k by (rule upt_conv_Cons)
  ultimately show ?case by (subst page_loop.simps) (simp add: page_off_simps(2))
qed

lemma page_loop_result:
  assumes "unat sz \<le> 18446744073709547520"
  shows "\<exists>fs. page_loop f sz 0 = Some fs \<and> set fs = {f (page_off k) | k. 4096 * k < unat sz}"
proof -
  have "k < (unat sz + 4095) div 4096 \<longleftrightarrow> 4096 * k < unat sz" for k by linarith
  then show ?thesis using page_loop_from [OF assms, of 0 f] by (auto simp: page_off_simps(1))
qed

text \<open>
  A stronger fence does what a weaker one does, and the fences of one request do what those of
  another one do.
\<close>

fun sfence :: "fence \<Rightarrow> bool" where
  "sfence SfenceAll = True"
| "sfence (SfenceVa _) = True"
| "sfence (SfenceAsid _) = True"
| "sfence (SfenceVaAsid _ _) = True"
| "sfence _ = False"

fun gfence :: "fence \<Rightarrow> bool" where
  "gfence HfenceGvmaAll = True"
| "gfence (HfenceGvmaGpa _) = True"
| "gfence (HfenceGvmaVmid _) = True"
| "gfence (HfenceGvmaVmidGpa _ _) = True"
| "gfence _ = False"

fun vfence :: "u64 \<Rightarrow> fence \<Rightarrow> bool" where
  "vfence hg (HfenceVvmaAll g) = (g = hg)"
| "vfence hg (HfenceVvmaVa g _) = (g = hg)"
| "vfence hg (HfenceVvmaAsid g _) = (g = hg)"
| "vfence hg (HfenceVvmaAsidVa g _ _) = (g = hg)"
| "vfence hg _ = False"

definition subsumes :: "fence \<Rightarrow> fence \<Rightarrow> bool" where
  "subsumes g f \<longleftrightarrow> g = f \<or>
     (case g of
        SfenceAll \<Rightarrow> sfence f
      | SfenceAsid a \<Rightarrow> (\<exists>v. f = SfenceVaAsid v a)
      | HfenceGvmaAll \<Rightarrow> gfence f
      | HfenceGvmaVmid m \<Rightarrow> (\<exists>v. f = HfenceGvmaVmidGpa v m)
      | HfenceVvmaAll hg \<Rightarrow> vfence hg f
      | HfenceVvmaAsid hg a \<Rightarrow> (\<exists>v. f = HfenceVvmaAsidVa hg v a)
      | _ \<Rightarrow> False)"

lemma subsumes_refl [simp]: "subsumes f f"
  by (simp add: subsumes_def)

lemma subsumes_trans: "subsumes h g \<Longrightarrow> subsumes g f \<Longrightarrow> subsumes h f"
  by (cases h; cases g; auto simp: subsumes_def)

definition covers :: "sbi_tlb_info \<Rightarrow> sbi_tlb_info \<Rightarrow> bool" where
  "covers e r \<longleftrightarrow> (\<forall>fs. call_local_fn r = Some fs \<longrightarrow>
     (\<exists>gs. call_local_fn e = Some gs \<and> (\<forall>f \<in> set fs. \<exists>g \<in> set gs. subsumes g f)))"

lemma covers_refl [simp]: "covers r r"
  unfolding covers_def by (meson subsumes_refl)

lemma covers_trans: "covers d e \<Longrightarrow> covers e r \<Longrightarrow> covers d r"
  unfolding covers_def by (meson subsumes_trans)

lemma call_local_fn_smask [simp]: "call_local_fn (e\<lparr>smask := m\<rparr>) = call_local_fn e"
  by (simp add: call_local_fn_def sbi_tlb_local_hfence_vvma_def sbi_tlb_local_hfence_gvma_def sbi_tlb_local_sfence_vma_def
      sbi_tlb_local_hfence_vvma_asid_def sbi_tlb_local_hfence_gvma_vmid_def sbi_tlb_local_sfence_vma_asid_def
      sbi_tlb_local_fence_i_def swapped_hgatp_def whole_def split: tlb_fn.splits)

lemma covers_smask [simp]: "covers (e\<lparr>smask := m\<rparr>) r = covers e r" "covers e (r\<lparr>smask := m\<rparr>) = covers e r"
  by (simp_all add: covers_def)

text \<open>Raising a request to the limit only adds to what it does.\<close>

lemma page_loop_fences:
  assumes "page_loop f sz i = Some fs"
  shows "\<forall>x \<in> set fs. \<exists>j. x = f j"
proof (rule page_loop.raw_induct [OF _ assms])
  fix pl f sz i and fs :: "fence list"
  assume ih: "\<And>f sz i fs. pl f sz i = Some fs \<Longrightarrow> \<forall>x \<in> set fs. \<exists>j. x = f j"
    and fs: "(if i < sz then Option.bind (pl f sz (i + SBI_PAGE_SIZE)) (\<lambda>fs. Some (f i # fs)) else Some []) = Some fs"
  then show "\<forall>x \<in> set fs. \<exists>j. x = f j"
    using ih [of f sz "i + SBI_PAGE_SIZE"] by (cases "i < sz"; cases "pl f sz (i + SBI_PAGE_SIZE)") auto
qed

lemma limit_covers: "covers (tlb_limit limit r) r"
proof (cases "limit < range r")
  case True
  have l: "tlb_limit limit r = r\<lparr>start := 0, range := SBI_TLB_FLUSH_ALL\<rparr>" "range r \<noteq> 0" "SBI_TLB_FLUSH_ALL \<noteq> 0"
    using True by (auto simp: tlb_limit_def SBI_TLB_FLUSH_ALL_def)
  show ?thesis
    unfolding covers_def l(1)
  proof (intro allI impI)
    fix fs
    assume "call_local_fn r = Some fs"
    then show "\<exists>gs. call_local_fn (r\<lparr>start := 0, range := SBI_TLB_FLUSH_ALL\<rparr>) = Some gs \<and> (\<forall>f \<in> set fs. \<exists>g \<in> set gs. subsumes g f)"
      using l(2,3) page_loop_fences
      by (fastforce simp: call_local_fn_def sbi_tlb_local_hfence_vvma_def sbi_tlb_local_hfence_gvma_def sbi_tlb_local_sfence_vma_def
          sbi_tlb_local_hfence_vvma_asid_def sbi_tlb_local_hfence_gvma_vmid_def sbi_tlb_local_sfence_vma_asid_def
          sbi_tlb_local_fence_i_def swapped_hgatp_def whole_def subsumes_def split: tlb_fn.splits if_splits)
  qed
qed (simp add: tlb_limit_def)

section \<open>Requests that merge well\<close>

text \<open>
  The range of a request for supervisor fences starts at a page, ends within the address space,
  and is not the pair of zeros that stands for everything; the loop over it ends.
\<close>

definition entry_ok :: "sbi_tlb_info \<Rightarrow> bool" where
  "entry_ok e \<longleftrightarrow> mask_wf (smask e) \<and> (range e = SBI_TLB_FLUSH_ALL \<or> unat (range e) \<le> 18446744073709547520) \<and>
     (local_fn e = Sfence_vma \<or> local_fn e = Sfence_vma_asid \<longrightarrow>
        4096 dvd unat (start e) \<and> unat (start e) + unat (range e) < 18446744073709551616 \<and> \<not> (start e = 0 \<and> range e = 0))"

definition contains :: "sbi_tlb_info \<Rightarrow> sbi_tlb_info \<Rightarrow> bool" where
  "contains e r \<longleftrightarrow> unat (start e) \<le> unat (start r) \<and> unat (start r) + unat (range r) \<le> unat (start e) + unat (range e)"

lemma unat_flush_all: "unat x = 18446744073709551615 \<longleftrightarrow> x = SBI_TLB_FLUSH_ALL" for x :: u64
proof -
  have "unat SBI_TLB_FLUSH_ALL = 18446744073709551615" by (simp add: SBI_TLB_FLUSH_ALL_def)
  then show ?thesis by (metis word_unat_eq_iff)
qed

lemma contains_all:
  assumes "entry_ok e" and "contains e r" and "range r = SBI_TLB_FLUSH_ALL"
  shows "range e = SBI_TLB_FLUSH_ALL"
proof -
  have "unat (range r) = 18446744073709551615" using assms(3) unat_flush_all by simp
  then have "18446744073709551615 \<le> unat (range e)" using assms(2) unfolding contains_def by linarith
  then have "unat (range e) = 18446744073709551615" using unat_less64 [of "range e"] by simp
  then show ?thesis using unat_flush_all by simp
qed

text \<open>The addresses a contained range flushes are among those of the containing one.\<close>

lemma contained_address:
  assumes "4096 dvd unat (start e)" and "4096 dvd unat (start r)" and "contains e r"
    and "4096 * k < unat (range r)"
  shows "\<exists>j. start r + page_off k = start e + page_off j \<and> 4096 * j < unat (range e)"
proof -
  obtain a b where ab: "unat (start e) = 4096 * a" "unat (start r) = 4096 * b" using assms(1,2) by (auto elim!: dvdE)
  have "a \<le> b" using assms(3) unfolding contains_def ab by simp
  let ?j = "b - a + k"
  have "start e = page_off a" "start r = page_off b" using ab by (metis of_nat_unat page_off_def ucast_id)+
  moreover have "page_off b = page_off a + page_off (b - a)" using page_off_simps(3) [of a "b - a"] \<open>a \<le> b\<close> by simp
  ultimately have "start r + page_off k = start e + page_off ?j" by (simp add: page_off_simps(3))
  moreover have "4096 * ?j < unat (range e)" using assms(3,4) \<open>a \<le> b\<close> unfolding contains_def ab by (simp add: diff_mult_distrib2)
  ultimately show ?thesis by blast
qed

lemma contains_covers:
  assumes e: "entry_ok e" and r: "entry_ok r" and c: "contains e r"
    and fn: "local_fn e = local_fn r" "local_fn r = Sfence_vma \<or> local_fn r = Sfence_vma_asid"
    and a: "local_fn r = Sfence_vma_asid \<longrightarrow> asid e = asid r"
  shows "covers e r"
proof -
  have al: "4096 dvd unat (start e)" "4096 dvd unat (start r)" and nz: "\<not> (start e = 0 \<and> range e = 0)" "\<not> (start r = 0 \<and> range r = 0)"
    using e r fn by (auto simp: entry_ok_def)
  note addr = contained_address [OF al c]
  let ?f = "\<lambda>x i. case local_fn r of Sfence_vma \<Rightarrow> SfenceVa (start x + i) | _ \<Rightarrow> SfenceVaAsid (start x + i) (asid r)"
  let ?all = "case local_fn r of Sfence_vma \<Rightarrow> SfenceAll | _ \<Rightarrow> SfenceAsid (asid r)"
  have loc: "call_local_fn x = (if range x = SBI_TLB_FLUSH_ALL then Some [?all] else page_loop (?f x) (range x) 0)"
    if "x = e \<or> x = r" for x
    using that fn a nz by (auto simp: call_local_fn_def sbi_tlb_local_sfence_vma_def sbi_tlb_local_sfence_vma_asid_def whole_def)
  have sub: "subsumes ?all (?f r i)" for i using fn(2) by (auto simp: subsumes_def)
  show ?thesis
  proof (cases "range e = SBI_TLB_FLUSH_ALL")
    case True
    have "\<exists>fs. page_loop (?f r) (range r) 0 = Some fs \<and> set fs = {?f r (page_off k) | k. 4096 * k < unat (range r)}"
      if "range r \<noteq> SBI_TLB_FLUSH_ALL" using that r by (intro page_loop_result) (auto simp: entry_ok_def)
    then show ?thesis using True sub by (auto simp: covers_def loc)
  next
    case False
    then have "range r \<noteq> SBI_TLB_FLUSH_ALL" using contains_all [OF e c] by blast
    obtain fs gs where fs: "page_loop (?f r) (range r) 0 = Some fs" "set fs = {?f r (page_off k) | k. 4096 * k < unat (range r)}"
      and gs: "page_loop (?f e) (range e) 0 = Some gs" "set gs = {?f e (page_off k) | k. 4096 * k < unat (range e)}"
      using page_loop_result [of "range r" "?f r"] page_loop_result [of "range e" "?f e"] e r False \<open>range r \<noteq> SBI_TLB_FLUSH_ALL\<close>
      by (auto simp: entry_ok_def)
    have "\<exists>g \<in> set gs. subsumes g f" if f: "f \<in> set fs" for f
    proof -
      obtain k where k: "4096 * k < unat (range r)" "f = ?f r (page_off k)" using f fs(2) by auto
      obtain j where j: "start r + page_off k = start e + page_off j" "4096 * j < unat (range e)"
        using addr [OF k(1)] by blast
      have "f = ?f e (page_off j)" unfolding k(2) j(1) by (rule refl)
      then have "f \<in> set gs" unfolding gs(2) using j(2) by blast
      then show ?thesis by (metis subsumes_refl)
    qed
    then show ?thesis using fs(1) gs(1) False \<open>range r \<noteq> SBI_TLB_FLUSH_ALL\<close> by (auto simp: covers_def loc)
  qed
qed

text \<open>
  Merging a request into a waiting one: the changed entry does what both asked for, and it
  will be reported to the harts of both.
\<close>

lemma tlb_update_cb_sound:
  assumes cur: "entry_ok cur" and nxt: "entry_ok next" and u: "tlb_update_cb next cur = (ret, cur')"
  shows "ret = SBI_FIFO_UNCHANGED \<Longrightarrow> cur' = cur"
    and "ret \<noteq> SBI_FIFO_UNCHANGED \<Longrightarrow> entry_ok cur' \<and> covers cur' cur \<and> covers cur' next \<and>
      harts (smask cur') = harts (smask cur) \<union> harts (smask next)"
proof -
  show "ret = SBI_FIFO_UNCHANGED \<Longrightarrow> cur' = cur"
    using u by (auto simp: tlb_update_cb_def tlb_range_check_def Let_def split: if_splits)
  assume ret: "ret \<noteq> SBI_FIFO_UNCHANGED"
  let ?m = "sbi_hartmask_or (smask cur) (smask cur) (smask next)"
  have m: "harts ?m = harts (smask cur) \<union> harts (smask next)" "mask_wf ?m"
    using cur nxt by (auto simp: entry_ok_def harts_or)
  have fn: "local_fn cur = local_fn next" "local_fn next = Sfence_vma \<or> local_fn next = Sfence_vma_asid"
    "local_fn next = Sfence_vma_asid \<longrightarrow> asid cur = asid next" and rc: "tlb_range_check cur next = (ret, cur')"
    using u ret by (auto simp: tlb_update_cb_def split: if_splits)
  have ends: "unat (start x + range x) = unat (start x) + unat (range x)" if "x = cur \<or> x = next" for x
    using that cur nxt fn by (auto simp: entry_ok_def unat_add64)
  show "entry_ok cur' \<and> covers cur' cur \<and> covers cur' next \<and> harts (smask cur') = harts (smask cur) \<union> harts (smask next)"
  proof (cases "start next \<le> start cur \<and> start cur + range cur < start next + range next")
    case True
    then have c: "cur' = cur\<lparr>start := start next, range := range next, smask := ?m\<rparr>"
      using rc by (simp add: tlb_range_check_def Let_def)
    have "contains (cur\<lparr>start := start next, range := range next\<rparr>) cur"
      using True ends by (simp add: contains_def word_le_nat_alt word_less_nat_alt)
    moreover have "contains (cur\<lparr>start := start next, range := range next\<rparr>) next" by (simp add: contains_def)
    moreover have ok: "entry_ok (cur\<lparr>start := start next, range := range next\<rparr>)" "entry_ok cur'"
      using cur nxt fn m(2) by (auto simp: entry_ok_def c)
    ultimately have "covers (cur\<lparr>start := start next, range := range next\<rparr>) cur" "covers (cur\<lparr>start := start next, range := range next\<rparr>) next"
      using fn cur nxt by (intro contains_covers; auto)+
    then show ?thesis using ok m by (simp add: c)
  next
    case False
    then have c: "cur' = cur\<lparr>smask := ?m\<rparr>" and "start cur \<le> start next \<and> start next + range next \<le> start cur + range cur"
      using rc ret by (auto simp: tlb_range_check_def Let_def split: if_splits)
    then have "contains cur next" using ends by (simp add: contains_def word_le_nat_alt)
    then have "covers cur next" using fn cur nxt by (intro contains_covers) auto
    then show ?thesis using cur m by (simp add: c entry_ok_def)
  qed
qed

section \<open>Properties\<close>

lemma tlb_info_smask:
  assumes "src < SBI_HARTMASK_MAX_BITS"
  shows "harts (smask (tlb_info_init st sz a v fn src)) = {src}" and "mask_wf (smask (tlb_info_init st sz a v fn src))"
proof -
  let ?z = "\<lparr>bits = [0, 0]\<rparr>"
  have "smask (tlb_info_init st sz a v fn src) = sbi_hartmask_set_hart src ?z"
    using assms by (simp add: tlb_info_init_def bitmap_zero_except_def mask_words upt_two sbi_hartmask_set_hart_def numeral_2_eq_2)
  moreover have "harts ?z = {}" by (auto simp: harts_iff bmap_bit_two SBI_HARTMASK_MAX_BITS_def split: if_splits)
  moreover have "mask_wf ?z" by (simp add: mask_wf_def mask_words)
  ultimately show "harts (smask (tlb_info_init st sz a v fn src)) = {src}" "mask_wf (smask (tlb_info_init st sz a v fn src))"
    using assms by (simp_all add: harts_set)
qed

lemma page_loop_one: "page_loop f 0x1000 0 = Some [f 0]"
  by (subst page_loop.simps, subst page_loop.simps) (simp add: SBI_PAGE_SIZE_def)


end
