(* ===== verification/SbiTlbRun.thy ===== *)
theory SbiTlbRun
  imports SbiTlb
begin

text \<open>
  The protocol of remote fences between the harts: \<^verbatim>\<open>tlb_update\<close>, \<^verbatim>\<open>tlb_sync\<close>,
  \<^verbatim>\<open>tlb_process\<close> and \<^verbatim>\<open>tlb_entry_process\<close> of \<^verbatim>\<open>opensbi-1.2/lib/sbi/sbi_tlb.c\<close> inside
  \<^verbatim>\<open>sbi_ipi_send_many\<close> and \<^verbatim>\<open>sbi_ipi_process\<close>, with the harts interleaved between any two
  accesses to shared memory. An access to a queue is one step, since a lock protects it. The
  place of a hart says where it is in this code and holds its local variables. Of the event word
  and the interrupt line of a hart only the bit of this event and the line itself are kept.
\<close>

section \<open>Places and shared state\<close>

text \<open>Where a hart goes on after it has served its own queue, with the number of entries served.\<close>

datatype after = ToIdle | ToEnqueue sbi_tlb_info nat "nat list" nat | ToSync sbi_tlb_info nat "nat list" nat

datatype tlb_place =
    Idle
  | Update sbi_tlb_info "nat list"
  | Enqueue sbi_tlb_info nat "nat list"
  | SetType sbi_tlb_info nat "nat list"
  | Kick sbi_tlb_info nat "nat list"
  | Sync sbi_tlb_info nat "nat list"
  | Received
  | Dequeue after
  | Flush sbi_tlb_info after
  | Notify "nat list" after

text \<open>
  \<open>executed\<close> are the fences a hart has executed. \<open>mark\<close> is a note for the proofs: how many
  fences the current target had executed when the hart turned to it.
\<close>

record tlb_machine =
  place :: "nat \<Rightarrow> tlb_place"
  fifo :: "nat \<Rightarrow> sbi_tlb_info list"
  syncw :: "nat \<Rightarrow> bool"
  tbit :: "nat \<Rightarrow> bool"
  msip :: "nat \<Rightarrow> bool"
  executed :: "nat \<Rightarrow> fence list"
  mark :: "nat \<Rightarrow> nat"

definition goto :: "nat \<Rightarrow> tlb_place \<Rightarrow> tlb_machine \<Rightarrow> tlb_machine" where
  "goto h p s = s\<lparr>place := (place s)(h := p)\<rparr>"

section \<open>The steps of a hart\<close>

text \<open>The loop of \<^verbatim>\<open>sbi_ipi_send_many\<close> around \<^verbatim>\<open>tlb_update\<close>, up to the update in place.\<close>

definition update_step :: "u64 \<Rightarrow> nat \<Rightarrow> sbi_tlb_info \<Rightarrow> nat list \<Rightarrow> tlb_machine \<Rightarrow> tlb_machine option" where
  "update_step limit h tinfo ts s =
     (case ts of
        [] \<Rightarrow> Some (goto h Idle s)
      | t # rest \<Rightarrow>
          let tinfo = tlb_limit limit tinfo in
          if t = h then
            (case call_local_fn tinfo of
               None \<Rightarrow> None
             | Some fs \<Rightarrow> Some (goto h (Update tinfo rest) (s\<lparr>executed := (executed s)(h := executed s h @ fs)\<rparr>)))
          else
            let s = s\<lparr>mark := (mark s)(h := length (executed s t))\<rparr> in
            (case inplace_list (tlb_update_cb tinfo) (fifo s t) of (ret, es) \<Rightarrow>
               if ret = SBI_FIFO_UNCHANGED then Some (goto h (Enqueue tinfo t rest) s)
               else Some (goto h (SetType tinfo t rest) (s\<lparr>fifo := (fifo s)(t := es)\<rparr>))))"

definition enqueue_step :: "nat \<Rightarrow> sbi_tlb_info \<Rightarrow> nat \<Rightarrow> nat list \<Rightarrow> tlb_machine \<Rightarrow> tlb_machine" where
  "enqueue_step h tinfo t ts s =
     (if length (fifo s t) < SBI_TLB_FIFO_NUM_ENTRIES
      then goto h (SetType tinfo t ts) (s\<lparr>fifo := (fifo s)(t := fifo s t @ [tinfo])\<rparr>)
      else goto h (Dequeue (ToEnqueue tinfo t ts 0)) s)"

definition sync_step :: "nat \<Rightarrow> sbi_tlb_info \<Rightarrow> nat \<Rightarrow> nat list \<Rightarrow> tlb_machine \<Rightarrow> tlb_machine" where
  "sync_step h tinfo t ts s =
     (if syncw s h then goto h (Update tinfo ts) (s\<lparr>syncw := (syncw s)(h := False)\<rparr>)
      else goto h (Dequeue (ToSync tinfo t ts 0)) s)"

text \<open>Leaving the loop over the own queue, and going round once more.\<close>

definition leave :: "after \<Rightarrow> tlb_place" where
  "leave a = (case a of ToIdle \<Rightarrow> Idle | ToEnqueue tinfo t ts _ \<Rightarrow> Enqueue tinfo t ts | ToSync tinfo t ts _ \<Rightarrow> Sync tinfo t ts)"

definition again :: "after \<Rightarrow> tlb_place" where
  "again a =
     (case a of
        ToIdle \<Rightarrow> Dequeue ToIdle
      | ToEnqueue tinfo t ts deq_count \<Rightarrow>
          if deq_count + 1 > 1 then Enqueue tinfo t ts else Dequeue (ToEnqueue tinfo t ts (deq_count + 1))
      | ToSync tinfo t ts deq_count \<Rightarrow>
          if deq_count + 1 > 1 then Sync tinfo t ts else Dequeue (ToSync tinfo t ts (deq_count + 1)))"

definition dequeue_step :: "nat \<Rightarrow> after \<Rightarrow> tlb_machine \<Rightarrow> tlb_machine" where
  "dequeue_step h a s =
     (case fifo s h of
        [] \<Rightarrow> goto h (leave a) s
      | e # es \<Rightarrow> goto h (Flush e a) (s\<lparr>fifo := (fifo s)(h := es)\<rparr>))"

definition flush_step :: "nat \<Rightarrow> sbi_tlb_info \<Rightarrow> after \<Rightarrow> tlb_machine \<Rightarrow> tlb_machine option" where
  "flush_step h e a s =
     (case call_local_fn e of
        None \<Rightarrow> None
      | Some fs \<Rightarrow> Some (goto h (Notify (sbi_hartmask_for_each_hart (smask e)) a)
          (s\<lparr>executed := (executed s)(h := executed s h @ fs)\<rparr>)))"

text \<open>One exchange with the word of the next hart to notify; a word that is still set is tried again.\<close>

definition notify_step :: "nat \<Rightarrow> nat \<Rightarrow> nat list \<Rightarrow> after \<Rightarrow> tlb_machine \<Rightarrow> tlb_machine" where
  "notify_step n h rs a s =
     (case rs of
        [] \<Rightarrow> goto h (again a) s
      | r # rest \<Rightarrow>
          if \<not> r < n then goto h (Notify rest a) s
          else if syncw s r then s
          else goto h (Notify rest a) (s\<lparr>syncw := (syncw s)(r := True)\<rparr>))"

text \<open>
  The next step of a hart that is not idle. The harts below \<open>n\<close> have a scratch area.
\<close>

definition hart_next :: "nat \<Rightarrow> u64 \<Rightarrow> nat \<Rightarrow> tlb_machine \<Rightarrow> tlb_machine option" where
  "hart_next n limit h s =
     (case place s h of
        Idle \<Rightarrow> None
      | Update tinfo ts \<Rightarrow> update_step limit h tinfo ts s
      | Enqueue tinfo t ts \<Rightarrow> Some (enqueue_step h tinfo t ts s)
      | SetType tinfo t ts \<Rightarrow> Some (goto h (Kick tinfo t ts) (s\<lparr>tbit := (tbit s)(t := True)\<rparr>))
      | Kick tinfo t ts \<Rightarrow> Some (goto h (Sync tinfo t ts) (s\<lparr>msip := (msip s)(t := True)\<rparr>))
      | Sync tinfo t ts \<Rightarrow> Some (sync_step h tinfo t ts s)
      | Received \<Rightarrow> Some (if tbit s h then goto h (Dequeue ToIdle) (s\<lparr>tbit := (tbit s)(h := False)\<rparr>) else goto h Idle s)
      | Dequeue a \<Rightarrow> Some (dequeue_step h a s)
      | Flush e a \<Rightarrow> flush_step h e a s
      | Notify rs a \<Rightarrow> Some (notify_step n h rs a s))"

text \<open>
  Requests: the caller is the hart to notify, and for supervisor fences the range is one that
  merges well.
\<close>

definition request_ok :: "nat \<Rightarrow> sbi_tlb_info \<Rightarrow> bool" where
  "request_ok h r \<longleftrightarrow> harts (smask r) = {h} \<and> mask_wf (smask r) \<and>
     (local_fn r = Sfence_vma \<or> local_fn r = Sfence_vma_asid \<longrightarrow>
        4096 dvd unat (start r) \<and> unat (start r) + unat (range r) < 18446744073709551616 \<and> \<not> (start r = 0 \<and> range r = 0))"

inductive tstep :: "nat \<Rightarrow> u64 \<Rightarrow> tlb_machine \<Rightarrow> tlb_machine \<Rightarrow> bool"
  for n limit where
  step_run: "h < n \<Longrightarrow> hart_next n limit h s = Some s' \<Longrightarrow> tstep n limit s s'"
| step_request: "h < n \<Longrightarrow> place s h = Idle \<Longrightarrow> request_ok h r \<Longrightarrow> set ts \<subseteq> {..<n} \<Longrightarrow>
    tstep n limit s (goto h (Update r ts) s)"
| step_interrupt: "h < n \<Longrightarrow> place s h = Idle \<Longrightarrow> msip s h \<Longrightarrow>
    tstep n limit s (goto h Received (s\<lparr>msip := (msip s)(h := False)\<rparr>))"

inductive treach :: "nat \<Rightarrow> u64 \<Rightarrow> tlb_machine \<Rightarrow> bool"
  for n limit where
  reach_init: "(\<And>h. place s h = Idle \<and> fifo s h = [] \<and> \<not> syncw s h) \<Longrightarrow> treach n limit s"
| reach_step: "treach n limit s \<Longrightarrow> tstep n limit s s' \<Longrightarrow> treach n limit s'"

section \<open>Views of a place\<close>

fun after_pending :: "after \<Rightarrow> (sbi_tlb_info \<times> nat) option" where
  "after_pending (ToSync r t ts c) = Some (r, t)"
| "after_pending _ = None"

text \<open>The request a hart waits for, with its target.\<close>

fun pending :: "tlb_place \<Rightarrow> (sbi_tlb_info \<times> nat) option" where
  "pending (SetType r t ts) = Some (r, t)"
| "pending (Kick r t ts) = Some (r, t)"
| "pending (Sync r t ts) = Some (r, t)"
| "pending (Dequeue a) = after_pending a"
| "pending (Flush e a) = after_pending a"
| "pending (Notify rs a) = after_pending a"
| "pending _ = None"

text \<open>The entry a hart is about to flush, and the harts it has yet to notify.\<close>

fun flushing :: "tlb_place \<Rightarrow> sbi_tlb_info option" where
  "flushing (Flush e a) = Some e"
| "flushing _ = None"

fun notifying :: "tlb_place \<Rightarrow> nat list" where
  "notifying (Notify rs a) = rs"
| "notifying _ = []"

text \<open>The request a hart holds and is about to enqueue.\<close>

fun after_enqueue :: "after \<Rightarrow> (sbi_tlb_info \<times> nat) option" where
  "after_enqueue (ToEnqueue r t ts c) = Some (r, t)"
| "after_enqueue _ = None"

fun enqueuing :: "tlb_place \<Rightarrow> (sbi_tlb_info \<times> nat) option" where
  "enqueuing (Enqueue r t ts) = Some (r, t)"
| "enqueuing (Dequeue a) = after_enqueue a"
| "enqueuing (Flush e a) = after_enqueue a"
| "enqueuing (Notify rs a) = after_enqueue a"
| "enqueuing _ = None"

fun updating :: "tlb_place \<Rightarrow> sbi_tlb_info option" where
  "updating (Update r ts) = Some r"
| "updating _ = None"

lemma leave_views [simp]:
  "pending (leave a) = after_pending a" "enqueuing (leave a) = after_enqueue a"
  "flushing (leave a) = None" "notifying (leave a) = []" "updating (leave a) = None"
  by (cases a; simp add: leave_def)+

lemma again_views [simp]:
  "pending (again a) = after_pending a" "enqueuing (again a) = after_enqueue a"
  "flushing (again a) = None" "notifying (again a) = []" "updating (again a) = None"
  by (cases a; simp add: again_def)+

section \<open>Who carries a request\<close>

text \<open>
  A request that has not been acknowledged is carried by exactly one entry: in the queue of its
  target, in the hands of the target, or in the list of harts the target has yet to notify.
\<close>

definition waiting :: "nat \<Rightarrow> sbi_tlb_info list \<Rightarrow> nat" where
  "waiting k es = length (filter (\<lambda>e. k \<in> harts (smask e)) es)"

definition tokens :: "(nat \<Rightarrow> sbi_tlb_info list) \<Rightarrow> (nat \<Rightarrow> sbi_tlb_info option) \<Rightarrow> (nat \<Rightarrow> nat list) \<Rightarrow> nat \<Rightarrow> nat \<Rightarrow> nat" where
  "tokens F L N k t = waiting k (F t) + (case L t of None \<Rightarrow> 0 | Some e \<Rightarrow> if k \<in> harts (smask e) then 1 else 0) +
     (if k \<in> set (N t) then 1 else 0)"

definition flushed :: "(nat \<Rightarrow> fence list) \<Rightarrow> nat \<Rightarrow> sbi_tlb_info \<Rightarrow> nat \<Rightarrow> bool" where
  "flushed X m r t \<longleftrightarrow> (\<forall>fs. call_local_fn r = Some fs \<longrightarrow>
     (\<forall>f \<in> set fs. \<exists>g \<in> set (drop m (X t)). subsumes g f))"

definition carried ::
    "(nat \<Rightarrow> sbi_tlb_info list) \<Rightarrow> (nat \<Rightarrow> bool) \<Rightarrow> (nat \<Rightarrow> fence list) \<Rightarrow> (nat \<Rightarrow> nat) \<Rightarrow>
     (nat \<Rightarrow> sbi_tlb_info option) \<Rightarrow> (nat \<Rightarrow> nat list) \<Rightarrow> nat \<Rightarrow> (sbi_tlb_info \<times> nat) option \<Rightarrow> bool" where
  "carried F S X M L N k p =
     (case p of
        None \<Rightarrow> \<not> S k \<and> (\<forall>t. tokens F L N k t = 0)
      | Some (r, t) \<Rightarrow>
          (\<forall>t'. t' \<noteq> t \<longrightarrow> tokens F L N k t' = 0) \<and> tokens F L N k t + (if S k then 1 else 0) = 1 \<and>
          (S k \<longrightarrow> flushed X (M k) r t) \<and>
          (\<forall>e \<in> set (F t). k \<in> harts (smask e) \<longrightarrow> covers e r) \<and>
          (\<forall>e. L t = Some e \<longrightarrow> k \<in> harts (smask e) \<longrightarrow> covers e r) \<and>
          (k \<in> set (N t) \<longrightarrow> flushed X (M k) r t))"

lemma waiting_simps [simp]:
  "waiting k [] = 0" "waiting k (e # es) = (if k \<in> harts (smask e) then 1 else 0) + waiting k es"
  "waiting k (es @ fs) = waiting k es + waiting k fs"
  by (simp_all add: waiting_def)

lemma waiting_0: "waiting k es = 0 \<longleftrightarrow> (\<forall>e \<in> set es. k \<notin> harts (smask e))"
  by (auto simp: waiting_def filter_empty_conv)

lemma flushed_more:
  assumes "flushed X m r t" and "m \<le> length (X t)"
  shows "flushed (X(h := X h @ fs)) m r t"
  using assms by (cases "t = h") (auto simp: flushed_def)

lemma carried_executed:
  assumes "carried F S X M L N k p" and "\<And>r t. p = Some (r, t) \<Longrightarrow> M k \<le> length (X t)"
  shows "carried F S (X(h := X h @ fs)) M L N k p"
  using assms by (auto simp: carried_def split: option.splits prod.splits intro!: flushed_more)

text \<open>Only the note of the hart itself matters.\<close>

lemma carried_mark: "M' k = M k \<Longrightarrow> carried F S X M' L N k p = carried F S X M L N k p"
  by (simp add: carried_def split: option.splits prod.splits)

lemma carried_mark_none: "carried F S X M' L N k None = carried F S X M L N k None"
  by (simp add: carried_def)

section \<open>How the steps move the carriers\<close>

text \<open>The queue \<open>es'\<close> is \<open>es\<close> with the request \<open>r\<close> of hart \<open>h\<close> added to it.\<close>

definition added :: "nat \<Rightarrow> sbi_tlb_info \<Rightarrow> sbi_tlb_info list \<Rightarrow> sbi_tlb_info list \<Rightarrow> bool" where
  "added h r es es' \<longleftrightarrow> (\<forall>k. waiting k es' = waiting k es + (if k = h then 1 else 0)) \<and> (\<forall>e' \<in> set es'. entry_ok e') \<and>
     (\<forall>e' \<in> set es'. \<forall>k \<in> harts (smask e'). k = h \<and> covers e' r \<or> (\<exists>e \<in> set es. k \<in> harts (smask e) \<and> covers e' e))"

lemma added_append:
  assumes "entry_ok r" and "harts (smask r) = {h}" and "\<forall>e \<in> set es. entry_ok e"
  shows "added h r es (es @ [r])"
  using assms by (auto simp: added_def)

lemma added_inplace:
  assumes "entry_ok r" and "harts (smask r) = {h}" and "\<forall>e \<in> set es. entry_ok e" and "waiting h es = 0"
    and "inplace_list (tlb_update_cb r) es = (ret, es')"
  shows "if ret = SBI_FIFO_UNCHANGED then es' = es else added h r es es'"
  using assms(3-5)
proof (induction es arbitrary: es')
  case (Cons e es)
  obtain re e' where u: "tlb_update_cb r e = (re, e')" by fastforce
  have ok: "entry_ok e" "\<forall>e \<in> set es. entry_ok e" and h: "h \<notin> harts (smask e)" "waiting h es = 0" using Cons.prems by auto
  note sound = tlb_update_cb_sound [OF ok(1) assms(1) u]
  show ?case
  proof (cases "re = SBI_FIFO_UNCHANGED")
    case True
    obtain es2 where es2: "inplace_list (tlb_update_cb r) es = (ret, es2)" "es' = e' # es2"
      using Cons.prems(3) u True by (auto split: prod.splits)
    have "e' = e" using sound(1) True by simp
    with Cons.IH [OF ok(2) h(2) es2(1)] es2(2) ok(1) show ?thesis
      by (cases "ret = SBI_FIFO_UNCHANGED") (auto simp: added_def)
  next
    case False
    then have es': "ret = re" "es' = e' # es" using Cons.prems(3) u by auto
    from sound(2) [OF False] have "entry_ok e'" "covers e' e" "covers e' r" "harts (smask e') = insert h (harts (smask e))"
      using assms(2) by auto
    then show ?thesis using False es' h(1) ok(2) by (auto simp: added_def)
  qed
qed simp

lemma added_tokens:
  assumes "added h r (F t) es'"
  shows "tokens (F(t := es')) L N k t' = tokens F L N k t' + (if k = h \<and> t' = t then 1 else 0)"
  using assms by (simp add: tokens_def added_def)

lemma carried_added:
  assumes "added h r (F t) es'" and "k \<noteq> h" and "carried F S X M L N k p"
  shows "carried (F(t := es')) S X M L N k p"
proof (cases p)
  case None
  then show ?thesis using assms by (simp add: carried_def added_tokens [where F = F and t = t, OF assms(1)])
next
  case (Some rt)
  obtain q u where rt: "rt = (q, u)" by fastforce
  have "covers e' q" if "e' \<in> set ((F(t := es')) u)" "k \<in> harts (smask e')" for e'
  proof (cases "u = t")
    case True
    then have "e' \<in> set es'" using that by simp
    then have "k = h \<and> covers e' r \<or> (\<exists>e \<in> set (F t). k \<in> harts (smask e) \<and> covers e' e)"
      using assms(1) that(2) unfolding added_def by blast
    then obtain e where e: "e \<in> set (F t)" "k \<in> harts (smask e)" "covers e' e" using assms(2) by blast
    have "covers e q" using assms(3) e(1,2) unfolding Some rt True carried_def by simp
    with e(3) show ?thesis by (rule covers_trans)
  next
    case False
    then show ?thesis using that assms(3) unfolding Some rt carried_def by simp
  qed
  then show ?thesis using assms(2,3) unfolding Some rt by (simp add: carried_def added_tokens [where F = F and t = t, OF assms(1)])
qed

lemma carried_new:
  assumes "added h r (F t) es'" and "carried F S X M L N h None"
  shows "carried (F(t := es')) S X M' L N h (Some (r, t))"
proof -
  have z: "\<not> S h" "tokens F L N h t' = 0" for t' using assms(2) by (simp_all add: carried_def)
  have w: "waiting h (F t') = 0" "(\<forall>e. L t' = Some e \<longrightarrow> h \<notin> harts (smask e))" "h \<notin> set (N t')" for t'
    using z(2) [of t'] by (auto simp: tokens_def split: option.splits if_splits)
  have "covers e' r" if "e' \<in> set es'" "h \<in> harts (smask e')" for e'
    using assms(1) that w(1) [of t] unfolding added_def waiting_0 by blast
  with z w show ?thesis by (simp add: carried_def added_tokens [where F = F and t = t, OF assms(1)])
qed

text \<open>An acknowledged request is over.\<close>

lemma carried_sync:
  assumes "carried F S X M L N h (Some (r, t))" and "S h"
  shows "carried F (S(h := False)) X M L N h None"
proof -
  have "tokens F L N h t' = 0" for t' using assms by (cases "t' = t") (auto simp: carried_def)
  then show ?thesis by (simp add: carried_def)
qed

lemma carried_other_sync: "k \<noteq> h \<Longrightarrow> carried F (S(h := b)) X M L N k p = carried F S X M L N k p"
  by (simp add: carried_def split: option.splits prod.splits)

text \<open>The target takes the oldest entry out of its queue.\<close>

lemma carried_dequeue:
  assumes "carried F S X M L N k p" and "F h = e # es" and "L h = None"
  shows "carried (F(h := es)) S X M (L(h := Some e)) N k p"
proof -
  have "tokens (F(h := es)) (L(h := Some e)) N k t = tokens F L N k t" for t using assms(2,3) by (simp add: tokens_def)
  then show ?thesis using assms by (auto simp: carried_def split: option.splits prod.splits)
qed

text \<open>The target executes the fences of the entry.\<close>

lemma carried_flush:
  assumes "carried F S X M L N k p" and "L h = Some e" and "N h = []" and "set rs = harts (smask e)"
    and "call_local_fn e = Some fs" and "\<And>r t. p = Some (r, t) \<Longrightarrow> M k \<le> length (X t)"
  shows "carried F S (X(h := X h @ fs)) M (L(h := None)) (N(h := rs)) k p"
proof (cases p)
  case None
  have "tokens F (L(h := None)) (N(h := rs)) k t = tokens F L N k t" for t using assms(2-4) by (simp add: tokens_def)
  then show ?thesis using assms(1) None by (simp add: carried_def)
next
  case (Some rt)
  obtain q u where rt: "rt = (q, u)" by fastforce
  have m: "M k \<le> length (X u)" using assms(6) Some rt by simp
  have tok: "tokens F (L(h := None)) (N(h := rs)) k t = tokens F L N k t" for t using assms(2-4) by (simp add: tokens_def)
  have "flushed (X(h := X h @ fs)) (M k) q h" if "u = h" "k \<in> set rs"
  proof -
    have "covers e q" using assms(1,2,4) that unfolding Some rt carried_def by simp
    then have "\<exists>g \<in> set fs. subsumes g f" if "call_local_fn q = Some gs" "f \<in> set gs" for gs f
      using assms(5) that unfolding covers_def by (metis option.inject)
    moreover have "drop (M k) ((X(h := X h @ fs)) h) = drop (M k) (X h) @ fs" using m \<open>u = h\<close> by simp
    ultimately show ?thesis unfolding flushed_def by (metis Un_iff set_append)
  qed
  moreover have "flushed (X(h := X h @ fs)) (M k) q u" if "flushed X (M k) q u" using flushed_more [OF that m] .
  ultimately show ?thesis using assms(1,3,4) unfolding Some rt by (simp add: carried_def tok)
qed

text \<open>The target acknowledges the request of a hart.\<close>

lemma carried_notify:
  assumes "carried F S X M L N k p" and "N h = r # rs" and "distinct (N h)" and "k \<noteq> r"
  shows "carried F S' X M L (N(h := rs)) k p = carried F S' X M L N k p"
proof -
  have "tokens F L (N(h := rs)) k t = tokens F L N k t" for t using assms(2,4) by (auto simp: tokens_def)
  moreover have "k \<in> set ((N(h := rs)) t) \<longleftrightarrow> k \<in> set (N t)" for t using assms(2,4) by auto
  ultimately show ?thesis by (simp add: carried_def split: option.splits prod.splits)
qed

lemma carried_token:
  assumes "carried F S X M L N k p" and "0 < tokens F L N k t"
  shows "\<exists>r. p = Some (r, t)" and "\<not> S k"
proof -
  have "\<not> S k \<and> (\<exists>r. p = Some (r, t))"
  proof (cases p)
    case None
    then show ?thesis using assms by (simp add: carried_def)
  next
    case (Some rt)
    obtain q u where rt: "rt = (q, u)" by fastforce
    have "t \<noteq> u \<longrightarrow> tokens F L N k t = 0" "tokens F L N k u + (if S k then 1 else 0) = 1"
      using assms(1) unfolding Some rt carried_def by auto
    then show ?thesis using assms(2) Some rt by (auto split: if_splits)
  qed
  then show "\<exists>r. p = Some (r, t)" "\<not> S k" by auto
qed

lemma carried_notified:
  assumes "carried F S X M L N r p" and "N h = r # rs" and "distinct (N h)"
  shows "\<not> S r" and "\<exists>q. p = Some (q, h)" and "carried F (S(r := True)) X M L (N(h := rs)) r p"
proof -
  have t: "0 < tokens F L N r h" using assms(2) by (simp add: tokens_def)
  note c = carried_token [OF assms(1) t]
  show "\<not> S r" "\<exists>q. p = Some (q, h)" by (rule c(2), rule c(1))
  obtain q where p: "p = Some (q, h)" using c(1) by blast
  have one: "tokens F L N r h = 1" "t' \<noteq> h \<Longrightarrow> tokens F L N r t' = 0" for t' using assms(1) c(2) p by (auto simp: carried_def)
  have "tokens F L (N(h := rs)) r t' = 0" for t' using one assms(2,3) by (cases "t' = h") (auto simp: tokens_def)
  then show "carried F (S(r := True)) X M L (N(h := rs)) r p"
    using assms p by (auto simp: carried_def)
qed

section \<open>The invariant\<close>

definition carries :: "tlb_machine \<Rightarrow> nat \<Rightarrow> (sbi_tlb_info \<times> nat) option \<Rightarrow> bool" where
  "carries s = carried (fifo s) (syncw s) (executed s) (mark s)
     (\<lambda>t. flushing (place s t)) (\<lambda>t. notifying (place s t))"

definition tinv :: "nat \<Rightarrow> tlb_machine \<Rightarrow> bool" where
  "tinv n s \<longleftrightarrow>
     (\<forall>k \<ge> n. place s k = Idle) \<and>
     (\<forall>t. \<forall>e \<in> set (fifo s t). entry_ok e) \<and>
     (\<forall>t e. flushing (place s t) = Some e \<longrightarrow> entry_ok e) \<and>
     (\<forall>t. distinct (notifying (place s t))) \<and>
     (\<forall>h r. updating (place s h) = Some r \<longrightarrow> request_ok h r) \<and>
     (\<forall>h r t. enqueuing (place s h) = Some (r, t) \<longrightarrow> request_ok h r \<and> entry_ok r \<and> mark s h \<le> length (executed s t)) \<and>
     (\<forall>h r t. pending (place s h) = Some (r, t) \<longrightarrow> request_ok h r \<and> mark s h \<le> length (executed s t)) \<and>
     (\<forall>k. carries s k (pending (place s k)))"

lemma tinvD:
  assumes "tinv n s"
  shows "n \<le> k \<Longrightarrow> place s k = Idle" "e \<in> set (fifo s t) \<Longrightarrow> entry_ok e" "flushing (place s t) = Some e \<Longrightarrow> entry_ok e"
    "distinct (notifying (place s t))" "updating (place s h) = Some r \<Longrightarrow> request_ok h r"
    "enqueuing (place s h) = Some (r, t) \<Longrightarrow> request_ok h r \<and> entry_ok r \<and> mark s h \<le> length (executed s t)"
    "pending (place s h) = Some (r, t) \<Longrightarrow> request_ok h r \<and> mark s h \<le> length (executed s t)"
    "carries s k (pending (place s k))"
  using assms by (simp_all add: tinv_def)

lemma carries_views:
  "carries s = carried (fifo s) (syncw s) (executed s) (mark s) (flushing \<circ> place s) (notifying \<circ> place s)"
  by (simp add: carries_def o_def)

lemma goto_simps [simp]:
  "place (goto h p s) = (place s)(h := p)" "fifo (goto h p s) = fifo s" "syncw (goto h p s) = syncw s"
  "tbit (goto h p s) = tbit s" "msip (goto h p s) = msip s" "executed (goto h p s) = executed s" "mark (goto h p s) = mark s"
  by (simp_all add: goto_def)

lemma view_upd: "f \<circ> g(h := p) = (f \<circ> g)(h := f p)"
  by (auto simp: fun_eq_iff)

lemma tinv_bits [simp]: "tinv n (s\<lparr>tbit := b\<rparr>) = tinv n s" "tinv n (s\<lparr>msip := b\<rparr>) = tinv n s"
  by (simp_all add: tinv_def carries_def)

text \<open>A hart moves on without touching what the others see.\<close>

lemma tinv_goto:
  assumes inv: "tinv n s" and "h < n"
    and same: "flushing p = flushing (place s h)" "notifying p = notifying (place s h)" "pending p = pending (place s h)"
    and upd: "\<And>r. updating p = Some r \<Longrightarrow> request_ok h r"
    and enq: "\<And>r t. enqueuing p = Some (r, t) \<Longrightarrow> request_ok h r \<and> entry_ok r \<and> mark s h \<le> length (executed s t)"
  shows "tinv n (goto h p s)"
proof -
  have "flushing \<circ> (place s)(h := p) = flushing \<circ> place s" "notifying \<circ> (place s)(h := p) = notifying \<circ> place s"
    "pending (((place s)(h := p)) k) = pending (place s k)" for k using same by auto
  then have "carries (goto h p s) k (pending (place (goto h p s) k))" for k
    using tinvD(8) [OF inv, of k] by (simp add: carries_views)
  then show ?thesis using inv assms unfolding tinv_def by auto
qed

lemma tinv_executed:
  assumes inv: "tinv n s"
  shows "tinv n (s\<lparr>executed := (executed s)(h := executed s h @ fs)\<rparr>)"
proof -
  let ?s = "s\<lparr>executed := (executed s)(h := executed s h @ fs)\<rparr>"
  have "carries ?s k (pending (place ?s k))" for k
    using carried_executed [OF tinvD(8) [OF inv, of k, unfolded carries_def]] tinvD(7) [OF inv]
    by (simp add: carries_def)
  then show ?thesis using inv unfolding tinv_def by (auto intro: trans_le_add1)
qed

text \<open>A request enters the queue of its target.\<close>

lemma tinv_add:
  assumes inv: "tinv n s" and "h < n"
    and none: "flushing (place s h) = None" "notifying (place s h) = []" "pending (place s h) = None"
    and r: "request_ok h r" and m: "M h \<le> length (executed s t)" "\<And>k. k \<noteq> h \<Longrightarrow> M k = mark s k"
    and add: "added h r (fifo s t) es"
  shows "tinv n (goto h (SetType r t ts) (s\<lparr>mark := M, fifo := (fifo s)(t := es)\<rparr>))" (is "tinv n ?s")
proof -
  let ?p = "SetType r t ts"
  have views: "flushing \<circ> (place s)(h := ?p) = flushing \<circ> place s" "notifying \<circ> (place s)(h := ?p) = notifying \<circ> place s"
    using none by auto
  have "carries ?s k (pending (place ?s k))" for k
  proof (cases "k = h")
    case True
    then show ?thesis using carried_new [where F = "fifo s" and t = t, OF add] tinvD(8) [OF inv, of h] none(3) by (simp add: carries_views views)
  next
    case False
    then show ?thesis
      using carried_added [where F = "fifo s" and t = t, OF add False] tinvD(8) [OF inv, of k] carried_mark [of M k "mark s"] m(2) by (simp add: carries_views views)
  qed
  moreover have "\<forall>e \<in> set es. entry_ok e" using add by (simp add: added_def)
  ultimately show ?thesis using inv assms unfolding tinv_def by auto
qed

lemma tinv_sync:
  assumes inv: "tinv n s" and p: "place s h = Sync r t ts" and S: "syncw s h" and "h < n"
  shows "tinv n (goto h (Update r ts) (s\<lparr>syncw := (syncw s)(h := False)\<rparr>))" (is "tinv n ?s")
proof -
  have views: "flushing \<circ> (place s)(h := Update r ts) = flushing \<circ> place s" "notifying \<circ> (place s)(h := Update r ts) = notifying \<circ> place s"
    using p by auto
  have "carries ?s k (pending (place ?s k))" for k
  proof (cases "k = h")
    case True
    then show ?thesis using carried_sync tinvD(8) [OF inv, of h] p S by (simp add: carries_views views)
  next
    case False
    then show ?thesis using carried_other_sync [OF False] tinvD(8) [OF inv, of k] by (simp add: carries_views views)
  qed
  moreover have "request_ok h r" using tinvD(7) [OF inv] p by simp
  ultimately show ?thesis using inv assms unfolding tinv_def by auto
qed

lemma tinv_dequeue:
  assumes inv: "tinv n s" and p: "place s h = Dequeue a" and f: "fifo s h = e # es" and "h < n"
  shows "tinv n (goto h (Flush e a) (s\<lparr>fifo := (fifo s)(h := es)\<rparr>))" (is "tinv n ?s")
proof -
  have "carries ?s k (pending (place ?s k))" for k
  proof -
    have "notifying \<circ> (place s)(h := Flush e a) = notifying \<circ> place s" "pending (((place s)(h := Flush e a)) k) = pending (place s k)"
      using p by auto
    then show ?thesis
      using carried_dequeue [OF tinvD(8) [OF inv, of k, unfolded carries_views] f] p by (simp add: carries_views view_upd)
  qed
  moreover have "entry_ok e" "\<forall>e \<in> set es. entry_ok e" using tinvD(2) [OF inv, of _ h] f by simp_all
  moreover have "after_enqueue a = Some (q, t) \<Longrightarrow> request_ok h q \<and> entry_ok q \<and> mark s h \<le> length (executed s t)"
    "after_pending a = Some (q, t) \<Longrightarrow> request_ok h q \<and> mark s h \<le> length (executed s t)" for q t
    using tinvD(6,7) [OF inv, of h q t] p by simp_all
  ultimately show ?thesis using inv assms unfolding tinv_def by auto
qed

lemma tinv_flush:
  assumes inv: "tinv n s" and p: "place s h = Flush e a" and c: "call_local_fn e = Some fs" and "h < n"
  shows "tinv n (goto h (Notify (sbi_hartmask_for_each_hart (smask e)) a)
    (s\<lparr>executed := (executed s)(h := executed s h @ fs)\<rparr>))" (is "tinv n ?s")
proof -
  let ?rs = "sbi_hartmask_for_each_hart (smask e)"
  have e: "entry_ok e" using tinvD(3) [OF inv, of h e] p by simp
  then have "mask_wf (smask e)" by (simp add: entry_ok_def)
  then have rs: "set ?rs = harts (smask e)" "distinct ?rs" using harts_below [of "smask e"] by (auto simp: for_each_hart_list)
  have "carries ?s k (pending (place ?s k))" for k
  proof -
    have "pending (((place s)(h := Notify ?rs a)) k) = pending (place s k)" using p by auto
    then show ?thesis
      using carried_flush [OF tinvD(8) [OF inv, of k, unfolded carries_views] _ _ rs(1) c] tinvD(7) [OF inv, of k] p
      by (simp add: carries_views view_upd)
  qed
  moreover have "after_enqueue a = Some (q, t) \<Longrightarrow> request_ok h q \<and> entry_ok q \<and> mark s h \<le> length (executed s t)"
    "after_pending a = Some (q, t) \<Longrightarrow> request_ok h q \<and> mark s h \<le> length (executed s t)" for q t
    using tinvD(6,7) [OF inv, of h q t] p by simp_all
  ultimately show ?thesis using inv assms(4) rs(2) unfolding tinv_def by (auto intro: trans_le_add1)
qed

lemma tinv_notify:
  assumes inv: "tinv n s" and p: "place s h = Notify (r # rs) a" and "h < n"
  shows "r < n" and "\<not> syncw s r"
    and "tinv n (goto h (Notify rs a) (s\<lparr>syncw := (syncw s)(r := True)\<rparr>))" (is "tinv n ?s")
proof -
  have N: "(notifying \<circ> place s) h = r # rs" "distinct ((notifying \<circ> place s) h)" using p tinvD(4) [OF inv, of h] by simp_all
  note noted = carried_notified [OF tinvD(8) [OF inv, of r, unfolded carries_views] N]
  show "\<not> syncw s r" by (rule noted(1))
  have "pending (place s r) \<noteq> None" using noted(2) by auto
  then show "r < n" using tinvD(1) [OF inv, of r] by (metis not_le pending.simps(7))
  have "carries ?s k (pending (place ?s k))" for k
  proof -
    let ?u = "s\<lparr>syncw := (syncw s)(r := True)\<rparr>"
    have u: "fifo ?u = fifo s" "syncw ?u = (syncw s)(r := True)" "executed ?u = executed s" "mark ?u = mark s" "place ?u = place s"
      by simp_all
    have v: "(flushing \<circ> place s)(h := None) = flushing \<circ> place s" "pending (((place s)(h := Notify rs a)) k) = pending (place s k)"
      using p by auto
    have "carried (fifo s) ((syncw s)(r := True)) (executed s) (mark s) (flushing \<circ> place s)
        ((notifying \<circ> place s)(h := rs)) k (pending (place s k))"
    proof (cases "k = r")
      case True
      then show ?thesis using noted(3) by (simp only:)
    next
      case False
      note same = carried_notify [OF tinvD(8) [OF inv, of k, unfolded carries_views] N False]
      show ?thesis unfolding same carried_other_sync [OF False] by (rule tinvD(8) [OF inv, of k, unfolded carries_views])
    qed
    then show ?thesis unfolding carries_views by (simp only: goto_simps u view_upd v notifying.simps flushing.simps)
  qed
  moreover have "after_enqueue a = Some (q, t) \<Longrightarrow> request_ok h q \<and> entry_ok q \<and> mark s h \<le> length (executed s t)"
    "after_pending a = Some (q, t) \<Longrightarrow> request_ok h q \<and> mark s h \<le> length (executed s t)" for q t
    using tinvD(6,7) [OF inv, of h q t] p by simp_all
  ultimately show "tinv n ?s" using inv assms(3) N(2) p unfolding tinv_def by auto
qed

lemma limit_ok:
  assumes "request_ok h r" and "unat limit \<le> 18446744073709547520"
  shows "request_ok h (tlb_limit limit r)" and "entry_ok (tlb_limit limit r)"
proof -
  have "unat SBI_TLB_FLUSH_ALL = 18446744073709551615" by (simp add: SBI_TLB_FLUSH_ALL_def)
  then show "request_ok h (tlb_limit limit r)" "entry_ok (tlb_limit limit r)"
    using assms by (auto simp: request_ok_def entry_ok_def tlb_limit_def word_less_nat_alt SBI_TLB_FLUSH_ALL_def)
qed

lemma update_step_inv:
  assumes inv: "tinv n s" and h: "h < n" and p: "place s h = Update r ts" and l: "unat limit \<le> 18446744073709547520"
    and u: "update_step limit h r ts s = Some s'"
  shows "tinv n s'"
proof (cases ts)
  case Nil
  then show ?thesis using u p by (auto simp: update_step_def intro!: tinv_goto [OF inv h])
next
  case (Cons t rest)
  let ?r = "tlb_limit limit r"
  have r: "request_ok h ?r" "entry_ok ?r" using limit_ok [OF _ l] tinvD(5) [OF inv, of h r] p by simp_all
  show ?thesis
  proof (cases "t = h")
    case True
    then obtain fs where s': "s' = goto h (Update ?r rest) (s\<lparr>executed := (executed s)(h := executed s h @ fs)\<rparr>)"
      using u Cons by (auto simp: update_step_def Let_def split: option.splits)
    show ?thesis unfolding s' using p r(1) h by (intro tinv_goto [OF tinv_executed [OF inv]]) auto
  next
    case False
    obtain ret es where i: "inplace_list (tlb_update_cb ?r) (fifo s t) = (ret, es)" by fastforce
    let ?M = "(mark s)(h := length (executed s t))"
    have s': "s' = (if ret = SBI_FIFO_UNCHANGED then goto h (Enqueue ?r t rest) (s\<lparr>mark := ?M\<rparr>)
        else goto h (SetType ?r t rest) (s\<lparr>mark := ?M, fifo := (fifo s)(t := es)\<rparr>))"
      using u Cons False i by (auto simp: update_step_def Let_def)
    show ?thesis
    proof (cases "ret = SBI_FIFO_UNCHANGED")
      case True
      have "carries (s\<lparr>mark := ?M\<rparr>) k (pending (place s k))" for k
        using tinvD(8) [OF inv, of k] p carried_mark [of ?M k "mark s"] carried_mark_none [of _ _ _ ?M _ _ _ "mark s"]
        by (cases "k = h") (simp_all add: carries_def)
      then have "tinv n (s\<lparr>mark := ?M\<rparr>)" using inv p unfolding tinv_def by auto
      then show ?thesis using True r h p unfolding s' by (auto intro!: tinv_goto)
    next
      case F: False
      have "carries s h None" using tinvD(8) [OF inv, of h] p by simp
      then have "waiting h (fifo s t) = 0" by (simp add: carries_def carried_def tokens_def)
      then have "added h ?r (fifo s t) es"
        using added_inplace [OF r(2) _ _ _ i, of h] F r(1) tinvD(2) [OF inv] by (auto simp: request_ok_def)
      then show ?thesis unfolding s' using F p r(1) h inv by (auto intro!: tinv_add)
    qed
  qed
qed

lemma hart_next_inv:
  assumes inv: "tinv n s" and h: "h < n" and l: "unat limit \<le> 18446744073709547520"
    and s': "hart_next n limit h s = Some s'"
  shows "tinv n s'"
proof (cases "place s h")
  case (Update r ts)
  then show ?thesis using s' by (intro update_step_inv [OF inv h Update l]) (simp add: hart_next_def)
next
  case (Enqueue r t ts)
  note e = tinvD(6) [OF inv, of h r t]
  show ?thesis
  proof (cases "length (fifo s t) < SBI_TLB_FIFO_NUM_ENTRIES")
    case True
    have "added h r (fifo s t) (fifo s t @ [r])" using e Enqueue tinvD(2) [OF inv] by (intro added_append) (auto simp: request_ok_def)
    then have "tinv n (goto h (SetType r t ts) (s\<lparr>mark := mark s, fifo := (fifo s)(t := fifo s t @ [r])\<rparr>))"
      using e Enqueue h inv by (intro tinv_add) auto
    then show ?thesis using s' Enqueue True by (simp add: hart_next_def enqueue_step_def)
  next
    case False
    then show ?thesis using s' Enqueue e h by (auto simp: hart_next_def enqueue_step_def intro!: tinv_goto [OF inv])
  qed
next
  case (SetType r t ts)
  then show ?thesis using s' inv h by (auto simp: hart_next_def intro!: tinv_goto)
next
  case (Kick r t ts)
  then show ?thesis using s' inv h by (auto simp: hart_next_def intro!: tinv_goto)
next
  case (Sync r t ts)
  then show ?thesis using s' inv h tinv_sync [OF inv Sync _ h] by (auto simp: hart_next_def sync_step_def intro!: tinv_goto)
next
  case Received
  then show ?thesis using s' inv h by (auto simp: hart_next_def intro!: tinv_goto)
next
  case (Dequeue a)
  then show ?thesis using s' inv h tinv_dequeue [OF inv Dequeue _ h] tinvD(6) [OF inv, of h]
    by (auto simp: hart_next_def dequeue_step_def split: list.splits intro!: tinv_goto)
next
  case (Flush e a)
  then show ?thesis using s' tinv_flush [OF inv Flush _ h] by (auto simp: hart_next_def flush_step_def split: option.splits)
next
  case (Notify rs a)
  show ?thesis
  proof (cases rs)
    case Nil
    then show ?thesis using s' Notify inv h tinvD(6) [OF inv, of h]
      by (auto simp: hart_next_def notify_step_def intro!: tinv_goto)
  next
    case (Cons r rest)
    then show ?thesis using s' Notify tinv_notify [OF inv Notify [unfolded Cons] h] by (auto simp: hart_next_def notify_step_def)
  qed
qed (use s' in \<open>simp add: hart_next_def\<close>)

lemma tstep_inv:
  assumes "tstep n limit s s'" and inv: "tinv n s" and l: "unat limit \<le> 18446744073709547520"
  shows "tinv n s'"
  using assms(1)
proof cases
  case (step_run h)
  then show ?thesis using hart_next_inv [OF inv _ l] by blast
next
  case (step_request h r ts)
  then show ?thesis using inv by (auto intro!: tinv_goto)
next
  case (step_interrupt h)
  then show ?thesis using inv by (auto intro!: tinv_goto)
qed

lemma treach_inv:
  assumes "treach n limit s" and "unat limit \<le> 18446744073709547520"
  shows "tinv n s"
  using assms(1)
proof induction
  case (reach_init s)
  then show ?case by (simp add: tinv_def carries_def carried_def tokens_def)
next
  case (reach_step s s')
  then show ?case using tstep_inv [OF reach_step(2) _ assms(2)] by blast
qed

section \<open>From a request to its return\<close>

text \<open>The targets a hart has not finished, and the request it works on.\<close>

fun after_rest :: "after \<Rightarrow> nat list" where
  "after_rest ToIdle = []"
| "after_rest (ToEnqueue r t ts c) = t # ts"
| "after_rest (ToSync r t ts c) = t # ts"

fun rest :: "tlb_place \<Rightarrow> nat list" where
  "rest (Update r ts) = ts"
| "rest (Enqueue r t ts) = t # ts"
| "rest (SetType r t ts) = t # ts"
| "rest (Kick r t ts) = t # ts"
| "rest (Sync r t ts) = t # ts"
| "rest (Dequeue a) = after_rest a"
| "rest (Flush e a) = after_rest a"
| "rest (Notify rs a) = after_rest a"
| "rest _ = []"

text \<open>The hart at its own request: any place but idle and those of the interrupt handler.\<close>

definition at_request :: "tlb_place \<Rightarrow> bool" where
  "at_request p \<longleftrightarrow> updating p \<noteq> None \<or> enqueuing p \<noteq> None \<or> pending p \<noteq> None"

lemma leave_again_rest [simp]: "rest (leave a) = after_rest a" "rest (again a) = after_rest a"
  by (cases a; simp add: leave_def again_def)+

text \<open>The system runs while hart \<open>h\<close> is at its request.\<close>

inductive busy_run :: "nat \<Rightarrow> u64 \<Rightarrow> nat \<Rightarrow> tlb_machine \<Rightarrow> tlb_machine \<Rightarrow> bool"
  for n limit h s0 where
  busy_start: "busy_run n limit h s0 s0"
| busy_step: "busy_run n limit h s0 s \<Longrightarrow> place s h \<noteq> Idle \<Longrightarrow> tstep n limit s s' \<Longrightarrow>
    busy_run n limit h s0 s'"

definition served :: "u64 \<Rightarrow> nat \<Rightarrow> sbi_tlb_info \<Rightarrow> nat list \<Rightarrow> tlb_machine \<Rightarrow> tlb_machine \<Rightarrow> bool" where
  "served limit h r ts s0 s \<longleftrightarrow>
     (\<forall>t. \<exists>fs. executed s t = executed s0 t @ fs) \<and>
     (place s h = Idle \<or> at_request (place s h)) \<and>
     (\<forall>q. updating (place s h) = Some q \<longrightarrow> tlb_limit limit q = tlb_limit limit r) \<and>
     (\<forall>q t. enqueuing (place s h) = Some (q, t) \<or> pending (place s h) = Some (q, t) \<longrightarrow>
        q = tlb_limit limit r \<and> length (executed s0 t) \<le> mark s h) \<and>
     (\<exists>ts1. ts = ts1 @ rest (place s h) \<and>
        (\<forall>t \<in> set ts1. flushed (executed s) (length (executed s0 t)) (tlb_limit limit r) t))"

lemma tlb_limit_idem: "tlb_limit limit (tlb_limit limit r) = tlb_limit limit r"
  by (auto simp: tlb_limit_def)

lemma flushed_grow:
  assumes "flushed X m r t" and "Y t = X t @ fs" and "m \<le> length (X t)"
  shows "flushed Y m r t"
  using assms unfolding flushed_def by fastforce

lemma flushed_since:
  assumes "flushed X m r t" and "k \<le> m"
  shows "flushed X k r t"
proof -
  have "set (drop m (X t)) \<subseteq> set (drop k (X t))" using assms(2) by (rule set_drop_subset_set_drop)
  then show ?thesis using assms(1) unfolding flushed_def by blast
qed

text \<open>What a step of one hart leaves alone.\<close>

lemma hart_next_executed:
  assumes "hart_next n limit h s = Some s'"
  shows "\<exists>fs. executed s' t = executed s t @ fs"
  using assms
  by (cases "place s h"; auto simp: hart_next_def update_step_def enqueue_step_def sync_step_def dequeue_step_def flush_step_def
      notify_step_def Let_def split: list.splits option.splits prod.splits if_splits)

lemma hart_next_other:
  assumes "hart_next n limit k s = Some s'" and "k \<noteq> h"
  shows "place s' h = place s h" and "mark s' h = mark s h"
  using assms
  by (cases "place s k"; auto simp: hart_next_def update_step_def enqueue_step_def sync_step_def dequeue_step_def flush_step_def
      notify_step_def Let_def split: list.splits option.splits prod.splits if_splits)+

lemma served_other:
  assumes "served limit h r ts s0 s" and "place s' h = place s h" and "mark s' h = mark s h"
    and "\<And>t. \<exists>fs. executed s' t = executed s t @ fs"
  shows "served limit h r ts s0 s'"
proof -
  have "\<exists>fs. executed s' t = executed s0 t @ fs" for t
    using assms(1) assms(4) [of t] unfolding served_def by (metis append.assoc)
  moreover have "flushed (executed s') (length (executed s0 t)) q t"
    if f: "flushed (executed s) (length (executed s0 t)) q t" for q t
  proof -
    obtain fs where "executed s' t = executed s t @ fs" using assms(4) by blast
    moreover have "length (executed s0 t) \<le> length (executed s t)"
      using assms(1) unfolding served_def by (metis le_add1 length_append)
    ultimately show ?thesis by (rule flushed_grow [OF f])
  qed
  moreover obtain ts1 where "ts = ts1 @ rest (place s h)"
    "\<forall>t \<in> set ts1. flushed (executed s) (length (executed s0 t)) (tlb_limit limit r) t"
    using assms(1) by (auto simp: served_def)
  ultimately have "\<exists>ts1. ts = ts1 @ rest (place s' h) \<and> (\<forall>t \<in> set ts1. flushed (executed s') (length (executed s0 t)) (tlb_limit limit r) t)"
    "\<forall>t. \<exists>fs. executed s' t = executed s0 t @ fs" using assms(2) by auto
  then show ?thesis using assms(1) by (simp add: served_def assms(2,3))
qed

text \<open>A step within the work on one target.\<close>

lemma served_move:
  assumes "served limit h r ts s0 s" and "mark s' h = mark s h" and "\<And>t. \<exists>fs. executed s' t = executed s t @ fs"
    and "at_request (place s' h)" and "updating (place s' h) = None" and "rest (place s' h) = rest (place s h)"
    and "\<And>q t. enqueuing (place s' h) = Some (q, t) \<or> pending (place s' h) = Some (q, t) \<Longrightarrow>
      enqueuing (place s h) = Some (q, t) \<or> pending (place s h) = Some (q, t)"
  shows "served limit h r ts s0 s'"
proof -
  have "served limit h r ts s0 (goto h (place s h) s')"
    by (rule served_other [OF assms(1)]) (use assms(2,3) in auto)
  then have old: "\<forall>t. \<exists>fs. executed s' t = executed s0 t @ fs"
    "\<forall>q t. enqueuing (place s h) = Some (q, t) \<or> pending (place s h) = Some (q, t) \<longrightarrow>
      q = tlb_limit limit r \<and> length (executed s0 t) \<le> mark s' h"
    "\<exists>ts1. ts = ts1 @ rest (place s h) \<and> (\<forall>t \<in> set ts1. flushed (executed s') (length (executed s0 t)) (tlb_limit limit r) t)"
    by (simp_all add: served_def)
  have "\<forall>q t. enqueuing (place s' h) = Some (q, t) \<or> pending (place s' h) = Some (q, t) \<longrightarrow>
      q = tlb_limit limit r \<and> length (executed s0 t) \<le> mark s' h"
    using old(2) assms(7) by blast
  then show ?thesis unfolding served_def using old(1,3) assms(4-6) by simp
qed

lemma served_update:
  assumes s: "served limit h r ts s0 s" and p: "place s h = Update q us"
    and u: "update_step limit h q us s = Some s'"
  shows "served limit h r ts s0 s'"
proof -
  have q: "tlb_limit limit q = tlb_limit limit r" using s p by (auto simp: served_def)
  have grow: "\<exists>fs. executed s t = executed s0 t @ fs" for t using s by (simp add: served_def)
  then have le: "length (executed s0 t) \<le> length (executed s t)" for t by (metis le_add1 length_append)
  obtain ts1 where ts1: "ts = ts1 @ us" "\<forall>t \<in> set ts1. flushed (executed s) (length (executed s0 t)) (tlb_limit limit r) t"
    using s p by (auto simp: served_def)
  show ?thesis
  proof (cases us)
    case Nil
    then show ?thesis using u s p by (auto simp: update_step_def served_def)
  next
    case (Cons t vs)
    show ?thesis
    proof (cases "t = h")
      case True
      then obtain fs where fs: "call_local_fn (tlb_limit limit r) = Some fs"
        and s': "s' = goto h (Update (tlb_limit limit r) vs) (s\<lparr>executed := (executed s)(h := executed s h @ fs)\<rparr>)"
        using u Cons q by (auto simp: update_step_def Let_def split: option.splits)
      have grow': "\<exists>gs. executed s' k = executed s k @ gs" for k by (simp add: s')
      have "flushed (executed s') (length (executed s0 k)) (tlb_limit limit r) k" if k: "k \<in> set (ts1 @ [h])" for k
      proof (cases "k = h")
        case True
        have "set fs \<subseteq> set (drop (length (executed s0 h)) (executed s h @ fs))" using le [of h] by simp
        then show ?thesis using True fs unfolding flushed_def s' by (auto intro: subsumes_refl)
      next
        case False
        then have "flushed (executed s) (length (executed s0 k)) (tlb_limit limit r) k" using k ts1(2) by simp
        then show ?thesis using False by (simp add: s' flushed_def)
      qed
      moreover have "\<exists>gs. executed s' k = executed s0 k @ gs" for k using grow [of k] grow' [of k] by (metis append.assoc)
      moreover have "place s' h = Update (tlb_limit limit r) vs" by (simp add: s')
      moreover have "ts = (ts1 @ [h]) @ vs" using ts1(1) Cons True by simp
      ultimately show ?thesis unfolding served_def by (auto simp: at_request_def tlb_limit_idem)
    next
      case False
      obtain es where s': "mark s' = (mark s)(h := length (executed s t))" "executed s' = executed s"
          "place s' h = Enqueue (tlb_limit limit r) t vs \<or> place s' h = SetType (tlb_limit limit r) t vs"
        using u Cons False q by (auto simp: update_step_def Let_def split: prod.splits if_splits)
      then show ?thesis using s p ts1 le Cons unfolding served_def by (auto simp: at_request_def)
    qed
  qed
qed

lemma served_sync:
  assumes s: "served limit h r ts s0 s" and p: "place s h = Sync q t us" and inv: "tinv n s"
  shows "served limit h r ts s0 (sync_step h q t us s)"
proof (cases "syncw s h")
  case True
  have q: "q = tlb_limit limit r" "length (executed s0 t) \<le> mark s h" using s p by (auto simp: served_def)
  obtain ts1 where ts1: "ts = ts1 @ t # us" "\<forall>t \<in> set ts1. flushed (executed s) (length (executed s0 t)) q t"
    using s p q(1) by (auto simp: served_def)
  have "flushed (executed s) (mark s h) q t" using tinvD(8) [OF inv, of h] p True by (simp add: carries_def carried_def)
  then have "flushed (executed s) (length (executed s0 t)) q t" using q(2) by (rule flushed_since)
  then have "ts = (ts1 @ [t]) @ us \<and> (\<forall>k \<in> set (ts1 @ [t]). flushed (executed s) (length (executed s0 k)) (tlb_limit limit r) k)"
    using ts1 q(1) by simp
  moreover have "\<forall>k. \<exists>fs. executed s k = executed s0 k @ fs" using s by (simp add: served_def)
  ultimately show ?thesis using True q(1) by (auto simp: served_def sync_step_def at_request_def tlb_limit_idem)
next
  case False
  then show ?thesis using p by (intro served_move [OF s]) (auto simp: sync_step_def at_request_def)
qed

lemma served_next:
  assumes s: "served limit h r ts s0 s" and inv: "tinv n s" and "place s h \<noteq> Idle"
    and s': "hart_next n limit h s = Some s'"
  shows "served limit h r ts s0 s'"
proof -
  have a: "at_request (place s h)" using s assms(3) by (simp add: served_def)
  note grow = hart_next_executed [OF s']
  show ?thesis
  proof (cases "place s h")
    case (Update q us)
    then show ?thesis using s' by (intro served_update [OF s Update]) (simp add: hart_next_def)
  next
    case (Sync q t us)
    then show ?thesis using s' served_sync [OF s Sync inv] by (simp add: hart_next_def)
  next
    case (Enqueue q t us)
    then show ?thesis using s' by (intro served_move [OF s _ grow]) (auto simp: hart_next_def enqueue_step_def at_request_def split: if_splits)
  next
    case (SetType q t us)
    then show ?thesis using s' by (intro served_move [OF s _ grow]) (auto simp: hart_next_def at_request_def)
  next
    case (Kick q t us)
    then show ?thesis using s' by (intro served_move [OF s _ grow]) (auto simp: hart_next_def at_request_def)
  next
    case (Dequeue x)
    then show ?thesis using s' a
      by (intro served_move [OF s _ grow]) (auto simp: hart_next_def dequeue_step_def at_request_def split: list.splits)
  next
    case (Flush e x)
    then show ?thesis using s' a
      by (intro served_move [OF s _ grow]) (auto simp: hart_next_def flush_step_def at_request_def split: option.splits)
  next
    case (Notify rs x)
    then show ?thesis using s' a
      by (intro served_move [OF s _ grow]) (auto simp: hart_next_def notify_step_def at_request_def split: list.splits if_splits)
  qed (use a in \<open>simp_all add: at_request_def\<close>)
qed

lemma busy_run_served:
  assumes "busy_run n limit h s0 s" and "treach n limit s0" and l: "unat limit \<le> 18446744073709547520"
    and "place s0 h = Update r ts"
  shows "served limit h r ts s0 s \<and> treach n limit s"
  using assms(1)
proof induction
  case busy_start
  then show ?case using assms(2,4) by (auto simp: served_def at_request_def)
next
  case (busy_step s s')
  then have reach: "treach n limit s" and s: "served limit h r ts s0 s" by simp_all
  have "served limit h r ts s0 s'"
    using busy_step(3)
  proof cases
    case (step_run k)
    show ?thesis
    proof (cases "k = h")
      case True
      then show ?thesis using served_next [OF s treach_inv [OF reach l] busy_step(2)] step_run(2) by simp
    next
      case False
      show ?thesis by (rule served_other [OF s hart_next_other [OF step_run(2) False] hart_next_executed [OF step_run(2)]])
    qed
  next
    case (step_request k q us)
    then have "k \<noteq> h" using busy_step(2) by auto
    with step_request show ?thesis by (intro served_other [OF s]) auto
  next
    case (step_interrupt k)
    then have "k \<noteq> h" using busy_step(2) by auto
    with step_interrupt show ?thesis by (intro served_other [OF s]) auto
  qed
  then show ?case using reach_step [OF reach busy_step(3)] by blast
qed

section \<open>Properties\<close>

text \<open>
  C10: When a remote fence returns, it has happened. From any reachable state of the harts, under every
  interleaving and with any number of other requests merged into the queues, a hart that works
  on a request and has come back has had every remaining target hart execute, since that
  state, fences that do what the request asks for. (Requests for supervisor fences start at a page
  boundary, end within the address space and are not the pair of zeros.)
\<close>

theorem remote_fence_complete:
  assumes "treach n limit s0" and "unat limit \<le> 18446744073709547520" and "place s0 h = Update r ts"
    and "busy_run n limit h s0 s" and "place s h = Idle" and "t \<in> set ts"
    and "call_local_fn r = Some fs" and "f \<in> set fs"
  shows "\<exists>g \<in> set (drop (length (executed s0 t)) (executed s t)). subsumes g f"
proof -
  have "served limit h r ts s0 s" using busy_run_served [OF assms(4,1-3)] by blast
  then have "flushed (executed s) (length (executed s0 t)) (tlb_limit limit r) t"
    using assms(5,6) by (auto simp: served_def)
  moreover obtain gs where gs: "call_local_fn (tlb_limit limit r) = Some gs" "\<exists>g \<in> set gs. subsumes g f"
    using limit_covers [of limit r] assms(7,8) unfolding covers_def by blast
  ultimately show ?thesis unfolding flushed_def by (metis subsumes_trans)
qed

text \<open>
  The exchange that acknowledges a request never meets a word that is still set, so that no
  hart spins there, and the harts to notify exist.
\<close>

lemma notify_never_spins:
  assumes "treach n limit s" and "unat limit \<le> 18446744073709547520" and "place s h = Notify (r # rs) a" and "h < n"
  shows "r < n \<and> \<not> syncw s r"
  using tinv_notify(1,2) [OF treach_inv [OF assms(1,2)] assms(3,4)] by blast

definition sample_request :: sbi_tlb_info where
  "sample_request = tlb_info_init 0x5000 0x1000 0 0 Sfence_vma 0"

text \<open>Two harts, of which the first makes the request and the second serves it.\<close>

definition two_harts :: "tlb_place \<Rightarrow> tlb_place \<Rightarrow> sbi_tlb_info list \<Rightarrow> bool \<Rightarrow> bool \<Rightarrow> bool \<Rightarrow> fence list \<Rightarrow> tlb_machine" where
  "two_harts p q es y b m fs =
     \<lparr>place = (\<lambda>_. Idle)(0 := p, Suc 0 := q), fifo = (\<lambda>_. [])(Suc 0 := es), syncw = (\<lambda>_. False)(0 := y),
      tbit = (\<lambda>_. False)(Suc 0 := b), msip = (\<lambda>_. False)(Suc 0 := m), executed = (\<lambda>_. [])(Suc 0 := fs), mark = (\<lambda>_. 0)\<rparr>"

lemma two_harts_read:
  "place (two_harts p q es y b m fs) 0 = p" "place (two_harts p q es y b m fs) (Suc 0) = q"
  "fifo (two_harts p q es y b m fs) (Suc 0) = es" "syncw (two_harts p q es y b m fs) 0 = y"
  "tbit (two_harts p q es y b m fs) (Suc 0) = b" "msip (two_harts p q es y b m fs) (Suc 0) = m"
  "executed (two_harts p q es y b m fs) (Suc 0) = fs"
  by (simp_all add: two_harts_def)

lemma two_harts_write:
  "goto 0 p' (two_harts p q es y b m fs) = two_harts p' q es y b m fs"
  "goto (Suc 0) q' (two_harts p q es y b m fs) = two_harts p q' es y b m fs"
  "(two_harts p q es y b m fs)\<lparr>fifo := (fifo (two_harts p q es y b m fs))(Suc 0 := es')\<rparr> = two_harts p q es' y b m fs"
  "(two_harts p q es y b m fs)\<lparr>syncw := (syncw (two_harts p q es y b m fs))(0 := y')\<rparr> = two_harts p q es y' b m fs"
  "(two_harts p q es y b m fs)\<lparr>tbit := (tbit (two_harts p q es y b m fs))(Suc 0 := b')\<rparr> = two_harts p q es y b' m fs"
  "(two_harts p q es y b m fs)\<lparr>msip := (msip (two_harts p q es y b m fs))(Suc 0 := m')\<rparr> = two_harts p q es y b m' fs"
  "(two_harts p q es y b m fs)\<lparr>executed := (executed (two_harts p q es y b m fs))(Suc 0 := fs')\<rparr> = two_harts p q es y b m fs'"
  "(two_harts p q es y b m fs)\<lparr>mark := (mark (two_harts p q es y b m fs))(0 := 0)\<rparr> = two_harts p q es y b m fs"
  by (auto simp: two_harts_def goto_def fun_eq_iff)

lemma sample_request_props:
  "request_ok 0 sample_request" "tlb_limit 0x1000 sample_request = sample_request"
  "call_local_fn sample_request = Some [SfenceVa 0x5000]" "sbi_hartmask_for_each_hart (smask sample_request) = [0]"
proof -
  have m: "harts (smask sample_request) = {0}" "mask_wf (smask sample_request)"
    by (simp_all add: sample_request_def tlb_info_smask SBI_HARTMASK_MAX_BITS_def)
  show "request_ok 0 sample_request"
    using m by (simp add: request_ok_def) (simp add: sample_request_def tlb_info_init_def)
  show "tlb_limit 0x1000 sample_request = sample_request" by (simp add: tlb_limit_def sample_request_def tlb_info_init_def)
  show "call_local_fn sample_request = Some [SfenceVa 0x5000]"
    by (simp add: sample_request_def tlb_info_init_def call_local_fn_def sbi_tlb_local_sfence_vma_def whole_def page_loop_one
        SBI_TLB_FLUSH_ALL_def)
  have "filter (\<lambda>h. h = 0) [0..<128] = [0 :: nat]" by (simp add: upt_rec)
  then show "sbi_hartmask_for_each_hart (smask sample_request) = [0]"
    using m by (simp add: for_each_hart_list SBI_HARTMASK_MAX_BITS_def)
qed

lemma busy_next:
  assumes "busy_run n limit h s0 s" and "place s h \<noteq> Idle" and "k < n" and "hart_next n limit k s = Some s'"
  shows "busy_run n limit h s0 s'"
  by (rule busy_step [OF assms(1,2) step_run [OF assms(3,4)]])

theorem remote_fence_complete_witness:
  "\<exists>s0 s. treach 2 0x1000 s0 \<and> place s0 0 = Update sample_request [1] \<and> busy_run 2 0x1000 0 s0 s \<and> place s 0 = Idle \<and>
     (\<exists>g \<in> set (drop (length (executed s0 1)) (executed s 1)). subsumes g (SfenceVa 0x5000))"
proof -
  let ?r = sample_request
  let ?start = "two_harts (Update ?r [1]) Idle [] False False False []"
  let ?busy = "busy_run 2 0x1000 0 ?start"
  note defs = hart_next_def update_step_def enqueue_step_def sync_step_def dequeue_step_def flush_step_def notify_step_def Let_def
    sample_request_props SBI_TLB_FIFO_NUM_ENTRIES_def two_harts_read two_harts_write
  let ?i = "two_harts Idle Idle [] False False False []"
  have "treach 2 0x1000 (goto 0 (Update ?r [1]) ?i)"
    by (rule reach_step [OF reach_init step_request]) (simp_all add: sample_request_props two_harts_def)
  then have reach: "treach 2 0x1000 ?start" by (simp add: two_harts_write)
  have b1: "?busy (two_harts (Enqueue ?r 1 []) Idle [] False False False [])"
    by (rule busy_next [OF busy_start, where k = 0]) (simp_all add: defs)
  have b2: "?busy (two_harts (SetType ?r 1 []) Idle [?r] False False False [])"
    by (rule busy_next [OF b1, of 0]) (simp_all add: defs)
  have b3: "?busy (two_harts (Kick ?r 1 []) Idle [?r] False True False [])"
    by (rule busy_next [OF b2, of 0]) (simp_all add: defs)
  have b4: "?busy (two_harts (Sync ?r 1 []) Idle [?r] False True True [])"
    by (rule busy_next [OF b3, of 0]) (simp_all add: defs)
  have "?busy (goto 1 Received ((two_harts (Sync ?r 1 []) Idle [?r] False True True [])\<lparr>msip :=
      (msip (two_harts (Sync ?r 1 []) Idle [?r] False True True []))(1 := False)\<rparr>))"
    by (rule busy_step [OF b4 _ step_interrupt]) (simp_all add: two_harts_read)
  then have b5: "?busy (two_harts (Sync ?r 1 []) Received [?r] False True False [])" by (simp add: two_harts_write)
  have b6: "?busy (two_harts (Sync ?r 1 []) (Dequeue ToIdle) [?r] False False False [])"
    by (rule busy_next [OF b5, of 1]) (simp_all add: defs)
  have b7: "?busy (two_harts (Sync ?r 1 []) (Flush ?r ToIdle) [] False False False [])"
    by (rule busy_next [OF b6, of 1]) (simp_all add: defs)
  have b8: "?busy (two_harts (Sync ?r 1 []) (Notify [0] ToIdle) [] False False False [SfenceVa 0x5000])"
    by (rule busy_next [OF b7, of 1]) (simp_all add: defs)
  have b9: "?busy (two_harts (Sync ?r 1 []) (Notify [] ToIdle) [] True False False [SfenceVa 0x5000])"
    by (rule busy_next [OF b8, of 1]) (simp_all add: defs)
  have b10: "?busy (two_harts (Update ?r []) (Notify [] ToIdle) [] False False False [SfenceVa 0x5000])"
    by (rule busy_next [OF b9, of 0]) (simp_all add: defs)
  let ?fin = "two_harts Idle (Notify [] ToIdle) [] False False False [SfenceVa 0x5000]"
  have b11: "?busy ?fin" by (rule busy_next [OF b10, of 0]) (simp_all add: defs)
  have p: "place ?start 0 = Update ?r [1]" "place ?fin 0 = Idle" by (simp_all add: two_harts_read)
  have "\<exists>g \<in> set (drop (length (executed ?start 1)) (executed ?fin 1)). subsumes g (SfenceVa 0x5000)"
    by (rule remote_fence_complete [OF reach _ p(1) b11 p(2), of 1 "[SfenceVa 0x5000]"]) (simp_all add: sample_request_props)
  then show ?thesis using reach p b11 by blast
qed

end
