(* ===== verification/Spec2Isabelle.thy ===== *)
theory Spec2Isabelle
  imports Kernel UserCopy Kprintf SbiRoot SbiHsmRun SbiTimer SbiTlbRun
begin

text \<open>
  \<^bold>\<open>A small RISC-V kernel and the firmware below it.\<close>

  \<^medskip>\<^bold>\<open>The program.\<close> The repository holds a teaching kernel for 64-bit RISC-V
  (\<^verbatim>\<open>os/\<close>), the machine-mode firmware it runs on (\<^verbatim>\<open>opensbi-1.2/\<close>) and the
  emulator that plays the board (\<^verbatim>\<open>qemu/\<close>). At reset the board code
  (\<^verbatim>\<open>boot/\<close>) enters the firmware. The firmware gives every hart (hardware thread) a
  scratch area, divides harts and memory into domains, starts the boot hart of each domain,
  and from then on answers the environment calls of the supervisor. The kernel builds its page
  table, loads the first program from an ELF image linked into it, and runs up to ten processes
  under round-robin scheduling; user code enters the kernel through traps.

  \<^medskip>\<^bold>\<open>The kernel.\<close> Physical memory, the frame allocator and the console output
  are the record \<open>pmem\<close>; the task array, the scheduler's variables and the control
  registers extend it to \<open>kstate\<close>; the suspended kernel stacks extend that to
  \<open>kmachine\<close>. Operations are functions on these records, polymorphic in the
  extension, so that the memory code runs unchanged inside the kernel. A panic, a failed
  assertion, a bad pointer or an index out of range is a value of \<open>kerror\<close>, and
  \<open>bindE\<close> is sequencing.

  \<^item> \<open>Prelude\<close>, \<open>Memory\<close>, \<open>Address\<close>: machine integers, results, the byte
    memory with little-endian access, \<^verbatim>\<open>memset\<close> and \<^verbatim>\<open>memcpy\<close>; addresses and
    page-table entries (\<^verbatim>\<open>os/include/address.h\<close>, the conversions of
    \<^verbatim>\<open>os/src/address.c\<close>). The lemmas give every conversion as a bit field.
  \<^item> \<open>Kstack\<close>, \<open>FrameAlloc\<close>: the stack of \<^verbatim>\<open>os/src/stack.c\<close> and the frame
    allocator. The locales \<open>lifo\<close> and \<open>frame_source\<close> state what the clients use; both
    are interpreted on the code. Shown: no live frame is handed out twice, a frame handed out
    is zeroed, and a released frame comes back unless the stack of 10000 entries is full.
  \<^item> \<open>PageTable\<close>, \<open>PageMap\<close>, \<open>PageRange\<close>, \<open>PageFree\<close>: the three-level page
    tables of \<^verbatim>\<open>os/src/address.c\<close>. A table tree is abstracted to a map from page numbers to
    entries (\<open>pt_lookup\<close>). Shown: mapping is an update of that map which touches only
    frames of this tree, when it fails and when it returns (locale \<open>page_mapper\<close>), and that
    releasing a process gives back all its tables and all its data frames, each once.
  \<^item> \<open>Kstring\<close>, \<open>Kprintf\<close>: strings and formatted output of \<^verbatim>\<open>os/src/printf.c\<close> and
    \<^verbatim>\<open>os/lib/user_print.c\<close>, compared with the bytes a format stands for.
  \<^item> \<open>Task\<close>, \<open>UserCopy\<close>, \<open>Loader\<close>, \<open>Trap\<close>, \<open>Boot\<close>: \<^verbatim>\<open>os/src/task.c\<close>,
    \<^verbatim>\<open>loader.c\<close>, \<^verbatim>\<open>trap.c\<close>, \<^verbatim>\<open>timer.c\<close>, \<^verbatim>\<open>sbi.c\<close>, \<^verbatim>\<open>main.c\<close> and the
    save and restore code of \<^verbatim>\<open>kerneltrap.S\<close>. \<^verbatim>\<open>__switch\<close> is the only place where the
    kernel gives up the processor; a suspended kernel stack is a value of \<open>kcont\<close>, one
    constructor per call of \<^verbatim>\<open>__sys_yield\<close>. Shown: the copy made by a fork is private
    and exact.
  \<^item> \<open>Sched\<close>, \<open>Kernel\<close>: the process table as an abstract step relation
    (\<open>pstep\<close>) and the running kernel as a transition system (\<open>kstep\<close>). Every step of
    the kernel is a step of the process table or leaves it alone; along every run the task
    array keeps its invariant; round robin serves every runnable process as long as the
    runnable ones fill the first slots, and starves it otherwise.
\<close>

text \<open>
  \<^medskip>\<^bold>\<open>The firmware.\<close> Errors are the negative numbers of \<^verbatim>\<open>sbi_error.h\<close>.

  \<^item> \<open>SbiString\<close>, \<open>SbiBits\<close>, \<open>SbiFifo\<close>: the library of \<^verbatim>\<open>opensbi-1.2/lib/sbi\<close>:
    strings, bit searches, bitmaps and hart masks (sets of harts), and the ring buffer, which
    is shown to be a bounded queue (locale \<open>bounded_queue\<close>).
  \<^item> \<open>SbiScratch\<close>: the scratch areas (\<^verbatim>\<open>sbi_scratch.c\<close>, \<^verbatim>\<open>sbi_platform.c\<close>). Blocks
    handed out never overlap and are zeroed on every hart.
  \<^item> \<open>SbiDomain\<close>, \<open>SbiRoot\<close>: \<^verbatim>\<open>sbi_domain.c\<close>. The smallest region that holds an
    address decides an access; registration keeps the assignment of harts a partition; after
    the start the firmware's own memory is out of reach.
  \<^item> \<open>SbiHsm\<close>, \<open>SbiHsmRun\<close>: \<^verbatim>\<open>sbi_hsm.c\<close> with its environment calls, first as
    sequential operations, then with the harts interleaved between any two accesses to shared
    state (\<open>hstep\<close>). Under every interleaving each hart's state fits what the hart does.
  \<^item> \<open>QemuAclint\<close>, \<open>SbiTimer\<close>: the board's timer and software-interrupt device, as the
    emulator implements it (\<^verbatim>\<open>qemu/qemu-8.0.2/hw/intc/riscv_aclint.c\<close>), and the timer of the
    firmware that drives it (\<^verbatim>\<open>sbi_timer.c\<close>, \<^verbatim>\<open>sbi_ecall_time.c\<close>,
    \<^verbatim>\<open>lib/utils/timer/aclint_mtimer.c\<close>). The emulator's clock is an argument; a loop that
    polls a register gets the sequence of times of its accesses. Shown: a deadline given to the
    environment call raises the supervisor's interrupt never early and at most one tick late,
    accesses in 32-bit halves give the same results as 64-bit accesses, and the device never
    indexes its arrays out of range on the first socket. The theorem at the end of this file
    joins them with the kernel: its time slice is one millisecond.
  \<^item> \<open>SbiIpi\<close>: interrupts between harts (\<^verbatim>\<open>sbi_ipi.c\<close>, \<^verbatim>\<open>sbi_ecall_ipi.c\<close>) and the
    driver \<^verbatim>\<open>lib/utils/ipi/aclint_mswi.c\<close>, which runs on the emulated device. The callbacks of
    an event are a record of functions (\<open>ipi_callbacks\<close>). Shown: a call interrupts exactly
    the harts it names, and each of them sees the supervisor's interrupt.
  \<^item> \<open>SbiTlb\<close>, \<open>SbiTlbRun\<close>: remote fences (\<^verbatim>\<open>sbi_tlb.c\<close>, \<^verbatim>\<open>sbi_ecall_rfence.c\<close>). The
    first theory has the fences a request stands for and the merging of requests, the second
    the queues, the interrupts and the acknowledgements with the harts interleaved between any
    two accesses to shared memory (\<open>tstep\<close>). Shown: when a request returns, every target hart
    has executed fences that do what it asks for, and no hart spins on an acknowledgement;
    a request for everything written as two zeros is lost by merging. Targets are any list of
    harts, requests for supervisor fences are page-aligned and do not wrap, and the
    platform's range limit is at most \<open>2 ^ 64 - 4096\<close>, beyond which the loop over the pages of a
    range would not end. Returning needs the target to be scheduled and is not claimed.

  \<^medskip>\<^bold>\<open>Loops, fuel and bounds.\<close> Loops with a counter are recursion on it or
  \<^theory_text>\<open>function\<close> with a measure. Loops that end at a zero byte, and the merging loops of the
  domain code, are partial functions in the option type, and their termination is proved
  where it holds. \<open>free_page_table\<close> has a level count; three levels are enough for every tree
  (\<open>free_page_table_complete\<close>). \<open>uvm_copy_loop\<close> gives an error where the counter
  of the code would wrap and the loop never end, which needs a size within a page of
  \<open>2 ^ 64\<close>. Machine integers are words; hart numbers, bit numbers and queue indices are
  natural numbers where the code bounds them far below their width.

  \<^medskip>\<^bold>\<open>Parameters.\<close> The linker's symbols, the clock, the console input, the
  platform's callbacks and, in \<open>SbiHsm\<close>, the success of an interrupt sent to another hart
  are arguments of the definitions that use them.

  \<^medskip>\<^bold>\<open>Not modelled.\<close> The emulator but for the timer and software-interrupt device;
  the assembly that only sets up stacks and jumps; the build tool
  \<^verbatim>\<open>os/build.c\<close>; the user programs; the device drivers and the device-tree code of the
  firmware but for the two of the timer and software-interrupt device; the dispatch of the
  firmware's traps and calls, its console, its performance counters and its emulation of
  instructions. Weak memory ordering is not modelled: the firmware's fences are taken to order
  the accesses around them.
\<close>

section \<open>The kernel on the firmware on the device\<close>

text \<open>
  C7: The kernel's time slice is one millisecond, through the kernel, the firmware and the
  device. When the kernel programs its next tick, it asks the firmware for one deadline; from
  then on its timer interrupt is pending only after more than one millisecond less one tick
  (100 ns), and it is pending at the latest one tick after the millisecond. (The board's
  default clock rate, and a clock that has run for less than 292 years.)
\<close>

theorem kernel_time_slice:
  assumes "driver_ok h s" and "timebase_freq (tdev s) = RISCV_ACLINT_DEFAULT_TIMEBASE_FREQ"
    and "clock s \<le> now" and "now < INT64_MAX" and "unat (get_ticks (clock s) s) < 2 ^ 63"
  shows "\<exists>v s1. console (set_next_trigger (get_ticks (clock s) s) m) = console m @ [SbiSetTimer v] \<and>
    sbi_ecall_time_handler h False SBI_EXT_TIME_SET_TIMER v s = Inr (0, s1) \<and>
    (let pending = bit (tmip (timer_trap h (clock_to now s1)) h) 5; elapsed = unat now - unat (clock s) in
      (pending \<longrightarrow> 999900 < elapsed) \<and> (1000100 \<le> elapsed \<longrightarrow> pending))"
proof -
  let ?r = "get_ticks (clock s) s" and ?a = "unat (clock s)" and ?b = "unat now"
  define v where "v = ?r + 10000"
  have f: "unat (timebase_freq (tdev s)) * 100 = 1000000000" using assms(2) by (simp add: RISCV_ACLINT_DEFAULT_TIMEBASE_FREQ_def)
  have r: "unat ?r < 9223372036854775808" using assms(5) by simp
  have b: "?b < 9223372036854775807" "?a \<le> ?b" using assms(3,4) by (simp_all add: INT64_MAX_def word_less_nat_alt word_le_nat_alt)
  have v: "unat v = unat ?r + 10000" using r by (simp add: v_def unat_add64)
  have wrap: "unat ?r + (?b - ?a) < 2 ^ 64" using r b by simp
  have "(unat v - unat ?r) * 100 < 9223372036854775808" using v by simp
  then obtain s1 where s1: "sbi_ecall_time_handler h False SBI_EXT_TIME_SET_TIMER v s = Inr (0, s1)"
    "bit (tmip (timer_trap h (clock_to now s1)) h) 5 \<longrightarrow> v \<le> get_ticks now s"
    "v < get_ticks now s \<longrightarrow> bit (tmip (timer_trap h (clock_to now s1)) h) 5"
    by (rule set_timer_fires [OF assms(1) f assms(3,4) wrap])
  have "unat (get_ticks now s) = unat ?r + (?b div 100 - ?a div 100)"
    using rtc_later [OF f assms(3)] wrap by (simp add: get_ticks_def)
  then have cmp: "v \<le> get_ticks now s \<longleftrightarrow> 10000 \<le> ?b div 100 - ?a div 100"
    "v < get_ticks now s \<longleftrightarrow> 10000 < ?b div 100 - ?a div 100"
    by (simp_all add: word_le_nat_alt word_less_nat_alt v)
  have elapsed: "10000 \<le> ?b div 100 - ?a div 100 \<Longrightarrow> 999900 < ?b - ?a"
    "1000100 \<le> ?b - ?a \<Longrightarrow> 10000 < ?b div 100 - ?a div 100" by linarith+
  have "console (set_next_trigger ?r m) = console m @ [SbiSetTimer v]"
    by (simp add: set_next_trigger_def sbi_set_timer_def v_def CLOCK_FREQ_def TICKS_PER_SEC_def)
  with s1 show ?thesis unfolding cmp Let_def using elapsed by blast
qed

theorem kernel_time_slice_witness:
  "\<exists>s1. sbi_ecall_time_handler 0 False SBI_EXT_TIME_SET_TIMER 20000 sample_timer = Inr (0, s1) \<and>
     \<not> bit (tmip (timer_trap 0 (clock_to 1999900 s1)) 0) 5"
proof -
  let ?s = sample_timer and ?m = sample_ptmem
  have c: "clock ?s = 1000000" by (simp add: sample_timer_def)
  have a: "timebase_freq (tdev ?s) = RISCV_ACLINT_DEFAULT_TIMEBASE_FREQ" "clock ?s \<le> 1999900" "(1999900 :: u64) < INT64_MAX"
    "unat (get_ticks (clock ?s) ?s) < 2 ^ 63"
    by (simp_all add: c sample_timer_ok INT64_MAX_def RISCV_ACLINT_DEFAULT_TIMEBASE_FREQ_def)
  obtain v s1 where v: "console (set_next_trigger (get_ticks (clock ?s) ?s) ?m) = console ?m @ [SbiSetTimer v]"
    and s1: "sbi_ecall_time_handler 0 False SBI_EXT_TIME_SET_TIMER v ?s = Inr (0, s1)"
      "let pending = bit (tmip (timer_trap 0 (clock_to 1999900 s1)) 0) 5; elapsed = unat (1999900 :: u64) - unat (clock ?s)
       in (pending \<longrightarrow> 999900 < elapsed) \<and> (1000100 \<le> elapsed \<longrightarrow> pending)"
    using kernel_time_slice [OF sample_timer_ok(1) a, of ?m] by blast
  have "v = 20000"
    using v by (simp add: set_next_trigger_def sbi_set_timer_def CLOCK_FREQ_def TICKS_PER_SEC_def c sample_timer_ok(3))
  then show ?thesis using s1 by (simp add: c Let_def)
qed

end
